(* ===== verification/Prelude.thy ===== *)
theory Prelude
  imports Main "HOL-Library.Multiset"
begin

text \<open>
  Shared vocabulary of the development.

  Rust's fixed-width integers are modelled as \<open>int\<close> together with the range their type
  gives them: a value of type \<open>i32\<close> satisfies \<open>is_i32\<close>, one of type \<open>u32\<close>
  satisfies \<open>is_u32\<close>, and so on. The standard-library operations the sources use
  (\<open>saturating_add\<close>, \<open>try_from(..).unwrap_or(..)\<close>, \<open>as\<close> casts, \<open>div_euclid\<close>,
  \<open>div_ceil\<close>, \<open>clamp\<close>) are written out below, with the saturation or the wrap-around
  explicit. The lemmas of this theory say that they stay in range and when they are exact;
  the collection \<open>machine\<close> holds their definitions and \<open>machine_range\<close> the range facts.

  The second half holds the generic list operations that the sources share (\<open>Vec::remove\<close>,
  \<open>Vec::swap_remove\<close>, \<open>Iterator::position\<close>, \<open>Iterator::find\<close>, \<open>max_by_key\<close>) and
  association lists for hash maps that are iterated.
\<close>

named_theorems machine "definitions of the machine-integer operations"
named_theorems machine_range "range facts of the machine-integer operations"


section \<open>Machine integers\<close>

type_synonym i32 = int
type_synonym i64 = int
type_synonym i128 = int
type_synonym u16 = int
type_synonym u32 = int
type_synonym u64 = int

abbreviation (input) I32_MIN :: int where "I32_MIN \<equiv> - 2147483648"
abbreviation (input) I32_MAX :: int where "I32_MAX \<equiv> 2147483647"
abbreviation (input) U32_MAX :: int where "U32_MAX \<equiv> 4294967295"
abbreviation (input) I64_MIN :: int where "I64_MIN \<equiv> - 9223372036854775808"
abbreviation (input) I64_MAX :: int where "I64_MAX \<equiv> 9223372036854775807"
abbreviation (input) U64_MAX :: int where "U64_MAX \<equiv> 18446744073709551615"
abbreviation (input) U16_MAX :: int where "U16_MAX \<equiv> 65535"

definition is_i32 :: "int \<Rightarrow> bool" where
  "is_i32 z \<longleftrightarrow> I32_MIN \<le> z \<and> z \<le> I32_MAX"

definition is_u32 :: "int \<Rightarrow> bool" where
  "is_u32 z \<longleftrightarrow> 0 \<le> z \<and> z \<le> U32_MAX"

definition is_i64 :: "int \<Rightarrow> bool" where
  "is_i64 z \<longleftrightarrow> I64_MIN \<le> z \<and> z \<le> I64_MAX"

definition is_u64 :: "int \<Rightarrow> bool" where
  "is_u64 z \<longleftrightarrow> 0 \<le> z \<and> z \<le> U64_MAX"

text \<open>\<open>Ord::clamp\<close>; the sources only call it with \<open>lo \<le> hi\<close>, where it does not panic.\<close>

definition clamp :: "int \<Rightarrow> int \<Rightarrow> int \<Rightarrow> int" where
  "clamp lo hi z = (if z < lo then lo else if hi < z then hi else z)"

definition sat_i32 :: "int \<Rightarrow> i32" where
  "sat_i32 z = clamp I32_MIN I32_MAX z"

definition sat_u32 :: "int \<Rightarrow> u32" where
  "sat_u32 z = clamp 0 U32_MAX z"

definition sat_i64 :: "int \<Rightarrow> i64" where
  "sat_i64 z = clamp I64_MIN I64_MAX z"

definition sat_u64 :: "int \<Rightarrow> u64" where
  "sat_u64 z = clamp 0 U64_MAX z"

text \<open>\<open>i32::try_from(v).unwrap_or(i32::MAX)\<close> for an unsigned \<open>v\<close>.\<close>

definition i32_from_u32 :: "u32 \<Rightarrow> i32" where
  "i32_from_u32 v = (if v \<le> I32_MAX then v else I32_MAX)"

text \<open>\<open>u32::try_from(v).unwrap_or(u32::MAX)\<close>: every value outside the range, a negative one
  included, becomes \<open>u32::MAX\<close>.\<close>

definition u32_try_or_max :: "int \<Rightarrow> u32" where
  "u32_try_or_max v = (if 0 \<le> v \<and> v \<le> U32_MAX then v else U32_MAX)"

text \<open>\<open>i32::try_from(v).unwrap_or(if v.is_negative() \{ MIN \} else \{ MAX \})\<close>.\<close>

definition i32_try_or_sign :: "int \<Rightarrow> i32" where
  "i32_try_or_sign v =
     (if I32_MIN \<le> v \<and> v \<le> I32_MAX then v else if v < 0 then I32_MIN else I32_MAX)"

text \<open>An \<open>as u32\<close> cast keeps the low 32 bits.\<close>

definition as_u32 :: "int \<Rightarrow> u32" where
  "as_u32 v = v mod 4294967296"

text \<open>Integer division of Rust truncates towards zero; the sources divide non-negative values, or
  write the rounding out with \<open>div_euclid\<close>, which for a positive divisor is \<open>div\<close>.\<close>

definition div_ceil :: "int \<Rightarrow> int \<Rightarrow> int" where
  "div_ceil a b = (if a mod b = 0 then a div b else a div b + 1)"

lemmas machine_defs [machine] =
  is_i32_def is_u32_def is_i64_def is_u64_def clamp_def sat_i32_def sat_u32_def sat_i64_def
  sat_u64_def i32_from_u32_def u32_try_or_max_def i32_try_or_sign_def

lemma is_i32_sat_i32 [simp, machine_range]: "is_i32 (sat_i32 z)"
  by (simp add: machine)

lemma is_u32_sat_u32 [simp, machine_range]: "is_u32 (sat_u32 z)"
  by (simp add: machine)

lemma is_u64_sat_u64 [simp, machine_range]: "is_u64 (sat_u64 z)"
  by (simp add: machine)

lemma is_i32_i32_from_u32 [machine_range]: "is_u32 v \<Longrightarrow> is_i32 (i32_from_u32 v)"
  by (simp add: machine)

lemma is_u32_u32_try_or_max [simp, machine_range]: "is_u32 (u32_try_or_max v)"
  by (simp add: machine)

lemma is_i32_i32_try_or_sign [simp, machine_range]: "is_i32 (i32_try_or_sign v)"
  by (simp add: machine)

lemma i32_try_or_sign_eq_sat: "i32_try_or_sign v = sat_i32 v"
  by (simp add: machine)

lemma sat_i32_exact [simp]: "is_i32 z \<Longrightarrow> sat_i32 z = z"
  by (simp add: machine)

lemma sat_u32_exact [simp]: "is_u32 z \<Longrightarrow> sat_u32 z = z"
  by (simp add: machine)

lemma sat_i32_mono: "a \<le> b \<Longrightarrow> sat_i32 a \<le> sat_i32 b"
  by (simp add: machine)

lemma clamp_bounds: "lo \<le> hi \<Longrightarrow> lo \<le> clamp lo hi z \<and> clamp lo hi z \<le> hi"
  by (simp add: clamp_def)

lemma div_ceil_bounds:
  assumes "0 < b"
  shows "a \<le> b * div_ceil a b" and "b * div_ceil a b < a + b"
proof -
  define q m where "q = a div b" and "m = a mod b"
  have eq: "a = b * q + m" by (simp add: q_def m_def)
  have m: "0 \<le> m" "m < b" using assms by (simp_all add: m_def)
  have d: "b * div_ceil a b = b * q + (if m = 0 then 0 else b)"
    by (simp add: div_ceil_def q_def m_def distrib_left)
  show "a \<le> b * div_ceil a b" unfolding d using eq m by auto
  show "b * div_ceil a b < a + b" unfolding d using eq m assms by auto
qed


section \<open>Lists\<close>

text \<open>\<open>Vec::remove(i)\<close> of an index in range.\<close>

definition remove_nth :: "nat \<Rightarrow> 'a list \<Rightarrow> 'a list" where
  "remove_nth i xs = take i xs @ drop (Suc i) xs"

text \<open>\<open>Vec::swap_remove(i)\<close> of an index in range: the last element takes the place.\<close>

definition swap_remove :: "nat \<Rightarrow> 'a list \<Rightarrow> 'a list" where
  "swap_remove i xs = (if Suc i = length xs then butlast xs else (butlast xs)[i := last xs])"

text \<open>\<open>Iterator::position\<close>.\<close>

fun position :: "('a \<Rightarrow> bool) \<Rightarrow> 'a list \<Rightarrow> nat option" where
  "position P [] = None"
| "position P (x # xs) = (if P x then Some 0 else map_option Suc (position P xs))"

text \<open>\<open>Iterator::max_by_key\<close>: the last of the maximal elements.\<close>

fun max_by_key :: "('a \<Rightarrow> 'k::linorder) \<Rightarrow> 'a list \<Rightarrow> 'a option" where
  "max_by_key f [] = None"
| "max_by_key f (x # xs) =
     (case max_by_key f xs of None \<Rightarrow> Some x | Some y \<Rightarrow> Some (if f x \<le> f y then y else x))"

lemma length_remove_nth [simp]: "i < length xs \<Longrightarrow> length (remove_nth i xs) = length xs - 1"
  by (simp add: remove_nth_def)

lemma mset_remove_nth: "i < length xs \<Longrightarrow> mset (remove_nth i xs) + {# xs ! i #} = mset xs"
  by (metis remove_nth_def add_mset_add_single id_take_nth_drop mset_append mset.simps(2)
      union_mset_add_mset_right)

lemma set_remove_nth: "i < length xs \<Longrightarrow> insert (xs ! i) (set (remove_nth i xs)) = set xs"
  by (metis mset_remove_nth add_mset_add_single set_mset_add_mset_insert set_mset_mset)

lemma set_remove_nth_subset: "set (remove_nth i xs) \<subseteq> set xs"
  by (auto simp: remove_nth_def dest: in_set_takeD in_set_dropD)

lemma mset_swap_remove: "i < length xs \<Longrightarrow> mset (swap_remove i xs) + {# xs ! i #} = mset xs"
proof (cases "xs = []")
  case False
  assume i: "i < length xs"
  have split: "xs = butlast xs @ [last xs]" using False by simp
  show ?thesis
  proof (cases "Suc i = length xs")
    case True
    have "xs ! i = last xs" using True by (metis False diff_Suc_1 last_conv_nth)
    then show ?thesis
      using True split by (metis swap_remove_def mset_append mset_single_iff_right)
  next
    case neq: False
    with i have ib: "i < length (butlast xs)" by simp
    then have "butlast xs ! i = xs ! i" by (rule nth_butlast)
    then have "mset ((butlast xs)[i := last xs]) + {# xs ! i #} = mset (butlast xs) + {# last xs #}"
      using ib by (simp add: mset_update) (metis insert_DiffM nth_mem set_mset_mset length_butlast One_nat_def)
    also have "\<dots> = mset xs" using split by (metis mset_append mset_single_iff_right)
    finally show ?thesis using neq by (simp add: swap_remove_def)
  qed
qed simp

lemma set_swap_remove: "i < length xs \<Longrightarrow> insert (xs ! i) (set (swap_remove i xs)) = set xs"
  by (metis mset_swap_remove add_mset_add_single set_mset_add_mset_insert set_mset_mset)

lemma position_Some_iff:
  "position P xs = Some i \<longleftrightarrow> i < length xs \<and> P (xs ! i) \<and> (\<forall>j < i. \<not> P (xs ! j))"
proof (induction xs arbitrary: i)
  case (Cons x xs)
  then show ?case by (cases i) (auto simp: nth_Cons split: nat.splits)
qed simp

lemma position_None_iff: "position P xs = None \<longleftrightarrow> (\<forall>x \<in> set xs. \<not> P x)"
  by (induction xs) auto

lemma position_Some_find: "position P xs = Some i \<Longrightarrow> find P xs = Some (xs ! i)"
  by (auto simp: position_Some_iff find_Some_iff)

lemma find_Some_mem: "find P xs = Some x \<Longrightarrow> x \<in> set xs \<and> P x"
  by (auto simp: find_Some_iff)

lemma max_by_key_None_iff [simp]: "max_by_key f xs = None \<longleftrightarrow> xs = []"
  by (cases xs) (auto split: option.splits)

lemma max_by_key_Some:
  "max_by_key f xs = Some y \<Longrightarrow> y \<in> set xs \<and> (\<forall>x \<in> set xs. f x \<le> f y)"
proof (induction xs arbitrary: y)
  case (Cons x xs)
  then show ?case by (fastforce split: option.splits if_splits)
qed simp

section \<open>Results\<close>

text \<open>The operator \<open>?\<close> on results, and a loop that stops at the first error.\<close>

definition bind_ok :: "'e + 'a \<Rightarrow> ('a \<Rightarrow> 'e + 'b) \<Rightarrow> 'e + 'b" where
  "bind_ok r f = (case r of Inl e \<Rightarrow> Inl e | Inr a \<Rightarrow> f a)"

fun fold_ok :: "('a \<Rightarrow> 's \<Rightarrow> 'e + 's) \<Rightarrow> 'a list \<Rightarrow> 's \<Rightarrow> 'e + 's" where
  "fold_ok f [] s = Inr s"
| "fold_ok f (x # xs) s = bind_ok (f x s) (fold_ok f xs)"

lemma bind_ok_simps [simp]: "bind_ok (Inl e) f = Inl e" "bind_ok (Inr a) f = f a"
  by (simp_all add: bind_ok_def)

lemma bind_ok_eq_Inr:
  "bind_ok r f = Inr b \<longleftrightarrow> (\<exists>a. r = Inr a \<and> f a = Inr b)"
  by (cases r) auto

text \<open>A loop whose body never panics on states with an invariant is the loop of its values.\<close>

lemma fold_ok_invariant:
  assumes "\<And>x s. x \<in> set xs \<Longrightarrow> I s \<Longrightarrow> \<exists>s'. f x s = Inr s' \<and> I s' \<and> R s s'"
    and "I s" and "\<And>s. I s \<Longrightarrow> R s s" and "\<And>a b c. R a b \<Longrightarrow> R b c \<Longrightarrow> R a c"
  shows "\<exists>s'. fold_ok f xs s = Inr s' \<and> I s' \<and> R s s'"
  using assms(1,2)
proof (induction xs arbitrary: s)
  case Nil
  then show ?case using assms(3) by simp
next
  case (Cons x xs)
  obtain t where t: "f x s = Inr t" "I t" "R s t" using Cons.prems by fastforce
  obtain u where "fold_ok f xs t = Inr u" "I u" "R t u"
    using Cons.IH[of t] Cons.prems(1) t(2) by auto
  then show ?case using t assms(4) by auto
qed

lemma fold_ok_append: "fold_ok f (xs @ ys) s = bind_ok (fold_ok f xs s) (fold_ok f ys)"
  by (induction xs arbitrary: s) (auto simp: bind_ok_def split: sum.splits)

end
