(* ===== verification/Geometry.thy ===== *)
theory Geometry
  imports Prelude
begin

text \<open>
  The value geometry of \<^verbatim>\<open>crates/tensor-util/src/geometry.rs\<close>: points, sizes and half-open
  rectangles with saturating edges, and the even split of a length into tracks.

  The specification of a rectangle is the set of pixels it covers (\<open>pixel_set\<close>). The lemmas
  relate every operation to that set: \<open>rect_intersection\<close> is set intersection and never
  overflows, \<open>rect_union\<close> covers both arguments as long as the joint extent fits in an
  \<open>i32\<close>, \<open>rect_contains_rect\<close> and \<open>rect_touches_or_overlaps\<close> are inclusion and
  non-separation, and \<open>split_evenly\<close> is a partition of the length into balanced parts.
\<close>

section \<open>Data\<close>

record point =
  point_x :: i32
  point_y :: i32

record size2 =
  size_width :: u32
  size_height :: u32

record rect =
  rect_x :: i32
  rect_y :: i32
  rect_width :: u32
  rect_height :: u32

definition Size :: "u32 \<Rightarrow> u32 \<Rightarrow> size2" where
  "Size w h = \<lparr>size_width = w, size_height = h\<rparr>"

definition Rect :: "i32 \<Rightarrow> i32 \<Rightarrow> u32 \<Rightarrow> u32 \<Rightarrow> rect" where
  "Rect x y w h = \<lparr>rect_x = x, rect_y = y, rect_width = w, rect_height = h\<rparr>"

section \<open>Operations\<close>

definition rect_right :: "rect \<Rightarrow> i32" where
  "rect_right r = sat_i32 (rect_x r + i32_from_u32 (rect_width r))"

definition rect_bottom :: "rect \<Rightarrow> i32" where
  "rect_bottom r = sat_i32 (rect_y r + i32_from_u32 (rect_height r))"

definition rect_size :: "rect \<Rightarrow> size2" where
  "rect_size r = Size (rect_width r) (rect_height r)"

definition rect_intersection :: "rect \<Rightarrow> rect \<Rightarrow> rect option" where
  "rect_intersection a b =
     (let left = max (rect_x a) (rect_x b);
          top = max (rect_y a) (rect_y b);
          right = min (rect_right a) (rect_right b);
          bottom = min (rect_bottom a) (rect_bottom b)
      in if right \<le> left \<or> bottom \<le> top then None
         else Some (Rect left top (as_u32 (right - left)) (as_u32 (bottom - top))))"

definition rect_translated :: "rect \<Rightarrow> i32 \<Rightarrow> i32 \<Rightarrow> rect" where
  "rect_translated r x y =
     Rect (sat_i32 (rect_x r + x)) (sat_i32 (rect_y r + y)) (rect_width r) (rect_height r)"

definition rect_inflated :: "rect \<Rightarrow> u32 \<Rightarrow> rect" where
  "rect_inflated r amount =
     (let amount_i32 = i32_from_u32 amount
      in Rect (sat_i32 (rect_x r - amount_i32)) (sat_i32 (rect_y r - amount_i32))
              (sat_u32 (rect_width r + sat_u32 (amount * 2)))
              (sat_u32 (rect_height r + sat_u32 (amount * 2))))"

definition rect_union :: "rect \<Rightarrow> rect \<Rightarrow> rect" where
  "rect_union a b =
     (let left = min (rect_x a) (rect_x b);
          top = min (rect_y a) (rect_y b);
          right = max (rect_right a) (rect_right b);
          bottom = max (rect_bottom a) (rect_bottom b)
      in Rect left top (u32_try_or_max (sat_i32 (right - left)))
              (u32_try_or_max (sat_i32 (bottom - top))))"

definition rect_touches_or_overlaps :: "rect \<Rightarrow> rect \<Rightarrow> bool" where
  "rect_touches_or_overlaps a b \<longleftrightarrow>
     rect_x a \<le> rect_right b \<and> rect_x b \<le> rect_right a \<and>
     rect_y a \<le> rect_bottom b \<and> rect_y b \<le> rect_bottom a"

definition rect_contains_rect :: "rect \<Rightarrow> rect \<Rightarrow> bool" where
  "rect_contains_rect a b \<longleftrightarrow>
     rect_x a \<le> rect_x b \<and> rect_y a \<le> rect_y b \<and>
     rect_right b \<le> rect_right a \<and> rect_bottom b \<le> rect_bottom a"

text \<open>A \<open>usize\<close> count is a natural number; \<open>u32::try_from(count).unwrap_or(u32::MAX)\<close> caps it.\<close>

definition split_evenly :: "u32 \<Rightarrow> nat \<Rightarrow> u32 list" where
  "split_evenly len cnt =
     (if cnt = 0 then []
      else let n = min (int cnt) U32_MAX;
               base = len div n;
               remainder = len mod n
           in map (\<lambda>index. base + (if int index < remainder then 1 else 0)) [0..<nat n])"

section \<open>Well-formedness and the pixel set\<close>

text \<open>The values the Rust types can hold.\<close>

definition size_ok :: "size2 \<Rightarrow> bool" where
  "size_ok s \<longleftrightarrow> is_u32 (size_width s) \<and> is_u32 (size_height s)"

definition rect_ok :: "rect \<Rightarrow> bool" where
  "rect_ok r \<longleftrightarrow>
     is_i32 (rect_x r) \<and> is_i32 (rect_y r) \<and> is_u32 (rect_width r) \<and> is_u32 (rect_height r)"

text \<open>The pixel_set a rectangle covers: half-open in both axes, up to the saturated edges.\<close>

definition pixel_set :: "rect \<Rightarrow> (int \<times> int) set" where
  "pixel_set r = {rect_x r..<rect_right r} \<times> {rect_y r..<rect_bottom r}"

definition rect_empty :: "rect \<Rightarrow> bool" where
  "rect_empty r \<longleftrightarrow> rect_right r \<le> rect_x r \<or> rect_bottom r \<le> rect_y r"

lemma Rect_simps [simp]:
  "rect_x (Rect x y w h) = x" "rect_y (Rect x y w h) = y"
  "rect_width (Rect x y w h) = w" "rect_height (Rect x y w h) = h"
  by (simp_all add: Rect_def)

lemma Size_simps [simp]: "size_width (Size w h) = w" "size_height (Size w h) = h"
  by (simp_all add: Size_def)

lemma Rect_eq_iff [simp]:
  "Rect x y w h = Rect x' y' w' h' \<longleftrightarrow> x = x' \<and> y = y' \<and> w = w' \<and> h = h'"
  by (simp add: Rect_def)

lemma rect_eqI:
  "rect_x a = rect_x b \<Longrightarrow> rect_y a = rect_y b \<Longrightarrow> rect_width a = rect_width b \<Longrightarrow>
   rect_height a = rect_height b \<Longrightarrow> a = (b :: rect)"
  by simp

lemma Rect_collapse [simp]: "Rect (rect_x r) (rect_y r) (rect_width r) (rect_height r) = r"
  by (rule rect_eqI) simp_all

lemma rect_edges_i32 [simp]: "is_i32 (rect_right r)" "is_i32 (rect_bottom r)"
  by (simp_all add: rect_right_def rect_bottom_def)

text \<open>What is known of an edge of a well-formed rectangle; the later proofs use these facts rather
  than the saturation.\<close>

lemma rect_right_bounds:
  assumes "rect_ok r"
  shows "rect_x r \<le> rect_right r" "rect_right r \<le> rect_x r + rect_width r"
    "rect_right r - rect_x r \<le> I32_MAX" "rect_right r \<le> I32_MAX"
  using assms by (auto simp: rect_right_def rect_ok_def machine)

lemma rect_bottom_bounds:
  assumes "rect_ok r"
  shows "rect_y r \<le> rect_bottom r" "rect_bottom r \<le> rect_y r + rect_height r"
    "rect_bottom r - rect_y r \<le> I32_MAX" "rect_bottom r \<le> I32_MAX"
  using assms by (auto simp: rect_bottom_def rect_ok_def machine)

lemma rect_right_exact:
  "rect_ok r \<Longrightarrow> rect_x r + rect_width r \<le> I32_MAX \<Longrightarrow> rect_width r \<le> I32_MAX \<Longrightarrow>
   rect_right r = rect_x r + rect_width r"
  by (simp add: rect_right_def rect_ok_def machine)

lemma rect_bottom_exact:
  "rect_ok r \<Longrightarrow> rect_y r + rect_height r \<le> I32_MAX \<Longrightarrow> rect_height r \<le> I32_MAX \<Longrightarrow>
   rect_bottom r = rect_y r + rect_height r"
  by (simp add: rect_bottom_def rect_ok_def machine)

text \<open>Rebuilding a rectangle from its two edges is exact when the extent fits in an \<open>i32\<close>.\<close>

lemma rect_of_edges:
  assumes "is_i32 l" "is_i32 t" "is_i32 r" "is_i32 b" "l \<le> r" "t \<le> b"
    and "r - l \<le> I32_MAX" "b - t \<le> I32_MAX"
  shows "rect_right (Rect l t (r - l) (b - t)) = r"
    and "rect_bottom (Rect l t (r - l) (b - t)) = b"
    and "rect_ok (Rect l t (r - l) (b - t))"
  using assms by (auto simp: rect_right_def rect_bottom_def rect_ok_def machine)

lemma mem_pixel_set:
  "(px, py) \<in> pixel_set r \<longleftrightarrow>
     rect_x r \<le> px \<and> px < rect_right r \<and> rect_y r \<le> py \<and> py < rect_bottom r"
  by (auto simp: pixel_set_def)

lemma pixel_set_empty_iff: "pixel_set r = {} \<longleftrightarrow> rect_empty r"
  by (auto simp: pixel_set_def rect_empty_def)

lemma as_u32_exact: "0 \<le> z \<Longrightarrow> z \<le> U32_MAX \<Longrightarrow> as_u32 z = z"
  by (simp add: as_u32_def)

lemma u32_try_sat_exact: "0 \<le> z \<Longrightarrow> z \<le> I32_MAX \<Longrightarrow> u32_try_or_max (sat_i32 z) = z"
  by (simp add: machine)

section \<open>Intersection\<close>

lemma rect_intersection_Some:
  assumes ok: "rect_ok a" "rect_ok b" and c: "rect_intersection a b = Some c"
  shows "rect_x c = max (rect_x a) (rect_x b)" "rect_y c = max (rect_y a) (rect_y b)"
    "rect_right c = min (rect_right a) (rect_right b)"
    "rect_bottom c = min (rect_bottom a) (rect_bottom b)"
    "rect_ok c" "0 < rect_width c" "0 < rect_height c"
    "rect_width c \<le> I32_MAX" "rect_height c \<le> I32_MAX"
    "rect_x c < rect_right c" "rect_y c < rect_bottom c"
proof -
  define l t r bt where "l = max (rect_x a) (rect_x b)" and "t = max (rect_y a) (rect_y b)"
    and "r = min (rect_right a) (rect_right b)" and "bt = min (rect_bottom a) (rect_bottom b)"
  have lt: "l < r" "t < bt" and c_eq: "c = Rect l t (as_u32 (r - l)) (as_u32 (bt - t))"
    using c by (auto simp: rect_intersection_def Let_def l_def t_def r_def bt_def split: if_splits)
  have rng: "is_i32 l" "is_i32 t" "is_i32 r" "is_i32 bt"
    using ok by (auto simp: l_def t_def r_def bt_def rect_ok_def max_def min_def)
  have ext: "r - l \<le> I32_MAX" "bt - t \<le> I32_MAX"
    using rect_right_bounds(3)[OF ok(1)] rect_bottom_bounds(3)[OF ok(1)]
    by (simp_all add: l_def t_def r_def bt_def)
  have c_eq': "c = Rect l t (r - l) (bt - t)"
    using c_eq lt ext by (simp add: as_u32_exact)
  note edges = rect_of_edges[OF rng(1,2,3,4) _ _ ext]
  show "rect_x c = max (rect_x a) (rect_x b)" "rect_y c = max (rect_y a) (rect_y b)"
    using c_eq' by (simp_all add: l_def t_def)
  show "rect_right c = min (rect_right a) (rect_right b)"
    "rect_bottom c = min (rect_bottom a) (rect_bottom b)" "rect_ok c"
    using edges lt c_eq' by (simp_all add: r_def bt_def)
  show "0 < rect_width c" "0 < rect_height c" "rect_width c \<le> I32_MAX" "rect_height c \<le> I32_MAX"
    using c_eq' lt ext by simp_all
  show "rect_x c < rect_right c" "rect_y c < rect_bottom c"
    using edges lt c_eq' by simp_all
qed

lemma rect_intersection_None_iff:
  "rect_intersection a b = None \<longleftrightarrow>
     min (rect_right a) (rect_right b) \<le> max (rect_x a) (rect_x b) \<or>
     min (rect_bottom a) (rect_bottom b) \<le> max (rect_y a) (rect_y b)"
  by (auto simp: rect_intersection_def Let_def)

lemma rect_intersection_pixels:
  assumes "rect_ok a" "rect_ok b"
  shows "(case rect_intersection a b of None \<Rightarrow> {} | Some c \<Rightarrow> pixel_set c) = pixel_set a \<inter> pixel_set b"
proof (cases "rect_intersection a b")
  case None
  then have "pixel_set a \<inter> pixel_set b = {}"
    by (auto simp: rect_intersection_None_iff pixel_set_def)
  with None show ?thesis by simp
next
  case (Some c)
  then have "pixel_set c = pixel_set a \<inter> pixel_set b"
    using rect_intersection_Some[OF assms Some] by (auto simp: pixel_set_def)
  with Some show ?thesis by simp
qed

lemma rect_intersection_Some_pixels:
  "rect_ok a \<Longrightarrow> rect_ok b \<Longrightarrow> rect_intersection a b = Some c \<Longrightarrow> pixel_set c = pixel_set a \<inter> pixel_set b"
  using rect_intersection_pixels[of a b] by simp

lemma rect_intersection_None_pixels:
  "rect_ok a \<Longrightarrow> rect_ok b \<Longrightarrow> rect_intersection a b = None \<longleftrightarrow> pixel_set a \<inter> pixel_set b = {}"
  using rect_intersection_pixels[of a b] rect_intersection_Some(10,11)[of a b]
  by (auto simp: pixel_set_def split: option.splits)

lemma rect_intersection_within:
  assumes "rect_ok a" "rect_ok b" "rect_intersection a b = Some c"
  shows "rect_contains_rect a c" "rect_contains_rect b c"
  using rect_intersection_Some[OF assms] by (auto simp: rect_contains_rect_def)

section \<open>Containment and union\<close>

lemma rect_contains_rect_refl [simp]: "rect_contains_rect r r"
  by (simp add: rect_contains_rect_def)

lemma rect_contains_rect_trans:
  "rect_contains_rect a b \<Longrightarrow> rect_contains_rect b c \<Longrightarrow> rect_contains_rect a c"
  by (auto simp: rect_contains_rect_def)

lemma rect_contains_rect_pixels: "rect_contains_rect a b \<Longrightarrow> pixel_set b \<subseteq> pixel_set a"
  by (auto simp: rect_contains_rect_def pixel_set_def)

lemma rect_contains_rect_iff_pixels:
  assumes "\<not> rect_empty b"
  shows "rect_contains_rect a b \<longleftrightarrow> pixel_set b \<subseteq> pixel_set a"
proof
  assume sub: "pixel_set b \<subseteq> pixel_set a"
  have "(rect_x b, rect_y b) \<in> pixel_set b" and "(rect_right b - 1, rect_bottom b - 1) \<in> pixel_set b"
    using assms by (auto simp: mem_pixel_set rect_empty_def)
  then have "(rect_x b, rect_y b) \<in> pixel_set a" "(rect_right b - 1, rect_bottom b - 1) \<in> pixel_set a"
    using sub by blast+
  then show "rect_contains_rect a b" by (auto simp: mem_pixel_set rect_contains_rect_def)
qed (rule rect_contains_rect_pixels)

text \<open>The joint extent of two rectangles fits in an \<open>i32\<close>. It holds in particular for two
  rectangles inside one well-formed rectangle (\<open>union_fits_within\<close>).\<close>

definition union_fits :: "rect \<Rightarrow> rect \<Rightarrow> bool" where
  "union_fits a b \<longleftrightarrow>
     max (rect_right a) (rect_right b) - min (rect_x a) (rect_x b) \<le> I32_MAX \<and>
     max (rect_bottom a) (rect_bottom b) - min (rect_y a) (rect_y b) \<le> I32_MAX"

lemma rect_union_edges:
  assumes ok: "rect_ok a" "rect_ok b" and fits: "union_fits a b"
  shows "rect_x (rect_union a b) = min (rect_x a) (rect_x b)"
    "rect_y (rect_union a b) = min (rect_y a) (rect_y b)"
    "rect_right (rect_union a b) = max (rect_right a) (rect_right b)"
    "rect_bottom (rect_union a b) = max (rect_bottom a) (rect_bottom b)"
    "rect_ok (rect_union a b)"
proof -
  define l t r bt where "l = min (rect_x a) (rect_x b)" and "t = min (rect_y a) (rect_y b)"
    and "r = max (rect_right a) (rect_right b)" and "bt = max (rect_bottom a) (rect_bottom b)"
  have rng: "is_i32 l" "is_i32 t" "is_i32 r" "is_i32 bt"
    using ok by (auto simp: l_def t_def r_def bt_def rect_ok_def max_def min_def)
  have ext: "r - l \<le> I32_MAX" "bt - t \<le> I32_MAX"
    using fits by (auto simp: union_fits_def l_def t_def r_def bt_def)
  have le: "l \<le> r" "t \<le> bt"
    using rect_right_bounds(1)[OF ok(1)] rect_bottom_bounds(1)[OF ok(1)]
    by (auto simp: l_def t_def r_def bt_def)
  have u: "rect_union a b = Rect l t (r - l) (bt - t)"
    using le ext by (simp add: rect_union_def Let_def u32_try_sat_exact l_def t_def r_def bt_def)
  note edges = rect_of_edges[OF rng(1,2,3,4) le ext]
  show "rect_x (rect_union a b) = min (rect_x a) (rect_x b)"
    "rect_y (rect_union a b) = min (rect_y a) (rect_y b)"
    "rect_right (rect_union a b) = max (rect_right a) (rect_right b)"
    "rect_bottom (rect_union a b) = max (rect_bottom a) (rect_bottom b)"
    "rect_ok (rect_union a b)"
    using edges by (simp_all add: u l_def t_def r_def bt_def)
qed

lemma rect_union_ok: "rect_ok a \<Longrightarrow> rect_ok b \<Longrightarrow> rect_ok (rect_union a b)"
  by (auto simp: rect_union_def Let_def rect_ok_def min_def)

lemma rect_union_contains:
  assumes "rect_ok a" "rect_ok b" "union_fits a b"
  shows "rect_contains_rect (rect_union a b) a" "rect_contains_rect (rect_union a b) b"
  by (auto simp: rect_contains_rect_def rect_union_edges[OF assms])

lemma rect_union_least:
  assumes "rect_ok a" "rect_ok b" "union_fits a b"
    and "rect_contains_rect c a" "rect_contains_rect c b"
  shows "rect_contains_rect c (rect_union a b)"
  using assms(4,5) by (auto simp: rect_contains_rect_def rect_union_edges[OF assms(1-3)])

lemma union_fits_within:
  assumes "rect_ok v" "rect_contains_rect v a" "rect_contains_rect v b"
  shows "union_fits a b"
  using assms(2,3) rect_right_bounds(3)[OF assms(1)] rect_bottom_bounds(3)[OF assms(1)]
  by (auto simp: union_fits_def rect_contains_rect_def)

lemma rect_touches_commute: "rect_touches_or_overlaps a b = rect_touches_or_overlaps b a"
  by (auto simp: rect_touches_or_overlaps_def)

lemma rect_touches_mono:
  "rect_contains_rect a b \<Longrightarrow> rect_touches_or_overlaps b c \<Longrightarrow> rect_touches_or_overlaps a c"
  by (auto simp: rect_contains_rect_def rect_touches_or_overlaps_def)

lemma not_touching_disjoint: "\<not> rect_touches_or_overlaps a b \<Longrightarrow> pixel_set a \<inter> pixel_set b = {}"
  by (auto simp: rect_touches_or_overlaps_def pixel_set_def)

section \<open>Translation and inflation\<close>

lemma rect_translated_ok: "rect_ok r \<Longrightarrow> rect_ok (rect_translated r dx dy)"
  by (simp add: rect_translated_def rect_ok_def)

lemma rect_inflated_ok: "rect_ok r \<Longrightarrow> rect_ok (rect_inflated r n)"
  by (simp add: rect_inflated_def rect_ok_def Let_def)

text \<open>Inflation contains the original as long as the doubled amount plus the extent fits in an
  \<open>i32\<close>; beyond that the saturated width no longer reaches the right edge.\<close>

lemma rect_inflated_contains:
  assumes "rect_ok r" "0 \<le> n" "2 * n + rect_width r \<le> I32_MAX" "2 * n + rect_height r \<le> I32_MAX"
  shows "rect_contains_rect (rect_inflated r n) r"
  using assms
  by (auto simp: rect_contains_rect_def rect_inflated_def Let_def rect_right_def rect_bottom_def
      rect_ok_def machine)

section \<open>Even splits\<close>

lemma length_split_evenly: "length (split_evenly len cnt) = nat (min (int cnt) U32_MAX)"
  by (auto simp: split_evenly_def Let_def)

lemma length_split_evenly_small [simp]:
  "int cnt \<le> U32_MAX \<Longrightarrow> length (split_evenly len cnt) = cnt"
  by (simp add: length_split_evenly)

lemma split_evenly_nth:
  assumes "i < length (split_evenly len cnt)"
  shows "split_evenly len cnt ! i =
    len div min (int cnt) U32_MAX + (if int i < len mod min (int cnt) U32_MAX then 1 else 0)"
  using assms by (auto simp: split_evenly_def Let_def)

lemma sum_indicator_below:
  "(\<Sum>i < m. if int i < r then 1 else 0 :: int) = max 0 (min r (int m))"
  by (induction m) auto

lemma sum_list_split_evenly:
  assumes "0 \<le> len" "cnt \<noteq> 0"
  shows "sum_list (split_evenly len cnt) = len"
proof -
  define n where "n = min (int cnt) U32_MAX"
  have n: "0 < n" using assms by (simp add: n_def)
  have "sum_list (split_evenly len cnt) =
      (\<Sum>i < nat n. len div n + (if int i < len mod n then 1 else 0))"
    using assms
    by (simp add: split_evenly_def Let_def n_def interv_sum_list_conv_sum_set_nat atLeast0LessThan)
  also have "\<dots> = n * (len div n) + max 0 (min (len mod n) n)"
    using n by (simp add: sum.distrib sum_indicator_below)
  also have "max 0 (min (len mod n) n) = len mod n"
    using n by (simp add: order.strict_implies_order)
  finally show ?thesis by simp
qed

lemma split_evenly_range:
  assumes "0 \<le> len" "x \<in> set (split_evenly len cnt)"
  shows "0 \<le> x" "x \<le> len"
proof -
  have nn: "\<forall>y \<in> set (split_evenly len cnt). 0 \<le> y"
    using assms(1) by (auto simp: split_evenly_def Let_def pos_imp_zdiv_nonneg_iff)
  then show "0 \<le> x" using assms(2) by simp
  have "x \<le> sum_list (split_evenly len cnt)"
    using nn assms(2) by (intro member_le_sum_list) auto
  moreover have "cnt \<noteq> 0" using assms(2) by (cases cnt) (auto simp: split_evenly_def)
  ultimately show "x \<le> len" using sum_list_split_evenly[OF assms(1)] by simp
qed

lemma split_evenly_balanced:
  assumes "x \<in> set (split_evenly len cnt)" "y \<in> set (split_evenly len cnt)"
  shows "x \<le> y + 1"
  using assms by (auto simp: split_evenly_def Let_def split: if_splits)

lemma sorted_split_evenly: "sorted (rev (split_evenly len cnt))"
  by (auto simp: sorted_rev_iff_nth_mono split_evenly_nth)

section \<open>Properties\<close>

text \<open>The intersection of two rectangles covers exactly the pixels both cover, whatever their edges
  saturate to; it is absent exactly when they share no pixel, and never empty when present.\<close>

lemma rect_intersection_exact:
  assumes "rect_ok a" "rect_ok b"
  shows "case rect_intersection a b of
           None \<Rightarrow> pixel_set a \<inter> pixel_set b = {}
         | Some c \<Rightarrow> rect_ok c \<and> pixel_set c = pixel_set a \<inter> pixel_set b \<and> pixel_set c \<noteq> {}"
  using rect_intersection_pixels[OF assms] rect_intersection_Some(5)[OF assms]
    rect_intersection_None_pixels[OF assms]
  by (auto split: option.splits)

text \<open>The union of two rectangles whose joint extent fits in an \<open>i32\<close> is the smallest rectangle
  that contains both.\<close>

lemma rect_union_smallest:
  assumes "rect_ok a" "rect_ok b" "union_fits a b"
  shows "rect_ok (rect_union a b) \<and>
         (\<forall>c. rect_contains_rect c (rect_union a b) \<longleftrightarrow> rect_contains_rect c a \<and> rect_contains_rect c b)"
  using rect_union_edges(5)[OF assms] rect_union_contains[OF assms] rect_union_least[OF assms]
    rect_contains_rect_trans by blast

text \<open>\<open>split_evenly\<close> partitions a length: the requested number of parts, of sizes that differ by at
  most one pixel with the larger parts first, and no pixel lost or invented.\<close>

lemma split_evenly_partition:
  assumes "is_u32 len" "cnt \<noteq> 0" "int cnt \<le> U32_MAX"
  shows "length (split_evenly len cnt) = cnt \<and> sum_list (split_evenly len cnt) = len \<and>
         sorted (rev (split_evenly len cnt)) \<and> hd (split_evenly len cnt) \<le> last (split_evenly len cnt) + 1 \<and>
         (\<forall>x \<in> set (split_evenly len cnt). is_u32 x)"
proof -
  have len: "0 \<le> len" using assms(1) by (simp add: is_u32_def)
  have "split_evenly len cnt \<noteq> []"
    using assms(2,3) length_split_evenly_small[of cnt len] by force
  then have "hd (split_evenly len cnt) \<le> last (split_evenly len cnt) + 1"
    by (intro split_evenly_balanced[of _ len cnt]) simp_all
  then show ?thesis
    using assms len sum_list_split_evenly[OF len assms(2)] sorted_split_evenly split_evenly_range[OF len]
    by (fastforce simp: is_u32_def)
qed

end
