(* ===== verification/Layout_Model.thy ===== *)
theory Layout_Model
  imports Geometry
begin

text \<open>
  The layout vocabulary of \<^verbatim>\<open>apps/tensor-wm/src/layout/model.rs\<close>: size constraints,
  proportional and fixed lengths, layout items, options, the persistent layout state, and the
  placements and snapshots a layout produces.

  The locale \<open>tiling_layout\<close> is the contract between a layout and the compositor world that
  calls it: one placement per item, in order, each of a size its item's constraints allow, with
  the visible part clipped to the area. It is interpreted on each of the three layouts and on
  the layout engine, in the theories that define them.
\<close>

section \<open>Constraints\<close>

record size_constraints =
  min_size :: size2
  max_width :: "u32 option"
  max_height :: "u32 option"

definition constrain_axis :: "u32 \<Rightarrow> u32 \<Rightarrow> u32 option \<Rightarrow> u32" where
  "constrain_axis desired mn mx =
     (let mx' = max (case mx of None \<Rightarrow> U32_MAX | Some m \<Rightarrow> m) mn in clamp mn mx' desired)"

definition constrain :: "size_constraints \<Rightarrow> size2 \<Rightarrow> size2" where
  "constrain c desired =
     Size (constrain_axis (size_width desired) (size_width (min_size c)) (max_width c))
          (constrain_axis (size_height desired) (size_height (min_size c)) (max_height c))"

definition default_constraints :: size_constraints where
  "default_constraints = \<lparr>min_size = Size 1 1, max_width = None, max_height = None\<rparr>"

section \<open>Lengths\<close>

datatype layout_length =
    Proportion u32 u32
  | Fixed u32

function gcd_loop :: "u32 \<Rightarrow> u32 \<Rightarrow> u32" where
  "gcd_loop left right = (if right \<noteq> 0 then gcd_loop right (left mod right) else left)"
  by pat_completeness auto
termination
  by (relation "measure (\<lambda>(left, right). nat \<bar>right\<bar>)") (auto simp: abs_mod_less)

declare gcd_loop.simps [simp del]

definition greatest_common_divisor :: "u32 \<Rightarrow> u32 \<Rightarrow> u32" where
  "greatest_common_divisor left right =
     (let g = gcd_loop left right in if g = 0 then 1 else g)"

definition proportion :: "u32 \<Rightarrow> u32 \<Rightarrow> layout_length" where
  "proportion n d =
     (let d' = (if d = 0 then 1 else d);
          divisor = greatest_common_divisor n d'
      in Proportion (n div divisor) (d' div divisor))"

fun resolve :: "layout_length \<Rightarrow> u32 \<Rightarrow> u32" where
  "resolve (Proportion n d) available =
     u32_try_or_max (sat_u64 (available * n) div max d 1)"
| "resolve (Fixed pixels) available = pixels"

fun resolve_column :: "layout_length \<Rightarrow> u32 \<Rightarrow> u32 \<Rightarrow> u32" where
  "resolve_column (Proportion n d) view_width gap =
     sat_u32 (resolve (Proportion n d) (sat_u32 (view_width - gap)) - gap)"
| "resolve_column (Fixed pixels) view_width gap = pixels"

definition default_length :: layout_length where
  "default_length = proportion 1 2"

section \<open>Items, options, state and results\<close>

record layout_item =
  item_constraints :: size_constraints
  primary_size :: "layout_length option"

definition default_item :: layout_item where
  "default_item = \<lparr>item_constraints = default_constraints, primary_size = None\<rparr>"

record layout_options =
  opt_gap :: u32
  scrolling_default_width :: layout_length
  master_width :: layout_length

definition default_options :: layout_options where
  "default_options = \<lparr>opt_gap = 8, scrolling_default_width = proportion 1 2,
                      master_width = proportion 55 100\<rparr>"

record layout_state =
  horizontal_offset :: i32

definition default_state :: layout_state where
  "default_state = \<lparr>horizontal_offset = 0\<rparr>"

definition reset_horizontal :: "layout_state \<Rightarrow> layout_state" where
  "reset_horizontal st = st\<lparr>horizontal_offset := 0\<rparr>"

record layout_placement =
  placement_geometry :: rect
  placement_visible :: "rect option"

definition layout_placement_new :: "rect \<Rightarrow> rect \<Rightarrow> layout_placement" where
  "layout_placement_new geometry viewport =
     \<lparr>placement_geometry = geometry, placement_visible = rect_intersection geometry viewport\<rparr>"

record layout_snapshot =
  snapshot_viewport :: rect
  placements :: "layout_placement list"
  content_bounds :: rect
  snapshot_offset :: i32

definition snapshot_empty :: "rect \<Rightarrow> layout_state \<Rightarrow> layout_snapshot" where
  "snapshot_empty area st =
     \<lparr>snapshot_viewport = area, placements = [],
      content_bounds = Rect (rect_x area) (rect_y area) 0 0,
      snapshot_offset = horizontal_offset st\<rparr>"

type_synonym layout_fn =
  "layout_options \<Rightarrow> layout_state \<Rightarrow> rect \<Rightarrow> layout_item list \<Rightarrow> nat option \<Rightarrow>
   layout_state \<times> layout_snapshot"

section \<open>Well-formed values\<close>

definition option_u32 :: "u32 option \<Rightarrow> bool" where
  "option_u32 m \<longleftrightarrow> (case m of None \<Rightarrow> True | Some v \<Rightarrow> is_u32 v)"

definition constraints_ok :: "size_constraints \<Rightarrow> bool" where
  "constraints_ok c \<longleftrightarrow>
     size_ok (min_size c) \<and> option_u32 (max_width c) \<and> option_u32 (max_height c)"

fun length_ok :: "layout_length \<Rightarrow> bool" where
  "length_ok (Proportion n d) \<longleftrightarrow> is_u32 n \<and> is_u32 d"
| "length_ok (Fixed v) \<longleftrightarrow> is_u32 v"

definition item_ok :: "layout_item \<Rightarrow> bool" where
  "item_ok it \<longleftrightarrow> constraints_ok (item_constraints it) \<and>
     (case primary_size it of None \<Rightarrow> True | Some l \<Rightarrow> length_ok l)"

definition options_ok :: "layout_options \<Rightarrow> bool" where
  "options_ok opts \<longleftrightarrow> is_u32 (opt_gap opts) \<and> length_ok (scrolling_default_width opts) \<and>
     length_ok (master_width opts)"

text \<open>A size an item's constraints allow: at least the minimum, and at most the maximum where that
  does not undercut the minimum.\<close>

definition allows :: "size_constraints \<Rightarrow> size2 \<Rightarrow> bool" where
  "allows c s \<longleftrightarrow>
     size_width (min_size c) \<le> size_width s \<and> size_height (min_size c) \<le> size_height s \<and>
     (case max_width c of None \<Rightarrow> True
        | Some m \<Rightarrow> size_width s \<le> max m (size_width (min_size c))) \<and>
     (case max_height c of None \<Rightarrow> True
        | Some m \<Rightarrow> size_height s \<le> max m (size_height (min_size c)))"

lemma constrain_axis_bounds:
  assumes "is_u32 mn" "option_u32 mx"
  shows "mn \<le> constrain_axis d mn mx"
    and "mx = Some m \<Longrightarrow> constrain_axis d mn mx \<le> max m mn"
    and "is_u32 (constrain_axis d mn mx)"
  using assms by (auto simp: constrain_axis_def Let_def option_u32_def machine split: option.splits)

lemma constrain_allows: "constraints_ok c \<Longrightarrow> allows c (constrain c s)"
  by (auto simp: allows_def constrain_def constraints_ok_def size_ok_def constrain_axis_bounds
      split: option.splits)

lemma constrain_size_ok: "constraints_ok c \<Longrightarrow> size_ok (constrain c s)"
  by (simp add: constrain_def constraints_ok_def size_ok_def constrain_axis_bounds)

lemma constrain_id: "size_ok s \<Longrightarrow> allows c s \<Longrightarrow> constrain c s = s"
  by (auto simp: allows_def constrain_def constrain_axis_def size_ok_def Let_def machine
      split: option.splits intro!: size2.equality)

lemma constrain_idem: "constraints_ok c \<Longrightarrow> constrain c (constrain c s) = constrain c s"
  by (simp add: constrain_id constrain_allows constrain_size_ok)

text \<open>A constraint whose minimum is no larger than the cell never makes a window outgrow it.\<close>

lemma constrain_le_cell:
  assumes "size_ok s" "size_width (min_size c) \<le> size_width s" "size_height (min_size c) \<le> size_height s"
  shows "size_width (constrain c s) \<le> size_width s" "size_height (constrain c s) \<le> size_height s"
  using assms
  by (auto simp: constrain_def constrain_axis_def size_ok_def Let_def machine split: option.splits)

lemma gcd_loop_gcd: "0 \<le> left \<Longrightarrow> 0 \<le> right \<Longrightarrow> gcd_loop left right = gcd left right"
proof (induction left right rule: gcd_loop.induct)
  case (1 left right)
  then show ?case
    by (cases "right = 0")
      (simp_all add: gcd_loop.simps[of left 0] gcd_loop.simps[of left right] gcd_red_int[of left right])
qed

lemma proportion_value:
  assumes "0 \<le> n" "0 \<le> d" "proportion n d = Proportion n' d'"
  shows "n' * (if d = 0 then 1 else d) = n * d'" "coprime n' d'" "0 < d'" "0 \<le> n'"
proof -
  define e where "e = (if d = 0 then 1 else d)"
  define g where "g = gcd n e"
  have e: "0 < e" using assms(2) by (simp add: e_def)
  then have g: "0 < g" by (simp add: g_def)
  have n': "n' = n div g" and d': "d' = e div g"
    using assms g e
    by (auto simp: proportion_def Let_def greatest_common_divisor_def gcd_loop_gcd e_def g_def)
  have ng: "n' * g = n" and dg: "d' * g = e" by (simp_all add: n' d' g_def)
  have "n' * e = (n' * g) * d'" by (simp add: ac_simps flip: dg)
  then show "n' * (if d = 0 then 1 else d) = n * d'" by (simp add: ng flip: e_def)
  show "coprime n' d'" unfolding n' d' g_def using e by (intro div_gcd_coprime) simp
  show "0 < d'" using e g dg by (metis zero_less_mult_pos2)
  show "0 \<le> n'" using assms(1) g by (simp add: n' pos_imp_zdiv_nonneg_iff)
qed

lemma resolve_u32: "length_ok l \<Longrightarrow> is_u32 (resolve l a)"
  by (cases l) simp_all

lemma resolve_column_u32: "length_ok l \<Longrightarrow> is_u32 (resolve_column l w g)"
  by (cases l) simp_all

text \<open>The 64-bit product of two \<open>u32\<close> values never saturates.\<close>

lemma resolve_Proportion:
  assumes "is_u32 n" "is_u32 d" "is_u32 a" "d \<noteq> 0" "n \<le> d"
  shows "resolve (Proportion n d) a = a * n div d" "a * n div d \<le> a"
proof -
  have d: "0 < d" using assms by (simp add: is_u32_def)
  have "a * n \<le> a * d" using assms by (simp add: is_u32_def mult_left_mono)
  then have le: "a * n div d \<le> a" using d by (metis zdiv_mono1 nonzero_mult_div_cancel_right assms(4))
  have nn: "0 \<le> a * n" "0 \<le> a * n div d"
    using assms d by (simp_all add: is_u32_def pos_imp_zdiv_nonneg_iff)
  have "a * n \<le> 4294967295 * 4294967295"
    using assms by (intro mult_mono) (simp_all add: is_u32_def)
  then have "sat_u64 (a * n) = a * n" using nn by (simp add: machine)
  moreover have "max d 1 = d" using d by simp
  ultimately show "resolve (Proportion n d) a = a * n div d"
    using nn le assms by (simp add: u32_try_or_max_def is_u32_def)
  show "a * n div d \<le> a" by (rule le)
qed

section \<open>The layout contract\<close>

locale tiling_layout =
  fixes arrange :: layout_fn
  assumes arrange_length:
      "int (length items) < U32_MAX \<Longrightarrow>
       length (placements (snd (arrange opts st area items focused))) = length items"
    and arrange_allows:
      "list_all item_ok items \<Longrightarrow> options_ok opts \<Longrightarrow> rect_ok area \<Longrightarrow>
       i < length (placements (snd (arrange opts st area items focused))) \<Longrightarrow> i < length items \<Longrightarrow>
       allows (item_constraints (items ! i))
         (rect_size (placement_geometry (placements (snd (arrange opts st area items focused)) ! i)))"
    and arrange_rect_ok:
      "list_all item_ok items \<Longrightarrow> p \<in> set (placements (snd (arrange opts st area items focused))) \<Longrightarrow>
       rect_ok (placement_geometry p)"
    and arrange_clip:
      "p \<in> set (placements (snd (arrange opts st area items focused))) \<Longrightarrow>
       placement_visible p = rect_intersection (placement_geometry p) area"
    and arrange_viewport: "snapshot_viewport (snd (arrange opts st area items focused)) = area"
    and arrange_offset:
      "snapshot_offset (snd (arrange opts st area items focused)) =
       horizontal_offset (fst (arrange opts st area items focused))"
begin

lemma arrange_empty: "placements (snd (arrange opts st area [] focused)) = []"
  using arrange_length[of "[]"] by simp

text \<open>What is drawn of a window stays on the output.\<close>

lemma arrange_visible_within:
  assumes "rect_ok area" "list_all item_ok items"
    and "p \<in> set (placements (snd (arrange opts st area items focused)))"
    and "placement_visible p = Some v"
  shows "rect_contains_rect area v"
  using assms arrange_clip[OF assms(3)] arrange_rect_ok[OF assms(2,3)] rect_intersection_within(2) by metis

end

lemma layout_placement_new_simps [simp]:
  "placement_geometry (layout_placement_new g v) = g"
  "placement_visible (layout_placement_new g v) = rect_intersection g v"
  by (simp_all add: layout_placement_new_def)

lemma snapshot_empty_simps [simp]:
  "placements (snapshot_empty area st) = []" "snapshot_viewport (snapshot_empty area st) = area"
  "snapshot_offset (snapshot_empty area st) = horizontal_offset st"
  by (simp_all add: snapshot_empty_def)

end
