(* ===== verification/Layout_Scrolling.thy ===== *)
theory Layout_Scrolling
  imports Layout_Model
begin

text \<open>
  The scrolling layout, \<^verbatim>\<open>apps/tensor-wm/src/layout/scrolling.rs\<close>: one row of columns,
  wider than the output when it has to be, and a persistent horizontal offset that is moved just
  enough to reveal the focused column.

  The theorems: columns are separated by exactly the configured gap, the focused column is
  revealed (or left-aligned when it is wider than the view), and arranging twice is the same as
  arranging once.
\<close>

section \<open>Model\<close>

definition add_offset :: "i32 \<Rightarrow> u32 \<Rightarrow> i32" where
  "add_offset origin amount = sat_i32 (origin + i32_from_u32 amount)"

definition center_axis :: "i32 \<Rightarrow> u32 \<Rightarrow> u32 \<Rightarrow> i32" where
  "center_axis origin available sz = add_offset origin (sat_u32 (available - sz) div 2)"

definition distance :: "i32 \<Rightarrow> i32 \<Rightarrow> u32" where
  "distance left right = u32_try_or_max (sat_i32 (right - left))"

text \<open>The constrained size of one column.\<close>

definition column_size :: "layout_options \<Rightarrow> rect \<Rightarrow> u32 \<Rightarrow> layout_item \<Rightarrow> size2" where
  "column_size opts area inner_height it =
     (let requested_width =
            resolve_column
              (case primary_size it of None \<Rightarrow> scrolling_default_width opts | Some l \<Rightarrow> l)
              (rect_width area) (opt_gap opts)
      in constrain (item_constraints it) (Size requested_width inner_height))"

text \<open>The loop over the items: the base rectangles, the next free \<open>x\<close> and the largest height.\<close>

fun scroll_columns ::
  "layout_options \<Rightarrow> rect \<Rightarrow> u32 \<Rightarrow> u32 \<Rightarrow> layout_item list \<Rightarrow> i32 \<Rightarrow> u32 \<Rightarrow> rect list \<times> i32 \<times> u32"
where
  "scroll_columns opts area padding inner_height [] x max_h = ([], x, max_h)"
| "scroll_columns opts area padding inner_height (it # items) x max_h =
     (let sz = column_size opts area inner_height it;
          y = center_axis (add_offset (rect_y area) padding) inner_height (size_height sz);
          (base, x', max_h') =
            scroll_columns opts area padding inner_height items
              (add_offset (add_offset x (size_width sz)) (opt_gap opts))
              (max max_h (size_height sz))
      in (Rect x y (size_width sz) (size_height sz) # base, x', max_h'))"

definition update_view_offset ::
  "layout_state \<Rightarrow> rect \<Rightarrow> u32 \<Rightarrow> u32 \<Rightarrow> rect list \<Rightarrow> nat option \<Rightarrow> layout_state"
where
  "update_view_offset st area padding content_width base focused =
     (if content_width \<le> rect_width area then reset_horizontal st
      else let view_left = add_offset (rect_x area) padding;
               view_right = sat_i32 (rect_right area - i32_from_u32 padding);
               content_right = rect_x area + content_width - padding;
               minimum = min (sat_i64 (view_right - content_right)) 0;
               offset = clamp minimum 0 (horizontal_offset st);
               offset' =
                 (case (case focused of None \<Rightarrow> None
                          | Some i \<Rightarrow> if i < length base then Some (base ! i) else None) of
                    None \<Rightarrow> offset
                  | Some f \<Rightarrow>
                      let left = rect_x f + offset;
                          right = rect_right f + offset;
                          view_width = sat_i64 (view_right - view_left)
                      in if view_width \<le> rect_width f then sat_i64 (view_left - rect_x f)
                         else if left < view_left then sat_i64 (offset + (view_left - left))
                         else if view_right < right then sat_i64 (offset - (right - view_right))
                         else offset)
           in st\<lparr>horizontal_offset := sat_i32 (clamp minimum 0 offset')\<rparr>)"

definition scrolling_arrange :: layout_fn where
  "scrolling_arrange opts st area items focused =
     (if items = [] then let st' = reset_horizontal st in (st', snapshot_empty area st')
      else let padding = min (opt_gap opts) (rect_width area div 2);
               inner_height = sat_u32 (rect_height area - sat_u32 (padding * 2));
               (base, x, max_h) =
                 scroll_columns opts area padding inner_height items (add_offset (rect_x area) padding) 0;
               content_width =
                 distance (rect_x area) (add_offset x (sat_u32 (padding - opt_gap opts)));
               st' = update_view_offset st area padding content_width base focused;
               off = horizontal_offset st'
           in (st',
               \<lparr>snapshot_viewport = area,
                placements =
                  map (\<lambda>g. layout_placement_new
                          (Rect (sat_i32 (rect_x g + off)) (rect_y g) (rect_width g) (rect_height g)) area)
                      base,
                content_bounds =
                  Rect (sat_i32 (rect_x area + off)) (rect_y area) content_width
                       (sat_u32 (max_h + sat_u32 (padding * 2))),
                snapshot_offset = off\<rparr>))"

section \<open>The columns\<close>

lemma length_scroll_columns:
  "length (fst (scroll_columns opts area padding ih items x mh)) = length items"
  by (induction items arbitrary: x mh) (simp_all add: Let_def case_prod_beta)

lemma scroll_columns_size:
  "i < length items \<Longrightarrow>
   rect_size (fst (scroll_columns opts area padding ih items x mh) ! i) = column_size opts area ih (items ! i)"
proof (induction items arbitrary: i x mh)
  case (Cons it items)
  then show ?case
    by (cases i) (auto simp: Let_def case_prod_beta rect_size_def intro!: size2.equality)
qed simp

lemma column_size_allows:
  "item_ok it \<Longrightarrow> allows (item_constraints it) (column_size opts area ih it)"
  by (simp add: column_size_def Let_def constrain_allows item_ok_def)

lemma column_size_ok: "item_ok it \<Longrightarrow> size_ok (column_size opts area ih it)"
  by (simp add: column_size_def Let_def constrain_size_ok item_ok_def)

lemma scroll_columns_typed:
  "list_all item_ok items \<Longrightarrow> g \<in> set (fst (scroll_columns opts area padding ih items x mh)) \<Longrightarrow>
   is_i32 (rect_y g) \<and> is_u32 (rect_width g) \<and> is_u32 (rect_height g)"
proof (induction items arbitrary: x mh)
  case (Cons it items)
  then show ?case
    using column_size_ok[of it opts area ih]
    by (auto simp: Let_def case_prod_beta size_ok_def center_axis_def add_offset_def)
qed simp

interpretation scrolling: tiling_layout scrolling_arrange
proof unfold_locales
  fix items :: "layout_item list" and opts st area focused i
  let ?snap = "snd (scrolling_arrange opts st area items focused)"
  show "length (placements ?snap) = length items"
    by (simp add: scrolling_arrange_def Let_def case_prod_beta length_scroll_columns)
  assume "list_all item_ok items" "i < length items"
  then show "allows (item_constraints (items ! i)) (rect_size (placement_geometry (placements ?snap ! i)))"
    using scroll_columns_size[of i items opts area] column_size_allows[of "items ! i" opts area]
    by (auto simp: scrolling_arrange_def Let_def case_prod_beta length_scroll_columns rect_size_def
        list_all_length)
next
  fix items :: "layout_item list" and p opts st area focused
  assume "list_all item_ok items" "p \<in> set (placements (snd (scrolling_arrange opts st area items focused)))"
  then show "rect_ok (placement_geometry p)"
    using scroll_columns_typed[of items _ opts area]
    by (auto simp: scrolling_arrange_def Let_def case_prod_beta rect_ok_def split: if_splits)
qed (auto simp: scrolling_arrange_def Let_def case_prod_beta split: if_splits)

text \<open>Nothing saturates: the area's right edge and the end of the last column are representable.\<close>

definition scroll_padding :: "layout_options \<Rightarrow> rect \<Rightarrow> u32" where
  "scroll_padding opts area = min (opt_gap opts) (rect_width area div 2)"

definition scroll_inner_height :: "layout_options \<Rightarrow> rect \<Rightarrow> u32" where
  "scroll_inner_height opts area =
     sat_u32 (rect_height area - sat_u32 (scroll_padding opts area * 2))"

definition columns_end :: "layout_options \<Rightarrow> rect \<Rightarrow> u32 \<Rightarrow> layout_item list \<Rightarrow> i32 \<Rightarrow> int" where
  "columns_end opts area ih items x =
     x + (\<Sum>it\<leftarrow>items. size_width (column_size opts area ih it) + opt_gap opts)"

definition scroll_fits :: "layout_options \<Rightarrow> rect \<Rightarrow> layout_item list \<Rightarrow> bool" where
  "scroll_fits opts area items \<longleftrightarrow>
     options_ok opts \<and> rect_ok area \<and> list_all item_ok items \<and>
     rect_width area \<le> I32_MAX \<and> rect_x area + rect_width area \<le> I32_MAX \<and>
     columns_end opts area (scroll_inner_height opts area) items
       (rect_x area + scroll_padding opts area) \<le> min I32_MAX (rect_x area + I32_MAX)"

lemma columns_end_Cons:
  "columns_end opts area ih (it # items) x =
   columns_end opts area ih items (x + size_width (column_size opts area ih it) + opt_gap opts)"
  by (simp add: columns_end_def)

lemma columns_end_ge:
  "options_ok opts \<Longrightarrow> list_all item_ok items \<Longrightarrow> x \<le> columns_end opts area ih items x"
  unfolding columns_end_def options_ok_def is_u32_def
  by (induction items) (use column_size_ok in \<open>fastforce simp: size_ok_def is_u32_def\<close>)+

lemma add_offset_exact:
  "0 \<le> n \<Longrightarrow> I32_MIN \<le> x \<Longrightarrow> x + n \<le> I32_MAX \<Longrightarrow> n \<le> I32_MAX \<Longrightarrow> add_offset x n = x + n"
  by (simp add: add_offset_def machine)

text \<open>The geometry of the columns when nothing saturates.\<close>

lemma scroll_columns_exact:
  assumes "scroll_columns opts area padding ih items x mh = (base, x', mh')"
    and "options_ok opts" "list_all item_ok items" "is_i32 x"
    and "columns_end opts area ih items x \<le> I32_MAX"
    and "columns_end opts area ih items x - x \<le> I32_MAX"
  shows "x' = columns_end opts area ih items x \<and>
    (\<forall>r \<in> set base. x \<le> rect_x r \<and> rect_right r = rect_x r + rect_width r \<and> 0 \<le> rect_width r \<and>
       rect_right r + opt_gap opts \<le> x') \<and>
    sorted_wrt (\<lambda>a b. rect_right a + opt_gap opts \<le> rect_x b) base \<and>
    (\<forall>i. Suc i < length base \<longrightarrow> rect_x (base ! Suc i) = rect_right (base ! i) + opt_gap opts) \<and>
    (base \<noteq> [] \<longrightarrow> rect_x (hd base) = x)"
  using assms
proof (induction items arbitrary: x mh base x' mh')
  case Nil
  then show ?case by (simp add: columns_end_def)
next
  case (Cons it items)
  define sz where "sz = column_size opts area ih it"
  define g where "g = opt_gap opts"
  define x1 where "x1 = add_offset (add_offset x (size_width sz)) g"
  obtain base1 mh1 where rec: "scroll_columns opts area padding ih items x1 (max mh (size_height sz))
      = (base1, x', mh1)"
    and base: "base = Rect x (center_axis (add_offset (rect_y area) padding) ih (size_height sz))
        (size_width sz) (size_height sz) # base1"
    using Cons.prems(1) by (auto simp: Let_def sz_def x1_def g_def split: prod.splits)
  have ok: "item_ok it" "list_all item_ok items" using Cons.prems(3) by simp_all
  have w: "0 \<le> size_width sz" "0 \<le> g"
    using column_size_ok[OF ok(1), of opts area ih] Cons.prems(2)
    by (simp_all add: sz_def g_def size_ok_def options_ok_def is_u32_def)
  have e: "x + size_width sz + g \<le> columns_end opts area ih (it # items) x"
    unfolding columns_end_Cons sz_def g_def by (rule columns_end_ge[OF Cons.prems(2) ok(2)])
  have x: "I32_MIN \<le> x" using Cons.prems(4) by (simp add: is_i32_def)
  have x1: "x1 = x + size_width sz + g"
    unfolding x1_def using e w x Cons.prems(5,6) by (simp add: add_offset_exact)
  have right: "rect_right (Rect x y (size_width sz) h) = x + size_width sz" for y h
    using e w x Cons.prems(5,6) by (simp add: rect_right_def machine)
  have end1: "columns_end opts area ih items x1 = columns_end opts area ih (it # items) x"
    by (simp add: x1 columns_end_Cons sz_def g_def)
  have i1: "is_i32 x1" using x1 e w x Cons.prems(5) by (simp add: is_i32_def)
  have fits1: "columns_end opts area ih items x1 \<le> I32_MAX"
    "columns_end opts area ih items x1 - x1 \<le> I32_MAX"
    using Cons.prems(5,6) end1 x1 w by simp_all
  note IH = Cons.IH[OF rec Cons.prems(2) ok(2) i1 fits1]
  have IH': "x' = columns_end opts area ih items x1"
    "\<forall>r \<in> set base1. x1 \<le> rect_x r \<and> rect_right r = rect_x r + rect_width r \<and> 0 \<le> rect_width r \<and>
       rect_right r + opt_gap opts \<le> x'"
    "sorted_wrt (\<lambda>a b. rect_right a + opt_gap opts \<le> rect_x b) base1"
    "\<forall>i. Suc i < length base1 \<longrightarrow> rect_x (base1 ! Suc i) = rect_right (base1 ! i) + opt_gap opts"
    "base1 \<noteq> [] \<longrightarrow> rect_x (hd base1) = x1"
    using IH by blast+
  have gaps: "rect_x (base ! Suc i) = rect_right (base ! i) + opt_gap opts" if "Suc i < length base" for i
  proof (cases i)
    case 0
    then have "base1 \<noteq> []" using that base by auto
    then show ?thesis using IH'(5) 0 x1 by (simp add: base right g_def hd_conv_nth)
  next
    case (Suc k)
    then show ?thesis using IH'(4) that by (simp add: base)
  qed
  then show ?case
    using IH' e w x1 end1 by (auto simp: base right g_def)
qed

section \<open>The view offset\<close>

text \<open>\<open>update_view_offset\<close> on integers: the content is wider than the area by
  \<open>content_width - rect_width area\<close>, and the offset stays within that range.\<close>

definition reveal :: "int \<Rightarrow> int \<Rightarrow> rect option \<Rightarrow> int \<Rightarrow> int" where
  "reveal view_left view_right focused offset =
     (case focused of None \<Rightarrow> offset
      | Some f \<Rightarrow>
          if view_right - view_left \<le> rect_width f then view_left - rect_x f
          else if rect_x f + offset < view_left then view_left - rect_x f
          else if view_right < rect_right f + offset then view_right - rect_right f
          else offset)"

definition focused_rect :: "rect list \<Rightarrow> nat option \<Rightarrow> rect option" where
  "focused_rect base focused =
     (case focused of None \<Rightarrow> None | Some i \<Rightarrow> if i < length base then Some (base ! i) else None)"

lemma update_view_offset_exact:
  assumes "rect_ok area" "rect_width area \<le> I32_MAX" "rect_x area + rect_width area \<le> I32_MAX"
    and "0 \<le> padding" "padding \<le> rect_width area div 2"
    and "rect_width area < content_width" "content_width \<le> I32_MAX"
    and "\<forall>f \<in> set base. is_i32 (rect_x f)" "is_i32 (horizontal_offset st)"
  shows "update_view_offset st area padding content_width base focused =
    st\<lparr>horizontal_offset := clamp (rect_width area - content_width) 0
      (reveal (rect_x area + padding) (rect_right area - padding) (focused_rect base focused)
        (clamp (rect_width area - content_width) 0 (horizontal_offset st)))\<rparr>"
proof -
  have pad: "2 * padding \<le> rect_width area" using assms(5) by linarith
  have right: "rect_right area = rect_x area + rect_width area"
    using assms(1,2,3) by (simp add: rect_right_exact)
  have vl: "add_offset (rect_x area) padding = rect_x area + padding"
    using assms(1-4) pad by (intro add_offset_exact) (auto simp: rect_ok_def is_i32_def)
  have vr: "sat_i32 (rect_right area - i32_from_u32 padding) = rect_right area - padding"
    using assms(1-4) pad by (simp add: right rect_ok_def machine)
  have mn: "min (sat_i64 (rect_right area - padding - (rect_x area + content_width - padding))) 0
      = rect_width area - content_width"
    using assms(1,2,6,7) by (simp add: right rect_ok_def machine)
  define o1 where "o1 = clamp (rect_width area - content_width) 0 (horizontal_offset st)"
  have o1: "rect_width area - content_width \<le> o1" "o1 \<le> 0"
    using clamp_bounds[of "rect_width area - content_width" 0] assms(6) by (simp_all add: o1_def)
  have rng: "- 4294967295 \<le> rect_width area - content_width"
    using assms(1,7) by (simp add: rect_ok_def machine)
  have i64: "is_i64 z \<Longrightarrow> sat_i64 z = z" for z by (simp add: machine)
  have reveal_eq:
    "(case focused_rect base focused of None \<Rightarrow> o1
      | Some f \<Rightarrow>
          let left = rect_x f + o1; right = rect_right f + o1;
              view_width = sat_i64 (rect_right area - padding - (rect_x area + padding))
          in if view_width \<le> rect_width f then sat_i64 (rect_x area + padding - rect_x f)
             else if left < rect_x area + padding
             then sat_i64 (o1 + (rect_x area + padding - left))
             else if rect_right area - padding < right
             then sat_i64 (o1 - (right - (rect_right area - padding))) else o1) =
     reveal (rect_x area + padding) (rect_right area - padding) (focused_rect base focused) o1"
  proof (cases "focused_rect base focused")
    case (Some f)
    then have f: "f \<in> set base" by (auto simp: focused_rect_def split: option.splits if_splits)
    have fx: "I32_MIN \<le> rect_x f" "rect_x f \<le> I32_MAX" using assms(8) f by (auto simp: is_i32_def)
    have fr: "I32_MIN \<le> rect_right f" "rect_right f \<le> I32_MAX"
      using rect_edges_i32(1)[of f] by (simp_all add: is_i32_def)
    have a: "I32_MIN \<le> rect_x area" using assms(1) by (simp add: rect_ok_def is_i32_def)
    show ?thesis
      using Some fx fr a assms(1-4) pad o1 rng
      by (simp add: reveal_def Let_def i64 is_i64_def right)
  qed (simp add: reveal_def)
  have lo: "rect_width area - content_width \<le> 0" using assms(6) by simp
  have "is_i32 (clamp (rect_width area - content_width) 0 z)" for z
    using clamp_bounds[OF lo, of z] assms(1,7) by (simp add: is_i32_def rect_ok_def is_u32_def)
  then show ?thesis
    unfolding update_view_offset_def Let_def vl vr mn focused_rect_def[symmetric] o1_def[symmetric]
    using assms(6) reveal_eq[unfolded Let_def] by simp
qed

text \<open>The focused column is revealed when the columns lie between the view's left edge and the end of
  the content.\<close>

lemma reveal_focused:
  assumes "f = Some r" "vl \<le> rect_x r" "rect_right r = rect_x r + rect_width r" "lo \<le> 0"
    and "rect_right r + lo \<le> vr"
  shows "rect_width r < vr - vl \<Longrightarrow> vl \<le> rect_x r + clamp lo 0 (reveal vl vr f (clamp lo 0 z)) \<and>
           rect_right r + clamp lo 0 (reveal vl vr f (clamp lo 0 z)) \<le> vr"
    and "vr - vl \<le> rect_width r \<Longrightarrow> rect_x r + clamp lo 0 (reveal vl vr f (clamp lo 0 z)) = vl"
proof -
  assume "rect_width r < vr - vl"
  then show "vl \<le> rect_x r + clamp lo 0 (reveal vl vr f (clamp lo 0 z)) \<and>
           rect_right r + clamp lo 0 (reveal vl vr f (clamp lo 0 z)) \<le> vr"
    using assms by (auto simp: reveal_def clamp_def)
next
  assume "vr - vl \<le> rect_width r"
  then show "rect_x r + clamp lo 0 (reveal vl vr f (clamp lo 0 z)) = vl"
    using assms by (auto simp: reveal_def clamp_def)
qed

lemma reveal_idem:
  assumes "lo \<le> 0"
    and "\<forall>r. f = Some r \<longrightarrow> vl \<le> rect_x r \<and> rect_right r = rect_x r + rect_width r \<and> rect_right r + lo \<le> vr"
  shows "clamp lo 0 (reveal vl vr f (clamp lo 0 (clamp lo 0 (reveal vl vr f (clamp lo 0 z))))) =
         clamp lo 0 (reveal vl vr f (clamp lo 0 z))"
proof (cases f)
  case None
  then show ?thesis by (simp add: reveal_def clamp_def)
next
  case (Some r)
  with assms show ?thesis by (auto simp: reveal_def clamp_def)
qed

section \<open>Properties\<close>

definition scroll_base :: "layout_options \<Rightarrow> rect \<Rightarrow> layout_item list \<Rightarrow> rect list" where
  "scroll_base opts area items =
     fst (scroll_columns opts area (scroll_padding opts area) (scroll_inner_height opts area) items
       (add_offset (rect_x area) (scroll_padding opts area)) 0)"

definition scroll_content :: "layout_options \<Rightarrow> rect \<Rightarrow> layout_item list \<Rightarrow> int" where
  "scroll_content opts area items =
     columns_end opts area (scroll_inner_height opts area) items
       (rect_x area + scroll_padding opts area) - rect_x area"

lemma scroll_padding_bounds:
  assumes "options_ok opts" "rect_ok area"
  shows "0 \<le> scroll_padding opts area" "scroll_padding opts area \<le> rect_width area div 2"
    "scroll_padding opts area \<le> opt_gap opts"
  using assms by (auto simp: scroll_padding_def options_ok_def rect_ok_def is_u32_def)

lemma scroll_start:
  assumes "scroll_fits opts area items"
  shows "add_offset (rect_x area) (scroll_padding opts area) = rect_x area + scroll_padding opts area"
    "is_i32 (rect_x area + scroll_padding opts area)"
  using assms scroll_padding_bounds[of opts area]
  by (auto simp: scroll_fits_def add_offset_def rect_ok_def machine)

lemma scroll_columns_base:
  assumes "scroll_fits opts area items"
  shows "\<exists>mh. scroll_columns opts area (scroll_padding opts area) (scroll_inner_height opts area) items
      (add_offset (rect_x area) (scroll_padding opts area)) 0 =
    (scroll_base opts area items, rect_x area + scroll_content opts area items, mh)"
    and "\<forall>r \<in> set (scroll_base opts area items). rect_x area + scroll_padding opts area \<le> rect_x r \<and>
       rect_right r = rect_x r + rect_width r \<and> 0 \<le> rect_width r \<and>
       rect_right r + opt_gap opts \<le> rect_x area + scroll_content opts area items"
    and "sorted_wrt (\<lambda>a b. rect_right a + opt_gap opts \<le> rect_x b) (scroll_base opts area items)"
    and "\<forall>i. Suc i < length (scroll_base opts area items) \<longrightarrow>
       rect_x (scroll_base opts area items ! Suc i) =
       rect_right (scroll_base opts area items ! i) + opt_gap opts"
proof -
  obtain base x' mh where eq: "scroll_columns opts area (scroll_padding opts area)
      (scroll_inner_height opts area) items (rect_x area + scroll_padding opts area) 0 = (base, x', mh)"
    by (metis prod_cases3)
  have f: "options_ok opts" "list_all item_ok items"
    "columns_end opts area (scroll_inner_height opts area) items (rect_x area + scroll_padding opts area)
       \<le> I32_MAX"
    "columns_end opts area (scroll_inner_height opts area) items (rect_x area + scroll_padding opts area)
       - (rect_x area + scroll_padding opts area) \<le> I32_MAX"
    using assms scroll_padding_bounds(1)[of opts area] by (auto simp: scroll_fits_def)
  note ex = scroll_columns_exact[OF eq f(1,2) scroll_start(2)[OF assms] f(3,4)]
  have base: "base = scroll_base opts area items"
    using eq by (simp add: scroll_base_def scroll_start(1)[OF assms])
  have x': "x' = rect_x area + scroll_content opts area items"
    using ex by (simp add: scroll_content_def)
  show "\<exists>mh. scroll_columns opts area (scroll_padding opts area) (scroll_inner_height opts area) items
      (add_offset (rect_x area) (scroll_padding opts area)) 0 =
    (scroll_base opts area items, rect_x area + scroll_content opts area items, mh)"
    using eq base x' by (auto simp: scroll_start(1)[OF assms])
  show "\<forall>r \<in> set (scroll_base opts area items). rect_x area + scroll_padding opts area \<le> rect_x r \<and>
       rect_right r = rect_x r + rect_width r \<and> 0 \<le> rect_width r \<and>
       rect_right r + opt_gap opts \<le> rect_x area + scroll_content opts area items"
    "sorted_wrt (\<lambda>a b. rect_right a + opt_gap opts \<le> rect_x b) (scroll_base opts area items)"
    "\<forall>i. Suc i < length (scroll_base opts area items) \<longrightarrow>
       rect_x (scroll_base opts area items ! Suc i) =
       rect_right (scroll_base opts area items ! i) + opt_gap opts"
    using ex base x' by auto
qed

lemma scroll_content_bounds:
  assumes "scroll_fits opts area items"
  shows "0 \<le> scroll_content opts area items" "scroll_content opts area items \<le> I32_MAX"
    "rect_x area + scroll_content opts area items \<le> I32_MAX"
  using assms scroll_padding_bounds(1)[of opts area]
    columns_end_ge[of opts items "rect_x area + scroll_padding opts area" area "scroll_inner_height opts area"]
  by (auto simp: scroll_fits_def scroll_content_def)

lemma distance_content:
  assumes "scroll_fits opts area items"
  shows "distance (rect_x area)
      (add_offset (rect_x area + scroll_content opts area items)
        (sat_u32 (scroll_padding opts area - opt_gap opts))) = scroll_content opts area items"
proof -
  have "sat_u32 (scroll_padding opts area - opt_gap opts) = 0"
    using assms scroll_padding_bounds(3)[of opts area] by (simp add: scroll_fits_def machine)
  then show ?thesis
    using scroll_content_bounds[OF assms] assms
    by (simp add: distance_def add_offset_def scroll_fits_def rect_ok_def machine)
qed

text \<open>The most negative offset: the content does not scroll past its end.\<close>

definition scroll_floor :: "layout_options \<Rightarrow> rect \<Rightarrow> layout_item list \<Rightarrow> int" where
  "scroll_floor opts area items = min 0 (rect_width area - scroll_content opts area items)"

lemma scroll_floor_le [simp]: "scroll_floor opts area items \<le> 0"
  by (simp add: scroll_floor_def)

text \<open>The offset the layout stores and uses.\<close>

definition scroll_offset :: "layout_options \<Rightarrow> rect \<Rightarrow> layout_item list \<Rightarrow> nat option \<Rightarrow> int \<Rightarrow> int" where
  "scroll_offset opts area items focused z =
     (let lo = scroll_floor opts area items
      in if lo = 0 then 0
         else clamp lo 0 (reveal (rect_x area + scroll_padding opts area)
                (rect_right area - scroll_padding opts area)
                (focused_rect (scroll_base opts area items) focused) (clamp lo 0 z)))"

lemma scrolling_arrange_eq:
  assumes fits: "scroll_fits opts area items" and ne: "items \<noteq> []" and st: "is_i32 (horizontal_offset st)"
  shows "fst (scrolling_arrange opts st area items focused) =
      st\<lparr>horizontal_offset := scroll_offset opts area items focused (horizontal_offset st)\<rparr>"
    and "map placement_geometry (placements (snd (scrolling_arrange opts st area items focused))) =
      map (\<lambda>g. Rect (sat_i32 (rect_x g + scroll_offset opts area items focused (horizontal_offset st)))
              (rect_y g) (rect_width g) (rect_height g)) (scroll_base opts area items)"
proof -
  let ?cw = "scroll_content opts area items" and ?pad = "scroll_padding opts area"
  obtain mh where cols: "scroll_columns opts area ?pad (scroll_inner_height opts area) items
      (add_offset (rect_x area) ?pad) 0 = (scroll_base opts area items, rect_x area + ?cw, mh)"
    using scroll_columns_base(1)[OF fits] by blast
  define st' where "st' = update_view_offset st area ?pad ?cw (scroll_base opts area items) focused"
  have arr: "fst (scrolling_arrange opts st area items focused) = st'"
    "map placement_geometry (placements (snd (scrolling_arrange opts st area items focused))) =
      map (\<lambda>g. Rect (sat_i32 (rect_x g + horizontal_offset st'))
              (rect_y g) (rect_width g) (rect_height g)) (scroll_base opts area items)"
    unfolding scrolling_arrange_def Let_def scroll_padding_def[symmetric]
      scroll_inner_height_def[symmetric] cols st'_def
    using ne by (simp_all add: distance_content[OF fits])
  have area: "rect_ok area" "rect_width area \<le> I32_MAX" "rect_x area + rect_width area \<le> I32_MAX"
    and opts: "options_ok opts"
    using fits by (simp_all add: scroll_fits_def)
  note pad = scroll_padding_bounds[OF opts area(1)]
  have bx: "\<forall>f \<in> set (scroll_base opts area items). is_i32 (rect_x f)"
  proof
    fix f assume f: "f \<in> set (scroll_base opts area items)"
    have "rect_x area + ?pad \<le> rect_x f" "rect_x f \<le> rect_right f"
      using scroll_columns_base(2)[OF fits] f by force+
    then show "is_i32 (rect_x f)"
      using rect_edges_i32(1)[of f] scroll_start(2)[OF fits] by (simp add: is_i32_def)
  qed
  have "st' = st\<lparr>horizontal_offset := scroll_offset opts area items focused (horizontal_offset st)\<rparr>"
  proof (cases "?cw \<le> rect_width area")
    case True
    then show ?thesis
      by (simp add: st'_def update_view_offset_def reset_horizontal_def scroll_offset_def scroll_floor_def)
  next
    case False
    then show ?thesis
      using update_view_offset_exact[OF area pad(1,2) _ scroll_content_bounds(2)[OF fits] bx st]
      by (simp add: st'_def scroll_offset_def Let_def scroll_floor_def)
  qed
  with arr show "fst (scrolling_arrange opts st area items focused) =
      st\<lparr>horizontal_offset := scroll_offset opts area items focused (horizontal_offset st)\<rparr>"
    "map placement_geometry (placements (snd (scrolling_arrange opts st area items focused))) =
      map (\<lambda>g. Rect (sat_i32 (rect_x g + scroll_offset opts area items focused (horizontal_offset st)))
              (rect_y g) (rect_width g) (rect_height g)) (scroll_base opts area items)"
    by simp_all
qed

lemma scroll_base_focused:
  assumes "scroll_fits opts area items" "r \<in> set (scroll_base opts area items)"
  shows "rect_x area + scroll_padding opts area \<le> rect_x r" "rect_right r = rect_x r + rect_width r"
    "rect_right r + scroll_floor opts area items
       \<le> rect_right area - scroll_padding opts area"
proof -
  have area: "rect_right area = rect_x area + rect_width area"
    using assms(1) by (simp add: scroll_fits_def rect_right_exact)
  have "scroll_padding opts area \<le> opt_gap opts"
    using assms(1) scroll_padding_bounds(3) by (simp add: scroll_fits_def)
  moreover have "scroll_floor opts area items \<le> rect_width area - scroll_content opts area items"
    by (simp add: scroll_floor_def)
  ultimately
  show "rect_x area + scroll_padding opts area \<le> rect_x r" "rect_right r = rect_x r + rect_width r"
    "rect_right r + scroll_floor opts area items
       \<le> rect_right area - scroll_padding opts area"
    using area scroll_columns_base(2)[OF assms(1)] assms(2) by fastforce+
qed

lemma scroll_offset_range:
  "scroll_floor opts area items \<le> scroll_offset opts area items focused z"
  "scroll_offset opts area items focused z \<le> 0"
  using clamp_bounds[OF scroll_floor_le] by (simp_all add: scroll_offset_def Let_def)

lemma scroll_offset_reveals:
  assumes fits: "scroll_fits opts area items" and i: "i < length items"
  defines "r \<equiv> scroll_base opts area items ! i"
    and "vl \<equiv> rect_x area + scroll_padding opts area"
    and "vr \<equiv> rect_right area - scroll_padding opts area"
  shows "rect_width r < vr - vl \<Longrightarrow> vl \<le> rect_x r + scroll_offset opts area items (Some i) z \<and>
           rect_right r + scroll_offset opts area items (Some i) z \<le> vr"
    and "vr - vl \<le> rect_width r \<Longrightarrow> rect_x r + scroll_offset opts area items (Some i) z = vl"
proof -
  have i': "i < length (scroll_base opts area items)"
    using i by (simp add: scroll_base_def length_scroll_columns)
  then have r: "r \<in> set (scroll_base opts area items)" by (simp add: r_def)
  have f: "focused_rect (scroll_base opts area items) (Some i) = Some r"
    using i' by (simp add: focused_rect_def r_def)
  note b = scroll_base_focused[OF fits r, folded vl_def vr_def]
  show "rect_width r < vr - vl \<Longrightarrow> vl \<le> rect_x r + scroll_offset opts area items (Some i) z \<and>
           rect_right r + scroll_offset opts area items (Some i) z \<le> vr"
    using b reveal_focused(1)[OF refl b(1,2) _ b(3)]
    by (auto simp: scroll_offset_def Let_def f vl_def vr_def)
  show "vr - vl \<le> rect_width r \<Longrightarrow> rect_x r + scroll_offset opts area items (Some i) z = vl"
    using b reveal_focused(2)[OF refl b(1,2) _ b(3)]
    by (auto simp: scroll_offset_def Let_def f vl_def vr_def)
qed

lemma scroll_offset_idem:
  assumes "scroll_fits opts area items"
  shows "scroll_offset opts area items focused (scroll_offset opts area items focused z) =
         scroll_offset opts area items focused z"
proof -
  have "\<forall>r. focused_rect (scroll_base opts area items) focused = Some r \<longrightarrow>
      rect_x area + scroll_padding opts area \<le> rect_x r \<and> rect_right r = rect_x r + rect_width r \<and>
      rect_right r + scroll_floor opts area items
        \<le> rect_right area - scroll_padding opts area"
    using scroll_base_focused[OF assms]
    by (auto simp: focused_rect_def split: option.splits if_splits)
  from reveal_idem[OF scroll_floor_le this] show ?thesis
    by (simp add: scroll_offset_def Let_def)
qed

lemma scrolling_placement_nth:
  assumes "scroll_fits opts area items" "i < length items" "is_i32 (horizontal_offset st)"
  shows "placement_geometry (placements (snd (scrolling_arrange opts st area items focused)) ! i) =
    (let g = scroll_base opts area items ! i
     in Rect (sat_i32 (rect_x g + scroll_offset opts area items focused (horizontal_offset st)))
          (rect_y g) (rect_width g) (rect_height g))"
proof -
  have ne: "items \<noteq> []" using assms(2) by auto
  have len: "length (scroll_base opts area items) = length items"
    by (simp add: scroll_base_def length_scroll_columns)
  have "placement_geometry (placements (snd (scrolling_arrange opts st area items focused)) ! i) =
      map placement_geometry (placements (snd (scrolling_arrange opts st area items focused))) ! i"
    using arg_cong[OF scrolling_arrange_eq(2)[OF assms(1) ne assms(3), of focused], of length]
      assms(2) len by simp
  also have "\<dots> = (let g = scroll_base opts area items ! i
     in Rect (sat_i32 (rect_x g + scroll_offset opts area items focused (horizontal_offset st)))
          (rect_y g) (rect_width g) (rect_height g))"
    using assms(2) len by (simp add: scrolling_arrange_eq(2)[OF assms(1) ne assms(3)] Let_def)
  finally show ?thesis .
qed

text \<open>C37. Arranging a scrolling workspace reveals the focused column: after \<open>arrange\<close> it lies
  inside the padded view, or, when it is at least as wide as the view, starts at its left edge. The
  hypothesis says that no coordinate saturates.\<close>

theorem scrolling_focus_revealed:
  assumes "scroll_fits opts area items" "i < length items" "is_i32 (horizontal_offset st)"
  shows "let g = placement_geometry (placements (snd (scrolling_arrange opts st area items (Some i))) ! i);
             view_left = rect_x area + scroll_padding opts area;
             view_right = rect_right area - scroll_padding opts area
         in if rect_width g < view_right - view_left
            then view_left \<le> rect_x g \<and> rect_x g + rect_width g \<le> view_right
            else rect_x g = view_left"
proof -
  define b where "b = scroll_base opts area items ! i"
  define off where "off = scroll_offset opts area items (Some i) (horizontal_offset st)"
  note rev = scroll_offset_reveals[OF assms(1,2), of "horizontal_offset st", folded b_def off_def]
  have b: "b \<in> set (scroll_base opts area items)"
    using assms(2) by (simp add: b_def scroll_base_def length_scroll_columns)
  note bb = scroll_base_focused[OF assms(1) b]
  have "rect_x area + scroll_padding opts area \<le> rect_x b + off" using rev by linarith
  moreover have "off \<le> 0" by (simp add: off_def scroll_offset_range)
  ultimately have "is_i32 (rect_x b + off)"
    using scroll_start(2)[OF assms(1)] bb scroll_columns_base(2)[OF assms(1)] b rect_edges_i32(1)[of b]
    by (force simp: is_i32_def)
  then show ?thesis
    using rev bb
    by (auto simp: scrolling_placement_nth[OF assms] Let_def b_def[symmetric] off_def[symmetric])
qed

definition narrow_view :: rect where "narrow_view = Rect 0 0 100 80"

lemma narrow_view_fits: "scroll_fits default_options narrow_view (replicate 3 default_item)"
proof -
  have g: "gcd_loop 1 2 = 1" "gcd_loop 55 100 = 5" by (simp_all add: gcd_loop.simps)
  show ?thesis
    by (simp add: scroll_fits_def narrow_view_def options_ok_def default_options_def rect_ok_def
        numeral_3_eq_3 item_ok_def default_item_def constraints_ok_def default_constraints_def
        size_ok_def option_u32_def columns_end_def column_size_def constrain_def constrain_axis_def
        proportion_def greatest_common_divisor_def g scroll_padding_def Let_def machine)
qed

theorem scrolling_focus_revealed_witness:
  "let g = placement_geometry (placements (snd (scrolling_arrange default_options default_state narrow_view
             (replicate 3 default_item) (Some 2))) ! 2);
       view_left = rect_x narrow_view + scroll_padding default_options narrow_view;
       view_right = rect_right narrow_view - scroll_padding default_options narrow_view
   in if rect_width g < view_right - view_left
      then view_left \<le> rect_x g \<and> rect_x g + rect_width g \<le> view_right
      else rect_x g = view_left"
  by (rule scrolling_focus_revealed[OF narrow_view_fits]) (simp_all add: default_state_def machine)

text \<open>C38. Arranging is stable: arranging a scrolling workspace again, with the state the first call
  left and the same focus, changes neither the state nor any placement.\<close>

theorem scrolling_arrange_stable:
  assumes "scroll_fits opts area items" "is_i32 (horizontal_offset st)"
    and "scrolling_arrange opts st area items focused = (st', snap)"
  shows "scrolling_arrange opts st' area items focused = (st', snap)"
proof (cases "items = []")
  case True
  with assms(3) show ?thesis by (auto simp: scrolling_arrange_def reset_horizontal_def Let_def)
next
  case False
  have st': "st' = st\<lparr>horizontal_offset := scroll_offset opts area items focused (horizontal_offset st)\<rparr>"
    using scrolling_arrange_eq(1)[OF assms(1) False assms(2), of focused] assms(3) by simp
  have "is_i32 (horizontal_offset st')"
    using scroll_offset_range[of opts area items focused "horizontal_offset st"]
      scroll_floor_def[of opts area items] scroll_content_bounds[OF assms(1)] assms(1)
    by (auto simp: st' is_i32_def scroll_fits_def rect_ok_def is_u32_def)
  then have "fst (scrolling_arrange opts st' area items focused) = st'"
    using scrolling_arrange_eq(1)[OF assms(1) False, of st' focused]
    by (simp add: st' scroll_offset_idem[OF assms(1)])
  then show ?thesis
    using assms(3) False by (auto simp: scrolling_arrange_def Let_def split: prod.splits)
qed

theorem scrolling_arrange_stable_witness:
  "scrolling_arrange default_options
     (fst (scrolling_arrange default_options default_state narrow_view (replicate 3 default_item) (Some 2)))
     narrow_view (replicate 3 default_item) (Some 2) =
   scrolling_arrange default_options default_state narrow_view (replicate 3 default_item) (Some 2)"
proof -
  have "is_i32 (horizontal_offset default_state)" by (simp add: default_state_def machine)
  from scrolling_arrange_stable[OF narrow_view_fits this prod.collapse[symmetric]] show ?thesis by simp
qed

text \<open>Columns of a scrolling workspace are laid out left to right, separated by exactly the
  configured gap, and never overlap, as long as no coordinate saturates.\<close>

lemma scrolling_columns_separated:
  assumes "scroll_fits opts area items" "is_i32 (horizontal_offset st)"
    and "scroll_content opts area items \<le> rect_x area + rect_width area - I32_MIN"
    and "Suc i < length items"
  shows "let ps = placements (snd (scrolling_arrange opts st area items focused))
         in rect_x (placement_geometry (ps ! Suc i)) =
              rect_x (placement_geometry (ps ! i)) + rect_width (placement_geometry (ps ! i)) + opt_gap opts"
proof -
  define off where "off = scroll_offset opts area items focused (horizontal_offset st)"
  have len: "length (scroll_base opts area items) = length items"
    by (simp add: scroll_base_def length_scroll_columns)
  have exact: "sat_i32 (rect_x r + off) = rect_x r + off" if "r \<in> set (scroll_base opts area items)" for r
  proof (rule sat_i32_exact)
    have "rect_x area + scroll_padding opts area \<le> rect_x r" "rect_x r \<le> rect_right r"
      using scroll_columns_base(2)[OF assms(1)] that by force+
    moreover have "scroll_floor opts area items \<le> off" "off \<le> 0"
      by (simp_all add: off_def scroll_offset_range)
    moreover have "I32_MIN \<le> rect_x area" "0 \<le> scroll_padding opts area"
      using assms(1) scroll_padding_bounds(1)[of opts area] by (simp_all add: scroll_fits_def rect_ok_def is_i32_def)
    ultimately show "is_i32 (rect_x r + off)"
      using assms(3) rect_edges_i32(1)[of r] by (simp add: is_i32_def scroll_floor_def)
  qed
  have step: "rect_x (scroll_base opts area items ! Suc i) =
      rect_x (scroll_base opts area items ! i) + rect_width (scroll_base opts area items ! i) + opt_gap opts"
    using scroll_columns_base(2,4)[OF assms(1)] assms(4) len by simp
  have "sat_i32 (rect_x (scroll_base opts area items ! Suc i) + off) =
      rect_x (scroll_base opts area items ! Suc i) + off"
    "sat_i32 (rect_x (scroll_base opts area items ! i) + off) = rect_x (scroll_base opts area items ! i) + off"
    using assms(4) len by (simp_all add: exact)
  then show ?thesis
    using step assms(4)
    by (simp only: Let_def scrolling_placement_nth[OF assms(1) _ assms(2)] Suc_lessD Rect_simps
        off_def[symmetric])
qed

end
