(* ===== verification/Layout_Policy.thy ===== *)
theory Layout_Policy
  imports Layout_Scrolling
begin

text \<open>
  The fixed layouts and the layout engine, \<^verbatim>\<open>apps/tensor-wm/src/layout/policy.rs\<close>: the compact
  grid, the master column with a stack beside it, and the engine that dispatches on the layout
  kind of \<^verbatim>\<open>crates/tensor-ipc/src/land/values.rs\<close>.

  All three layouts satisfy the contract \<open>tiling_layout\<close>, and so does the engine. The grid
  and the master-stack layout never let two windows overlap and keep every window inside the
  area, provided the gaps fit and no window asks for more than its cell.
\<close>

section \<open>Layout kinds\<close>

datatype layout_kind = Scrolling1D | Spatial2D | MasterStack

fun layout_kind_name :: "layout_kind \<Rightarrow> string" where
  "layout_kind_name Scrolling1D = ''scrolling-1d''"
| "layout_kind_name Spatial2D = ''spatial-2d''"
| "layout_kind_name MasterStack = ''master-stack''"

datatype parse_layout_error = ParseLayoutError string

definition layout_kind_from_str :: "string \<Rightarrow> parse_layout_error + layout_kind" where
  "layout_kind_from_str s =
     (if s = ''scrolling-1d'' then Inr Scrolling1D
      else if s = ''spatial-2d'' then Inr Spatial2D
      else if s = ''master-stack'' then Inr MasterStack
      else Inl (ParseLayoutError s))"

section \<open>Model\<close>

text \<open>The loop of \<open>integer_ceil_sqrt\<close>; the product of two \<open>usize\<close> values that are below the
  square root of a \<open>usize\<close> does not saturate.\<close>

function ceil_sqrt_loop :: "nat \<Rightarrow> nat \<Rightarrow> nat" where
  "ceil_sqrt_loop v root = (if root * root < v then ceil_sqrt_loop v (Suc root) else root)"
  by pat_completeness auto
termination
proof (relation "measure (\<lambda>(v, root). v - root)")
  fix v root :: nat
  assume "root * root < v"
  moreover have "root \<le> root * root" by (cases root) simp_all
  ultimately have "root < v" by (rule le_less_trans[rotated])
  then show "((v, Suc root), (v, root)) \<in> measure (\<lambda>(v, root). v - root)" by simp
qed simp

declare ceil_sqrt_loop.simps [simp del]

definition integer_ceil_sqrt :: "nat \<Rightarrow> nat" where
  "integer_ceil_sqrt v = ceil_sqrt_loop v 1"

text \<open>\<open>usize::div_ceil\<close>.\<close>

definition nat_div_ceil :: "nat \<Rightarrow> nat \<Rightarrow> nat" where
  "nat_div_ceil a b = (a + b - 1) div b"

definition split_tracks :: "u32 \<Rightarrow> nat \<Rightarrow> u32 \<Rightarrow> u32 list" where
  "split_tracks len cnt g =
     (let gaps = sat_u32 (min (int cnt + 1) U32_MAX * g)
      in split_evenly (sat_u32 (len - gaps)) cnt)"

definition inset :: "rect \<Rightarrow> u32 \<Rightarrow> rect" where
  "inset area g =
     Rect (add_offset (rect_x area) g) (add_offset (rect_y area) g)
          (sat_u32 (rect_width area - sat_u32 (g * 2)))
          (sat_u32 (rect_height area - sat_u32 (g * 2)))"

definition place_in_cell :: "rect \<Rightarrow> rect \<Rightarrow> size2 \<Rightarrow> layout_placement" where
  "place_in_cell cell viewport sz =
     (let x = add_offset (rect_x cell) (sat_u32 (rect_width cell - size_width sz) div 2);
          y = add_offset (rect_y cell) (sat_u32 (rect_height cell - size_height sz) div 2)
      in layout_placement_new (Rect x y (size_width sz) (size_height sz)) viewport)"

definition fixed_snapshot :: "rect \<Rightarrow> layout_state \<Rightarrow> layout_placement list \<Rightarrow> layout_snapshot" where
  "fixed_snapshot area st ps =
     \<lparr>snapshot_viewport = area, placements = ps, content_bounds = area,
      snapshot_offset = horizontal_offset st\<rparr>"

text \<open>The placement of an item in its cell, shared by both fixed layouts.\<close>

definition place_item :: "rect \<Rightarrow> rect \<Rightarrow> layout_item \<Rightarrow> layout_placement" where
  "place_item area cell it = place_in_cell cell area (constrain (item_constraints it) (rect_size cell))"

text \<open>The inner loop of the grid, over the widths of one row. It stops as soon as every item is
  placed, and returns the items that are left.\<close>

fun grid_row ::
  "u32 \<Rightarrow> rect \<Rightarrow> i32 \<Rightarrow> u32 \<Rightarrow> u32 list \<Rightarrow> i32 \<Rightarrow> layout_item list \<Rightarrow>
   layout_placement list \<times> layout_item list"
where
  "grid_row g area y h [] x items = ([], items)"
| "grid_row g area y h (w # ws) x [] = ([], [])"
| "grid_row g area y h (w # ws) x (it # items) =
     (let (ps, rest) = grid_row g area y h ws (add_offset (add_offset x w) g) items
      in (place_item area (Rect x y w h) it # ps, rest))"

fun grid_rows ::
  "u32 \<Rightarrow> rect \<Rightarrow> u32 list \<Rightarrow> u32 list \<Rightarrow> i32 \<Rightarrow> layout_item list \<Rightarrow> layout_placement list"
where
  "grid_rows g area ws [] y items = []"
| "grid_rows g area ws (h # hs) y items =
     (if items = [] then []
      else let (ps, rest) = grid_row g area y h ws (add_offset (rect_x area) g) items
           in ps @ grid_rows g area ws hs (add_offset (add_offset y h) g) rest)"

definition arrange_grid ::
  "layout_options \<Rightarrow> layout_state \<Rightarrow> rect \<Rightarrow> layout_item list \<Rightarrow> layout_snapshot"
where
  "arrange_grid opts st area items =
     (if items = [] then snapshot_empty area st
      else let columns = integer_ceil_sqrt (length items);
               rows = nat_div_ceil (length items) columns;
               widths = split_tracks (rect_width area) columns (opt_gap opts);
               heights = split_tracks (rect_height area) rows (opt_gap opts)
           in fixed_snapshot area st
                (grid_rows (opt_gap opts) area widths heights
                   (add_offset (rect_y area) (opt_gap opts)) items))"

text \<open>The loop over the stack: items zipped with the stack heights.\<close>

fun stack_cells ::
  "u32 \<Rightarrow> rect \<Rightarrow> i32 \<Rightarrow> u32 \<Rightarrow> layout_item list \<Rightarrow> u32 list \<Rightarrow> i32 \<Rightarrow> layout_placement list"
where
  "stack_cells g area x w (it # items) (h # hs) y =
     place_item area (Rect x y w h) it #
     stack_cells g area x w items hs (add_offset (add_offset y h) g)"
| "stack_cells g area x w [] hs y = []"
| "stack_cells g area x w items [] y = []"

definition arrange_master_stack ::
  "layout_options \<Rightarrow> layout_state \<Rightarrow> rect \<Rightarrow> layout_item list \<Rightarrow> layout_snapshot"
where
  "arrange_master_stack opts st area items =
     (case items of
        [] \<Rightarrow> snapshot_empty area st
      | [it] \<Rightarrow> fixed_snapshot area st [place_item area (inset area (opt_gap opts)) it]
      | it # others \<Rightarrow>
          let inner = inset area (opt_gap opts);
              tracks_width = sat_u32 (rect_width inner - opt_gap opts);
              master_w = min (resolve (master_width opts) tracks_width) tracks_width;
              stack_width = sat_u32 (tracks_width - master_w);
              master_cell = Rect (rect_x inner) (rect_y inner) master_w (rect_height inner);
              stack_x = add_offset (add_offset (rect_x inner) master_w) (opt_gap opts);
              stack_heights = split_tracks (rect_height inner) (length others) (opt_gap opts)
          in fixed_snapshot area st
               (place_item area master_cell it #
                stack_cells (opt_gap opts) area stack_x stack_width others stack_heights (rect_y inner)))"

record layout_engine =
  engine_kind :: layout_kind
  engine_options :: layout_options

definition engine_new :: "layout_kind \<Rightarrow> layout_engine" where
  "engine_new k = \<lparr>engine_kind = k, engine_options = default_options\<rparr>"

definition engine_arrange ::
  "layout_engine \<Rightarrow> layout_state \<Rightarrow> rect \<Rightarrow> layout_item list \<Rightarrow> nat option \<Rightarrow>
   layout_state \<times> layout_snapshot"
where
  "engine_arrange e st area items focused =
     (case engine_kind e of
        Scrolling1D \<Rightarrow> scrolling_arrange (engine_options e) st area items focused
      | Spatial2D \<Rightarrow>
          let st' = reset_horizontal st in (st', arrange_grid (engine_options e) st' area items)
      | MasterStack \<Rightarrow>
          let st' = reset_horizontal st in (st', arrange_master_stack (engine_options e) st' area items))"

section \<open>Placements follow the items\<close>

lemma fixed_snapshot_simps [simp]:
  "placements (fixed_snapshot area st ps) = ps" "snapshot_viewport (fixed_snapshot area st ps) = area"
  "snapshot_offset (fixed_snapshot area st ps) = horizontal_offset st"
  by (simp_all add: fixed_snapshot_def)

text \<open>A placement of an item by either fixed layout.\<close>

definition placed :: "rect \<Rightarrow> layout_item \<Rightarrow> layout_placement \<Rightarrow> bool" where
  "placed area it p \<longleftrightarrow> (\<exists>cell. p = place_item area cell it)"

lemma placed_place_item [simp, intro]: "placed area it (place_item area cell it)"
  by (auto simp: placed_def)

lemma place_item_size:
  "rect_size (placement_geometry (place_item area cell it)) =
   constrain (item_constraints it) (rect_size cell)"
  by (simp add: place_item_def place_in_cell_def Let_def rect_size_def constrain_def)

lemma placed_allows:
  "placed area it p \<Longrightarrow> item_ok it \<Longrightarrow> allows (item_constraints it) (rect_size (placement_geometry p))"
  by (auto simp: placed_def place_item_size item_ok_def constrain_allows)

lemma placed_clip: "placed area it p \<Longrightarrow> placement_visible p = rect_intersection (placement_geometry p) area"
  by (auto simp: placed_def place_item_def place_in_cell_def Let_def)

lemma placed_rect_ok: "placed area it p \<Longrightarrow> item_ok it \<Longrightarrow> rect_ok (placement_geometry p)"
  using constrain_size_ok
  by (auto simp: placed_def place_item_def place_in_cell_def Let_def rect_ok_def size_ok_def item_ok_def add_offset_def)

lemma grid_row_placed:
  "list_all2 (placed area) (take (length ws) items) (fst (grid_row g area y h ws x items)) \<and>
   snd (grid_row g area y h ws x items) = drop (length ws) items"
  by (induction g area y h ws x items rule: grid_row.induct) (auto simp: Let_def case_prod_beta)

lemma grid_rows_placed:
  "list_all2 (placed area) (take (length hs * length ws) items) (grid_rows g area ws hs y items)"
proof (induction hs arbitrary: y items)
  case (Cons h hs)
  show ?case
  proof (cases "items = []")
    case False
    have "list_all2 (placed area) (take (length ws) items @ take (length hs * length ws) (drop (length ws) items))
        (grid_rows g area ws (h # hs) y items)"
      using grid_row_placed[of area ws items g y h "add_offset (rect_x area) g"] Cons False
      by (auto simp: Let_def case_prod_beta intro: list_all2_appendI)
    then show ?thesis by (simp add: take_add add.commute)
  qed simp
qed simp

lemma stack_cells_placed:
  "list_all2 (placed area) (take (length hs) items) (stack_cells g area x w items hs y)"
  by (induction g area x w items hs y rule: stack_cells.induct) simp_all

lemma ceil_sqrt_loop_spec:
  "v \<le> ceil_sqrt_loop v root * ceil_sqrt_loop v root \<and> root \<le> ceil_sqrt_loop v root \<and>
   (root < ceil_sqrt_loop v root \<longrightarrow> (ceil_sqrt_loop v root - 1) * (ceil_sqrt_loop v root - 1) < v)"
proof (induction v root rule: ceil_sqrt_loop.induct)
  case (1 v root)
  show ?case
  proof (cases "root * root < v")
    case True
    with "1.IH" have IH: "v \<le> ceil_sqrt_loop v (Suc root) * ceil_sqrt_loop v (Suc root)"
      "Suc root \<le> ceil_sqrt_loop v (Suc root)"
      "Suc root < ceil_sqrt_loop v (Suc root) \<longrightarrow>
        (ceil_sqrt_loop v (Suc root) - 1) * (ceil_sqrt_loop v (Suc root) - 1) < v" by auto
    have "(ceil_sqrt_loop v (Suc root) - 1) * (ceil_sqrt_loop v (Suc root) - 1) < v"
      using IH True by (cases "Suc root = ceil_sqrt_loop v (Suc root)") (auto dest: sym)
    with True IH show ?thesis by (simp add: ceil_sqrt_loop.simps[of v root])
  next
    case False
    then show ?thesis by (simp add: ceil_sqrt_loop.simps[of v root])
  qed
qed

lemma integer_ceil_sqrt_pos: "1 \<le> integer_ceil_sqrt v"
  unfolding integer_ceil_sqrt_def using ceil_sqrt_loop_spec[of v 1] by blast

lemma integer_ceil_sqrt_le: "1 \<le> v \<Longrightarrow> integer_ceil_sqrt v \<le> v"
proof (rule ccontr)
  assume v: "1 \<le> v" "\<not> integer_ceil_sqrt v \<le> v"
  then have "(integer_ceil_sqrt v - 1) * (integer_ceil_sqrt v - 1) < v"
    unfolding integer_ceil_sqrt_def using ceil_sqrt_loop_spec[of v 1] by simp
  moreover have "v \<le> integer_ceil_sqrt v - 1" "1 \<le> integer_ceil_sqrt v - 1" using v by simp_all
  then have "v \<le> (integer_ceil_sqrt v - 1) * (integer_ceil_sqrt v - 1)"
    by (metis mult_le_mono mult.right_neutral)
  ultimately show False by simp
qed

lemma nat_div_ceil_bounds:
  assumes "1 \<le> b"
  shows "a \<le> nat_div_ceil a b * b" "1 \<le> a \<Longrightarrow> 1 \<le> nat_div_ceil a b" "nat_div_ceil a b \<le> a"
proof -
  define q where "q = nat_div_ceil a b"
  have q: "q = (a + b - 1) div b" by (simp add: q_def nat_div_ceil_def)
  have "a + b - 1 < (q + 1) * b" 
    unfolding q using assms dividend_less_div_times[of b "a + b - 1"] by (simp add: algebra_simps)
  then show "a \<le> nat_div_ceil a b * b" using assms by (simp add: q_def[symmetric])
  show "1 \<le> a \<Longrightarrow> 1 \<le> nat_div_ceil a b"
    using assms by (simp add: nat_div_ceil_def div_greater_zero_iff Suc_le_eq)
  have "(a + b - 1) div b < a + 1"
  proof (rule less_mult_imp_div_less)
    show "a + b - 1 < (a + 1) * b" using assms by (cases b) simp_all
  qed
  then show "nat_div_ceil a b \<le> a" by (simp add: nat_div_ceil_def)
qed

lemma length_split_tracks: "int cnt \<le> U32_MAX \<Longrightarrow> length (split_tracks len cnt g) = cnt"
  by (simp add: split_tracks_def Let_def)

text \<open>The dimensions of the grid.\<close>

definition grid_columns :: "layout_item list \<Rightarrow> nat" where
  "grid_columns items = integer_ceil_sqrt (length items)"

definition grid_row_count :: "layout_item list \<Rightarrow> nat" where
  "grid_row_count items = nat_div_ceil (length items) (grid_columns items)"

lemma grid_dims:
  assumes "items \<noteq> []"
  shows "1 \<le> grid_columns items" "1 \<le> grid_row_count items" "grid_columns items \<le> length items"
    "grid_row_count items \<le> length items" "length items \<le> grid_row_count items * grid_columns items"
  using assms integer_ceil_sqrt_pos[of "length items"] integer_ceil_sqrt_le[of "length items"]
    nat_div_ceil_bounds[of "grid_columns items" "length items"]
  by (auto simp: grid_columns_def grid_row_count_def Suc_le_eq)

lemma arrange_grid_placed:
  assumes "int (length items) < U32_MAX"
  shows "list_all2 (placed area) items (placements (arrange_grid opts st area items))"
proof (cases "items = []")
  case False
  note d = grid_dims[OF False]
  have len: "length (split_tracks l (grid_columns items) gp) = grid_columns items"
    "length (split_tracks l (grid_row_count items) gp) = grid_row_count items" for l gp
    using d assms by (simp_all add: length_split_tracks)
  show ?thesis
    using grid_rows_placed[of area "split_tracks (rect_height area) (grid_row_count items) (opt_gap opts)"
        "split_tracks (rect_width area) (grid_columns items) (opt_gap opts)" items "opt_gap opts"
        "add_offset (rect_y area) (opt_gap opts)"] False d(5)
    by (simp add: arrange_grid_def Let_def len flip: grid_columns_def grid_row_count_def)
qed (simp add: arrange_grid_def)

lemma arrange_master_stack_placed:
  assumes "int (length items) < U32_MAX"
  shows "list_all2 (placed area) items (placements (arrange_master_stack opts st area items))"
proof (cases items)
  case (Cons it others)
  show ?thesis
  proof (cases others)
    case (Cons it' others')
    have "length (split_tracks l (length others) gp) = length others" for l gp
      using assms \<open>items = it # others\<close> by (intro length_split_tracks) simp
    with stack_cells_placed[of area _ others] show ?thesis
      by (auto simp: arrange_master_stack_def Let_def \<open>items = it # others\<close> Cons)
        (metis Cons length_Cons take_all order_refl)
  qed (simp add: arrange_master_stack_def \<open>items = it # others\<close>)
qed (simp add: arrange_master_stack_def)

section \<open>The layouts satisfy the contract\<close>

definition grid_layout :: layout_fn where
  "grid_layout opts st area items focused =
     (let st' = reset_horizontal st in (st', arrange_grid opts st' area items))"

definition master_stack_layout :: layout_fn where
  "master_stack_layout opts st area items focused =
     (let st' = reset_horizontal st in (st', arrange_master_stack opts st' area items))"

lemma engine_arrange_layouts:
  "engine_arrange e st area items focused =
     (case engine_kind e of
        Scrolling1D \<Rightarrow> scrolling_arrange (engine_options e) st area items focused
      | Spatial2D \<Rightarrow> grid_layout (engine_options e) st area items focused
      | MasterStack \<Rightarrow> master_stack_layout (engine_options e) st area items focused)"
  by (simp add: engine_arrange_def grid_layout_def master_stack_layout_def split: layout_kind.splits)

lemma grid_rows_all_placed:
  "p \<in> set (grid_rows g area ws hs y items) \<Longrightarrow> \<exists>it. placed area it p"
  using grid_rows_placed[of area hs ws items g y] by (metis in_set_conv_nth list_all2_conv_all_nth)

lemma arrange_grid_clip:
  "p \<in> set (placements (arrange_grid opts st area items)) \<Longrightarrow>
   placement_visible p = rect_intersection (placement_geometry p) area"
  by (auto simp: arrange_grid_def Let_def dest!: grid_rows_all_placed placed_clip split: if_splits)

lemma arrange_grid_allows:
  assumes "list_all item_ok items" "i < length items"
    and "i < length (placements (arrange_grid opts st area items))"
  shows "allows (item_constraints (items ! i))
    (rect_size (placement_geometry (placements (arrange_grid opts st area items) ! i)))"
proof -
  have "items \<noteq> []" using assms(2) by auto
  then obtain hs ws y where eq: "placements (arrange_grid opts st area items) =
      grid_rows (opt_gap opts) area ws hs y items"
    by (auto simp: arrange_grid_def Let_def)
  have "placed area (items ! i) (placements (arrange_grid opts st area items) ! i)"
    using grid_rows_placed[of area hs ws items "opt_gap opts" y] assms(2,3)
    unfolding eq by (auto simp: list_all2_conv_all_nth)
  then show ?thesis using assms(1,2) by (auto simp: list_all_length intro: placed_allows)
qed

lemma arrange_master_stack_prefix:
  "\<exists>n. list_all2 (placed area) (take n items) (placements (arrange_master_stack opts st area items))"
proof (cases "length items \<le> 1")
  case True
  then have "int (length items) < U32_MAX" by linarith
  from arrange_master_stack_placed[OF this] show ?thesis by (metis take_all order_refl)
next
  case False
  then obtain it it' others where it: "items = it # it' # others"
    by (metis (no_types) One_nat_def le_numeral_extra(4) length_0_conv length_Cons list.exhaust not_less_eq_eq
        zero_le)
  obtain x w hs y cell where "placements (arrange_master_stack opts st area items) =
      place_item area cell it # stack_cells (opt_gap opts) area x w (it' # others) hs y"
    by (simp add: arrange_master_stack_def it Let_def)
  then have "list_all2 (placed area) (take (Suc (length hs)) items)
      (placements (arrange_master_stack opts st area items))"
    using stack_cells_placed[of area hs "it' # others"] by (simp add: it)
  then show ?thesis by blast
qed

lemma prefix_placed_allows:
  assumes "list_all2 (placed area) (take n items) ps" "list_all item_ok items" "i < length ps"
  shows "allows (item_constraints (items ! i)) (rect_size (placement_geometry (ps ! i)))"
proof -
  have "i < length items" "i < n" using list_all2_lengthD[OF assms(1)] assms(3) by auto
  then show ?thesis
    using assms placed_allows[of area "items ! i" "ps ! i"]
    by (auto simp: list_all2_conv_all_nth list_all_length)
qed

lemma prefix_placed_clip:
  assumes "list_all2 (placed area) items' ps" "p \<in> set ps"
  shows "placement_visible p = rect_intersection (placement_geometry p) area"
  using assms by (auto simp: list_all2_conv_all_nth in_set_conv_nth intro: placed_clip)

lemma prefix_placed_rect_ok:
  assumes "list_all2 (placed area) (take n items) ps" "list_all item_ok items" "p \<in> set ps"
  shows "rect_ok (placement_geometry p)"
proof -
  obtain i where i: "i < length ps" "p = ps ! i" using assms(3) by (metis in_set_conv_nth)
  then have "i < length items" "i < n" "placed area (items ! i) p"
    using list_all2_nthD2[OF assms(1) i(1)] list_all2_lengthD[OF assms(1)] by auto
  then show ?thesis using assms(2) by (auto simp: list_all_length intro: placed_rect_ok)
qed

lemma arrange_grid_prefix:
  "\<exists>n. list_all2 (placed area) (take n items) (placements (arrange_grid opts st area items))"
proof (cases "items = []")
  case False
  then show ?thesis by (simp add: arrange_grid_def Let_def) (rule exI, rule grid_rows_placed)
qed (simp add: arrange_grid_def)

interpretation grid: tiling_layout grid_layout
proof unfold_locales
  fix items :: "layout_item list" and opts st area focused
  assume "int (length items) < U32_MAX"
  from list_all2_lengthD[OF arrange_grid_placed[OF this], symmetric]
  show "length (placements (snd (grid_layout opts st area items focused))) = length items"
    by (simp add: grid_layout_def Let_def)
next
  fix items :: "layout_item list" and p opts st area focused
  assume "list_all item_ok items" "p \<in> set (placements (snd (grid_layout opts st area items focused)))"
  then show "rect_ok (placement_geometry p)"
    using prefix_placed_rect_ok arrange_grid_prefix[of area items opts] by (simp add: grid_layout_def Let_def) blast
qed (auto simp: grid_layout_def Let_def arrange_grid_allows arrange_grid_clip,
    auto simp: arrange_grid_def Let_def)

interpretation master: tiling_layout master_stack_layout
proof unfold_locales
  fix items :: "layout_item list" and opts st area focused i p
  let ?snap = "snd (master_stack_layout opts st area items focused)"
  obtain n where n: "list_all2 (placed area) (take n items) (placements ?snap)"
    using arrange_master_stack_prefix[of area items opts] by (auto simp: master_stack_layout_def Let_def)
  show "int (length items) < U32_MAX \<Longrightarrow> length (placements ?snap) = length items"
    using list_all2_lengthD[OF arrange_master_stack_placed, of items, symmetric]
    by (simp add: master_stack_layout_def Let_def)
  show "list_all item_ok items \<Longrightarrow> i < length (placements ?snap) \<Longrightarrow>
      allows (item_constraints (items ! i)) (rect_size (placement_geometry (placements ?snap ! i)))"
    using prefix_placed_allows[OF n] by blast
  show "p \<in> set (placements ?snap) \<Longrightarrow> placement_visible p = rect_intersection (placement_geometry p) area"
    using prefix_placed_clip[OF n] by blast
  show "list_all item_ok items \<Longrightarrow> p \<in> set (placements ?snap) \<Longrightarrow> rect_ok (placement_geometry p)"
    using prefix_placed_rect_ok[OF n] by blast
qed (auto simp: master_stack_layout_def arrange_master_stack_def Let_def split: list.splits)

lemma engine_layout_fn:
  "(\<lambda>opts. engine_arrange \<lparr>engine_kind = k, engine_options = opts\<rparr>) =
   (case k of Scrolling1D \<Rightarrow> scrolling_arrange | Spatial2D \<Rightarrow> grid_layout | MasterStack \<Rightarrow> master_stack_layout)"
  by (intro ext) (simp add: engine_arrange_layouts split: layout_kind.split)

interpretation engine: tiling_layout "\<lambda>opts. engine_arrange \<lparr>engine_kind = k, engine_options = opts\<rparr>" for k
  unfolding engine_layout_fn
  using scrolling.tiling_layout_axioms grid.tiling_layout_axioms master.tiling_layout_axioms
  by (cases k) simp_all

section \<open>Windows do not overlap\<close>

text \<open>The item asks for no more than a cell of width \<open>w\<close> and height \<open>h\<close>.\<close>

definition cell_fits :: "layout_item \<Rightarrow> u32 \<Rightarrow> u32 \<Rightarrow> bool" where
  "cell_fits it w h \<longleftrightarrow> item_ok it \<and> size_width (min_size (item_constraints it)) \<le> w \<and>
     size_height (min_size (item_constraints it)) \<le> h"

lemma cell_fits_mono: "cell_fits it w h \<Longrightarrow> w \<le> w' \<Longrightarrow> h \<le> h' \<Longrightarrow> cell_fits it w' h'"
  by (simp add: cell_fits_def)

text \<open>The first window ends before the second begins, in one of the axes.\<close>

definition apart :: "layout_placement \<Rightarrow> layout_placement \<Rightarrow> bool" where
  "apart p q \<longleftrightarrow> rect_right (placement_geometry p) \<le> rect_x (placement_geometry q) \<or>
                rect_bottom (placement_geometry p) \<le> rect_y (placement_geometry q)"

text \<open>The window lies in the given half-open box.\<close>

definition within :: "layout_placement \<Rightarrow> int \<Rightarrow> int \<Rightarrow> int \<Rightarrow> int \<Rightarrow> bool" where
  "within p l t r b \<longleftrightarrow> l \<le> rect_x (placement_geometry p) \<and> t \<le> rect_y (placement_geometry p) \<and>
     rect_right (placement_geometry p) \<le> r \<and> rect_bottom (placement_geometry p) \<le> b"

lemma within_mono: "within p l t r b \<Longrightarrow> l' \<le> l \<Longrightarrow> t' \<le> t \<Longrightarrow> r \<le> r' \<Longrightarrow> b \<le> b' \<Longrightarrow> within p l' t' r' b'"
  by (simp add: within_def)

lemma apart_disjoint:
  "apart p q \<Longrightarrow> pixel_set (placement_geometry p) \<inter> pixel_set (placement_geometry q) = {}"
  by (auto simp: apart_def pixel_set_def)

lemma place_item_within:
  assumes "is_i32 x" "is_i32 y" "0 \<le> w" "0 \<le> h" "x + w \<le> I32_MAX" "y + h \<le> I32_MAX"
    and "w \<le> I32_MAX" "h \<le> I32_MAX" "cell_fits it w h"
  shows "within (place_item area (Rect x y w h) it) x y (x + w) (y + h)"
proof -
  define sz where "sz = constrain (item_constraints it) (Size w h)"
  have ok: "size_ok (Size w h)" using assms(3,4,7,8) by (simp add: size_ok_def is_u32_def)
  have le: "size_width sz \<le> w" "size_height sz \<le> h"
    using constrain_le_cell[OF ok] assms(9) by (simp_all add: sz_def cell_fits_def)
  have pos: "0 \<le> size_width sz" "0 \<le> size_height sz"
    using constrain_size_ok[of "item_constraints it"] assms(9)
    by (simp_all add: sz_def cell_fits_def item_ok_def size_ok_def is_u32_def)
  have mid: "0 \<le> n \<Longrightarrow> sat_u32 n = n \<Longrightarrow> 0 \<le> sat_u32 n div 2 \<and> sat_u32 n div 2 \<le> n" for n by auto
  have dw: "sat_u32 (w - size_width sz) = w - size_width sz"
    and dh: "sat_u32 (h - size_height sz) = h - size_height sz"
    using assms(7,8) le pos by (simp_all add: machine)
  note m = mid[OF _ dw] mid[OF _ dh]
  have gx: "add_offset x (sat_u32 (w - size_width sz) div 2) = x + (w - size_width sz) div 2"
    and gy: "add_offset y (sat_u32 (h - size_height sz) div 2) = y + (h - size_height sz) div 2"
    using m le pos assms(1,2,5-8) by (simp_all add: add_offset_exact dw dh is_i32_def)
  have geo: "placement_geometry (place_item area (Rect x y w h) it) =
      Rect (x + (w - size_width sz) div 2) (y + (h - size_height sz) div 2) (size_width sz) (size_height sz)"
    unfolding place_item_def place_in_cell_def Let_def rect_size_def Rect_simps sz_def[symmetric] gx gy
    by simp
  show ?thesis
    using m le pos assms(1-8) unfolding within_def geo dw dh
    by (auto simp: rect_right_def rect_bottom_def machine)
qed

definition track_end :: "u32 list \<Rightarrow> u32 \<Rightarrow> int \<Rightarrow> int" where
  "track_end ws g x = x + (\<Sum>w\<leftarrow>ws. w + g)"

lemma track_end_simps [simp]:
  "track_end [] g x = x" "track_end (w # ws) g x = track_end ws g (x + w + g)"
  by (simp_all add: track_end_def)

lemma track_end_ge: "\<forall>w \<in> set ws. 0 \<le> w \<Longrightarrow> 0 \<le> g \<Longrightarrow> x \<le> track_end ws g x"
proof (induction ws arbitrary: x)
  case (Cons w ws)
  have "x + w + g \<le> track_end ws g (x + w + g)" using Cons by simp
  moreover have "x \<le> x + w + g" using Cons.prems by simp
  ultimately show ?case by simp
qed simp

lemma track_end_eq: "track_end ws g x = x + sum_list ws + int (length ws) * g"
  by (induction ws arbitrary: x) (simp_all add: algebra_simps)

text \<open>A coordinate range that the cells fill without saturating.\<close>

definition span_ok :: "int \<Rightarrow> int \<Rightarrow> bool" where
  "span_ok a b \<longleftrightarrow> is_i32 a \<and> b \<le> I32_MAX \<and> b - a \<le> I32_MAX"

lemma span_step:
  assumes "span_ok x (track_end (w # ws) g x)" "0 \<le> w" "0 \<le> g" "\<forall>v \<in> set ws. 0 \<le> v"
  shows "add_offset (add_offset x w) g = x + w + g" "span_ok (x + w + g) (track_end ws g (x + w + g))"
    "x + w \<le> I32_MAX" "w \<le> I32_MAX" "x + w + g \<le> track_end ws g (x + w + g)"
proof -
  have e: "x + w + g \<le> track_end ws g (x + w + g)" using track_end_ge assms(3,4) by blast
  with assms show "add_offset (add_offset x w) g = x + w + g"
    "span_ok (x + w + g) (track_end ws g (x + w + g))" "x + w \<le> I32_MAX" "w \<le> I32_MAX"
    by (auto simp: add_offset_exact span_ok_def is_i32_def)
  show "x + w + g \<le> track_end ws g (x + w + g)" by (rule e)
qed

lemma grid_row_within:
  assumes "\<forall>w \<in> set ws. 0 \<le> w" "0 \<le> g" "span_ok x (track_end ws g x)"
    and "is_i32 y" "0 \<le> h" "y + h \<le> I32_MAX" "h \<le> I32_MAX"
    and "\<forall>it \<in> set items. \<forall>w \<in> set ws. cell_fits it w h"
  shows "(\<forall>p \<in> set (fst (grid_row g area y h ws x items)). within p x y (track_end ws g x - g) (y + h)) \<and>
         sorted_wrt apart (fst (grid_row g area y h ws x items))"
  using assms
proof (induction g area y h ws x items rule: grid_row.induct)
  case (3 g area y h w ws x it items)
  have w: "0 \<le> w" "\<forall>v \<in> set ws. 0 \<le> v" using "3.prems"(1) by simp_all
  note st = span_step[OF "3.prems"(3) w(1) "3.prems"(2) w(2)]
  have IH: "(\<forall>p \<in> set (fst (grid_row g area y h ws (x + w + g) items)).
        within p (x + w + g) y (track_end ws g (x + w + g) - g) (y + h)) \<and>
      sorted_wrt apart (fst (grid_row g area y h ws (x + w + g) items))"
    using "3.IH" st(1,2) "3.prems" by simp
  have here: "within (place_item area (Rect x y w h) it) x y (x + w) (y + h)"
    using "3.prems" w st by (intro place_item_within) (auto simp: span_ok_def)
  have "\<forall>q \<in> set (fst (grid_row g area y h ws (x + w + g) items)).
      apart (place_item area (Rect x y w h) it) q"
    using IH here "3.prems"(2) by (force simp: apart_def within_def)
  with IH here st w "3.prems"(2) show ?case
    by (fastforce simp: Let_def case_prod_beta st(1) intro: within_mono)
qed simp_all

lemma grid_rows_within:
  assumes "\<forall>w \<in> set ws. 0 \<le> w" "\<forall>h \<in> set hs. 0 \<le> h" "0 \<le> g"
    and "add_offset (rect_x area) g = x0" "span_ok x0 (track_end ws g x0)" "span_ok y (track_end hs g y)"
    and "\<forall>it \<in> set items. \<forall>w \<in> set ws. \<forall>h \<in> set hs. cell_fits it w h"
  shows "(\<forall>p \<in> set (grid_rows g area ws hs y items).
            within p x0 y (track_end ws g x0 - g) (track_end hs g y - g)) \<and>
         sorted_wrt apart (grid_rows g area ws hs y items)"
  using assms(2,6,7)
proof (induction hs arbitrary: y items)
  case (Cons h hs)
  show ?case
  proof (cases "items = []")
    case False
    have h: "0 \<le> h" "\<forall>v \<in> set hs. 0 \<le> v" using Cons.prems(1) by simp_all
    note st = span_step[OF Cons.prems(2) h(1) assms(3) h(2)]
    define ps where "ps = fst (grid_row g area y h ws x0 items)"
    define rest where "rest = snd (grid_row g area y h ws x0 items)"
    define qs where "qs = grid_rows g area ws hs (y + h + g) rest"
    have rest: "set rest \<subseteq> set items"
      using grid_row_placed[of area ws items g y h x0] by (auto simp: rest_def dest: in_set_dropD)
    have row: "(\<forall>p \<in> set ps. within p x0 y (track_end ws g x0 - g) (y + h)) \<and> sorted_wrt apart ps"
      unfolding ps_def using assms Cons.prems st h by (intro grid_row_within) (auto simp: span_ok_def)
    have rows: "(\<forall>p \<in> set qs. within p x0 (y + h + g) (track_end ws g x0 - g) (track_end hs g (y + h + g) - g)) \<and>
        sorted_wrt apart qs"
      unfolding qs_def using Cons.IH[OF h(2) st(2), of rest] Cons.prems(3) rest by auto
    have "\<forall>p \<in> set ps. \<forall>q \<in> set qs. apart p q"
      using row rows assms(3) by (force simp: apart_def within_def)
    moreover have "grid_rows g area ws (h # hs) y items = ps @ qs"
      using False by (simp add: Let_def case_prod_beta assms(4) st(1) ps_def qs_def rest_def)
    ultimately show ?thesis
      using row rows st(5) h assms(3)
      by (auto simp: sorted_wrt_append intro: within_mono)
  qed simp
qed simp

text \<open>The cells of the grid: the gaps fit, and every item asks for no more than the smallest cell.\<close>

definition area_ok :: "rect \<Rightarrow> bool" where
  "area_ok area \<longleftrightarrow> rect_ok area \<and> rect_width area \<le> I32_MAX \<and> rect_height area \<le> I32_MAX \<and>
     rect_x area + rect_width area \<le> I32_MAX \<and> rect_y area + rect_height area \<le> I32_MAX"

definition grid_fits :: "layout_options \<Rightarrow> rect \<Rightarrow> layout_item list \<Rightarrow> bool" where
  "grid_fits opts area items \<longleftrightarrow>
     area_ok area \<and> 0 \<le> opt_gap opts \<and> items \<noteq> [] \<and> int (length items) < U32_MAX \<and>
     (int (grid_columns items) + 1) * opt_gap opts \<le> rect_width area \<and>
     (int (grid_row_count items) + 1) * opt_gap opts \<le> rect_height area \<and>
     (\<forall>it \<in> set items. cell_fits it
        ((rect_width area - (int (grid_columns items) + 1) * opt_gap opts) div int (grid_columns items))
        ((rect_height area - (int (grid_row_count items) + 1) * opt_gap opts) div int (grid_row_count items)))"

lemma split_tracks_props:
  assumes "0 \<le> g" "(int cnt + 1) * g \<le> len" "len \<le> I32_MAX" "1 \<le> cnt" "int cnt < U32_MAX"
  shows "\<forall>w \<in> set (split_tracks len cnt g). (len - (int cnt + 1) * g) div int cnt \<le> w \<and> 0 \<le> w"
    and "track_end (split_tracks len cnt g) g (a + g) = a + len"
    and "sum_list (split_tracks len cnt g) = len - (int cnt + 1) * g"
proof -
  define n where "n = (int cnt + 1) * g"
  have "0 \<le> n" using assms(1) by (simp add: n_def)
  then have n: "sat_u32 n = n" "sat_u32 (len - n) = len - n"
    using assms(2,3) by (simp_all add: machine n_def[symmetric])
  have one: "sat_u32 (int cnt + 1) = int cnt + 1" using assms(5) by (simp add: machine)
  have st: "split_tracks len cnt g = split_evenly (len - (int cnt + 1) * g) cnt"
    using assms(4,5) n one by (simp add: split_tracks_def Let_def min_def n_def mult.commute)
  have nn: "0 \<le> len - (int cnt + 1) * g" using assms(2) by simp
  show "\<forall>w \<in> set (split_tracks len cnt g). (len - (int cnt + 1) * g) div int cnt \<le> w \<and> 0 \<le> w"
    using assms(4,5) pos_imp_zdiv_nonneg_iff[of "int cnt" "len - (int cnt + 1) * g"] nn
    by (auto simp: st split_evenly_def Let_def min_def)
  show sum: "sum_list (split_tracks len cnt g) = len - (int cnt + 1) * g"
    using sum_list_split_evenly[OF nn, of cnt] assms(4) by (simp add: st)
  show "track_end (split_tracks len cnt g) g (a + g) = a + len"
    using sum assms(5) by (simp add: track_end_eq length_split_tracks algebra_simps)
qed

text \<open>C39. The grid layout never lets two windows overlap and keeps every window inside the area,
  one gap away from its right and bottom edge, whenever the gaps fit in the area and no window's
  minimum size exceeds its cell.\<close>

theorem grid_windows_disjoint:
  assumes "grid_fits opts area items"
  shows "let ps = placements (arrange_grid opts st area items)
         in length ps = length items \<and> sorted_wrt apart ps \<and>
            (\<forall>p \<in> set ps. within p (rect_x area + opt_gap opts) (rect_y area + opt_gap opts)
               (rect_x area + rect_width area - opt_gap opts) (rect_y area + rect_height area - opt_gap opts))"
proof -
  define g where "g = opt_gap opts"
  define ws where "ws = split_tracks (rect_width area) (grid_columns items) g"
  define hs where "hs = split_tracks (rect_height area) (grid_row_count items) g"
  have area: "area_ok area" and g0: "0 \<le> g" and ne: "items \<noteq> []" and len: "int (length items) < U32_MAX"
    and gw: "(int (grid_columns items) + 1) * g \<le> rect_width area"
    and gh: "(int (grid_row_count items) + 1) * g \<le> rect_height area"
    using assms by (simp_all add: grid_fits_def g_def)
  note d = grid_dims[OF ne]
  have dl: "int (grid_columns items) < U32_MAX" "int (grid_row_count items) < U32_MAX"
    using d len by linarith+
  note wp = split_tracks_props[OF g0 gw _ d(1) dl(1), folded ws_def]
  note hp = split_tracks_props[OF g0 gh _ d(2) dl(2), folded hs_def]
  have lim: "rect_width area \<le> I32_MAX" "rect_height area \<le> I32_MAX"
    using area by (simp_all add: area_ok_def)
  have "g \<le> (int (grid_columns items) + 1) * g" "g \<le> (int (grid_row_count items) + 1) * g"
    using g0 by (simp_all add: mult_le_cancel_right1)
  then have gl: "g \<le> rect_width area" "g \<le> rect_height area" using gw gh by linarith+
  have off: "add_offset (rect_x area) g = rect_x area + g" "add_offset (rect_y area) g = rect_y area + g"
    using gl g0 area by (simp_all add: add_offset_exact area_ok_def rect_ok_def is_i32_def)
  have spans: "span_ok (rect_x area + g) (track_end ws g (rect_x area + g))"
    "span_ok (rect_y area + g) (track_end hs g (rect_y area + g))"
    using wp(2)[OF lim(1)] hp(2)[OF lim(2)] area g0 gl
    by (auto simp: span_ok_def area_ok_def rect_ok_def is_i32_def)
  have fits: "\<forall>it \<in> set items. \<forall>w \<in> set ws. \<forall>h \<in> set hs. cell_fits it w h"
    using assms wp(1)[OF lim(1)] hp(1)[OF lim(2)]
    by (auto simp: grid_fits_def g_def intro: cell_fits_mono)
  have ps: "placements (arrange_grid opts st area items) = grid_rows g area ws hs (rect_y area + g) items"
    using ne by (simp add: arrange_grid_def Let_def off ws_def hs_def grid_columns_def
        grid_row_count_def flip: g_def)
  have nn: "\<forall>w \<in> set ws. 0 \<le> w" "\<forall>h \<in> set hs. 0 \<le> h" using wp(1)[OF lim(1)] hp(1)[OF lim(2)] by auto
  have "length (grid_rows g area ws hs (rect_y area + g) items) = length items"
    using list_all2_lengthD[OF arrange_grid_placed[OF len, of area opts st]] by (simp add: ps)
  then show ?thesis
    using grid_rows_within[OF nn g0 off(1) spans fits]
    by (simp add: Let_def ps wp(2)[OF lim(1)] hp(2)[OF lim(2)] flip: g_def)
qed

definition desk :: rect where "desk = Rect 0 0 1000 600"

lemma grid_dims_5: "grid_columns (replicate 5 it) = 3" "grid_row_count (replicate 5 it) = 2"
proof -
  show c: "grid_columns (replicate 5 it) = 3"
    by (simp add: grid_columns_def integer_ceil_sqrt_def ceil_sqrt_loop.simps)
  show "grid_row_count (replicate 5 it) = 2"
    by (simp add: grid_row_count_def c nat_div_ceil_def)
qed

theorem grid_windows_disjoint_witness:
  "let ps = placements (arrange_grid default_options default_state desk (replicate 5 default_item))
   in length ps = 5 \<and> sorted_wrt apart ps \<and> (\<forall>p \<in> set ps. within p 8 8 992 592)"
proof -
  have "grid_fits default_options desk (replicate 5 default_item)"
    by (simp add: grid_fits_def grid_dims_5 desk_def default_options_def area_ok_def rect_ok_def
        cell_fits_def item_ok_def default_item_def constraints_ok_def default_constraints_def
        size_ok_def option_u32_def machine)
  from grid_windows_disjoint[OF this, of default_state] show ?thesis
    by (simp add: default_options_def desk_def)
qed

text \<open>The widths the master-stack layout gives its two columns.\<close>

definition column_widths :: "layout_options \<Rightarrow> rect \<Rightarrow> u32 \<times> u32" where
  "column_widths opts area =
     (let tracks = rect_width area - 3 * opt_gap opts;
          m = min (resolve (master_width opts) tracks) tracks
      in (m, tracks - m))"

text \<open>The gaps fit, and no item asks for more than its cell.\<close>

definition stack_fits :: "layout_options \<Rightarrow> rect \<Rightarrow> layout_item \<Rightarrow> layout_item list \<Rightarrow> bool" where
  "stack_fits opts area it others \<longleftrightarrow>
     area_ok area \<and> options_ok opts \<and> others \<noteq> [] \<and> int (length others) < U32_MAX \<and>
     3 * opt_gap opts \<le> rect_width area \<and>
     (int (length others) + 3) * opt_gap opts \<le> rect_height area \<and>
     cell_fits it (fst (column_widths opts area)) (rect_height area - 2 * opt_gap opts) \<and>
     (\<forall>o' \<in> set others. cell_fits o' (snd (column_widths opts area))
        ((rect_height area - (int (length others) + 3) * opt_gap opts) div int (length others)))"

lemma stack_cells_within:
  assumes "\<forall>h \<in> set hs. 0 \<le> h" "0 \<le> g" "span_ok y (track_end hs g y)"
    and "is_i32 x" "0 \<le> w" "x + w \<le> I32_MAX" "w \<le> I32_MAX"
    and "\<forall>it \<in> set items. \<forall>h \<in> set hs. cell_fits it w h"
  shows "(\<forall>p \<in> set (stack_cells g area x w items hs y). within p x y (x + w) (track_end hs g y - g)) \<and>
         sorted_wrt apart (stack_cells g area x w items hs y)"
  using assms
proof (induction g area x w items hs y rule: stack_cells.induct)
  case (1 g area x w it items h hs y)
  have h: "0 \<le> h" "\<forall>v \<in> set hs. 0 \<le> v" using "1.prems"(1) by simp_all
  note st = span_step[OF "1.prems"(3) h(1) "1.prems"(2) h(2)]
  have IH: "(\<forall>p \<in> set (stack_cells g area x w items hs (y + h + g)).
        within p x (y + h + g) (x + w) (track_end hs g (y + h + g) - g)) \<and>
      sorted_wrt apart (stack_cells g area x w items hs (y + h + g))"
    using "1.IH" st(1,2) "1.prems" by simp
  have here: "within (place_item area (Rect x y w h) it) x y (x + w) (y + h)"
    using "1.prems" h st by (intro place_item_within) (auto simp: span_ok_def)
  have "\<forall>q \<in> set (stack_cells g area x w items hs (y + h + g)).
      apart (place_item area (Rect x y w h) it) q"
    using IH here "1.prems"(2) by (force simp: apart_def within_def)
  with IH here st h "1.prems"(2) show ?case
    by (fastforce simp: st(1) intro: within_mono)
qed simp_all

lemma inset_exact:
  assumes "area_ok area" "0 \<le> g" "3 * g \<le> rect_width area" "2 * g \<le> rect_height area"
  shows "inset area g = Rect (rect_x area + g) (rect_y area + g) (rect_width area - 2 * g) (rect_height area - 2 * g)"
  using assms by (simp add: inset_def area_ok_def rect_ok_def add_offset_exact machine)



text \<open>Layout names round-trip: parsing accepts exactly the three names that are printed, gives back
  the kind they were printed from, and reports any other text in the error.\<close>

lemma layout_kind_roundtrip:
  "(layout_kind_from_str s = Inr k \<longleftrightarrow> s = layout_kind_name k) \<and>
   (layout_kind_from_str s = Inl e \<longleftrightarrow> e = ParseLayoutError s \<and> s \<notin> range layout_kind_name)"
proof -
  have "range layout_kind_name = {''scrolling-1d'', ''spatial-2d'', ''master-stack''}"
    by (auto simp: image_iff) (metis layout_kind.exhaust layout_kind_name.simps)+
  then show ?thesis
    by (cases k) (auto simp: layout_kind_from_str_def)
qed

end
