(* ===== verification/Overview.thy ===== *)
theory Overview
  imports Layout_Policy
begin

text \<open>
  The overview of \<^verbatim>\<open>apps/tensor-wm/src/overview.rs\<close>: the grid of workspace cards, the mapping of
  window geometry into a card, and hit testing on the compiled plan.

  Cards never overlap, stay inside the area and keep its proportions; every window that lies on
  the output appears in its card, unclipped and never empty; and hit testing returns the foremost
  window under the pointer.
\<close>

section \<open>Model\<close>

type_synonym view_id = u64
type_synonym workspace_id = u32

datatype overview_view_kind = OverviewTiled | OverviewFloating | OverviewAttached

record overview_view =
  ov_id :: view_id
  ov_root :: view_id
  ov_geometry :: "rect option"
  ov_focused :: bool
  ov_kind :: overview_view_kind
  ov_stacking :: u64

record overview_options =
  outer_gap :: u32
  workspace_gap :: u32

definition default_overview_options :: overview_options where
  "default_overview_options = \<lparr>outer_gap = 24, workspace_gap = 16\<rparr>"

record overview_source =
  source_id :: workspace_id
  source_views :: "overview_view list"

record overview_view_plan =
  vp_id :: view_id
  vp_root :: view_id
  vp_source_geometry :: rect
  vp_geometry :: rect
  vp_clip :: rect

record overview_workspace_plan =
  wp_id :: workspace_id
  wp_geometry :: rect
  wp_views :: "overview_view_plan list"

record overview_plan =
  plan_area :: rect
  plan_workspaces :: "overview_workspace_plan list"

datatype overview_hit =
    HitView workspace_id view_id view_id
  | HitWorkspace workspace_id

definition inset_non_empty :: "rect \<Rightarrow> u32 \<Rightarrow> rect" where
  "inset_non_empty area requested =
     (let horizontal = min requested (sat_u32 (rect_width area - 1) div 2);
          vertical = min requested (sat_u32 (rect_height area - 1) div 2)
      in Rect (sat_i32 (rect_x area + i32_from_u32 horizontal))
              (sat_i32 (rect_y area + i32_from_u32 vertical))
              (sat_u32 (rect_width area - sat_u32 (horizontal * 2)))
              (sat_u32 (rect_height area - sat_u32 (vertical * 2))))"

text \<open>\<open>u32::try_from(n).unwrap_or(u32::MAX)\<close> of a \<open>usize\<close>.\<close>

definition u32_of_count :: "nat \<Rightarrow> u32" where
  "u32_of_count n = min (int n) U32_MAX"

definition bounded_gap :: "u32 \<Rightarrow> u32 \<Rightarrow> nat \<Rightarrow> u32" where
  "bounded_gap len requested cnt =
     (if cnt \<le> 1 then 0
      else let n = u32_of_count cnt in min requested (sat_u32 (len - n) div max (sat_u32 (n - 1)) 1))"

definition scale_unsigned :: "u32 \<Rightarrow> u32 \<Rightarrow> u32 \<Rightarrow> u32" where
  "scale_unsigned v numerator denominator =
     u32_try_or_max (sat_u64 (v * numerator) div max denominator 1)"

definition fit_size :: "size2 \<Rightarrow> size2 \<Rightarrow> size2" where
  "fit_size aspect bounds =
     (if size_width aspect = 0 \<or> size_height aspect = 0 \<or> size_width bounds = 0 \<or> size_height bounds = 0
      then Size 0 0
      else if size_width bounds * size_height aspect \<le> size_height bounds * size_width aspect
      then Size (size_width bounds)
             (max (scale_unsigned (size_height aspect) (size_width bounds) (size_width aspect)) 1)
      else Size (max (scale_unsigned (size_width aspect) (size_height bounds) (size_height aspect)) 1)
             (size_height bounds))"

definition fit_rect :: "size2 \<Rightarrow> rect \<Rightarrow> rect" where
  "fit_rect aspect bounds =
     (let sz = fit_size aspect (rect_size bounds);
          x = sat_i32 (rect_x bounds + i32_from_u32 (sat_u32 (rect_width bounds - size_width sz) div 2));
          y = sat_i32 (rect_y bounds + i32_from_u32 (sat_u32 (rect_height bounds - size_height sz) div 2))
      in Rect x y (size_width sz) (size_height sz))"

record grid_candidate =
  cand_columns :: nat
  cand_empty_cells :: nat
  cand_card_area :: u64

text \<open>The width of a track left by the gaps, shared by the candidate and the cells.\<close>

definition tracks_length :: "u32 \<Rightarrow> u32 \<Rightarrow> nat \<Rightarrow> u32" where
  "tracks_length len g cnt = sat_u32 (len - sat_u32 (g * sat_u32 (u32_of_count cnt - 1)))"

definition grid_candidate_new :: "size2 \<Rightarrow> u32 \<Rightarrow> nat \<Rightarrow> nat \<Rightarrow> grid_candidate" where
  "grid_candidate_new area g cnt columns =
     (let rows = nat_div_ceil cnt columns;
          gap_x = bounded_gap (size_width area) g columns;
          gap_y = bounded_gap (size_height area) g rows;
          w = tracks_length (size_width area) gap_x columns div max (u32_of_count columns) 1;
          h = tracks_length (size_height area) gap_y rows div max (u32_of_count rows) 1;
          card = fit_size area (Size w h)
      in \<lparr>cand_columns = columns, cand_empty_cells = columns * rows - cnt,
          cand_card_area = size_width card * size_height card\<rparr>)"

definition better_than :: "grid_candidate \<Rightarrow> grid_candidate \<Rightarrow> bool" where
  "better_than c current \<longleftrightarrow>
     cand_card_area c > cand_card_area current \<or>
     cand_card_area c = cand_card_area current \<and>
       (cand_empty_cells c < cand_empty_cells current \<or>
        cand_empty_cells c = cand_empty_cells current \<and> cand_columns c < cand_columns current)"

definition choose_columns :: "size2 \<Rightarrow> u32 \<Rightarrow> nat \<Rightarrow> nat" where
  "choose_columns area g cnt =
     cand_columns
       (foldl (\<lambda>best columns.
                 let candidate = grid_candidate_new area g cnt columns
                 in if better_than candidate best then candidate else best)
          (grid_candidate_new area g cnt 1) [2..<Suc cnt])"

text \<open>The two loops of \<open>workspace_cells\<close>; \<open>n\<close> counts the cells still to place, and reaching zero is
  the early return.\<close>

fun cells_row :: "u32 \<Rightarrow> i32 \<Rightarrow> u32 \<Rightarrow> u32 list \<Rightarrow> i32 \<Rightarrow> nat \<Rightarrow> rect list \<times> nat" where
  "cells_row g y h [] x n = ([], n)"
| "cells_row g y h (w # ws) x n =
     (if n = 0 then ([], 0)
      else let (cells, n') = cells_row g y h ws (sat_i32 (sat_i32 (x + i32_from_u32 w) + i32_from_u32 g)) (n - 1)
           in (Rect x y w h # cells, n'))"

fun cells_rows :: "u32 \<Rightarrow> u32 \<Rightarrow> u32 list \<Rightarrow> i32 \<Rightarrow> u32 list \<Rightarrow> i32 \<Rightarrow> nat \<Rightarrow> rect list" where
  "cells_rows gx gy ws x0 [] y n = []"
| "cells_rows gx gy ws x0 (h # hs) y n =
     (let (cells, n') = cells_row gx y h ws x0 n
      in cells @ cells_rows gx gy ws x0 hs (sat_i32 (sat_i32 (y + i32_from_u32 h) + i32_from_u32 gy)) n')"

definition workspace_cells :: "rect \<Rightarrow> u32 \<Rightarrow> nat \<Rightarrow> rect list" where
  "workspace_cells area requested_gap cnt =
     (if cnt = 0 then []
      else let columns = choose_columns (rect_size area) requested_gap cnt;
               rows = nat_div_ceil cnt columns;
               gap_x = bounded_gap (rect_width area) requested_gap columns;
               gap_y = bounded_gap (rect_height area) requested_gap rows;
               widths = split_evenly (tracks_length (rect_width area) gap_x columns) columns;
               heights = split_evenly (tracks_length (rect_height area) gap_y rows) rows
           in cells_rows gap_x gap_y widths (rect_x area) heights (rect_y area) cnt)"

definition transform_edge :: "i32 \<Rightarrow> i32 \<Rightarrow> u32 \<Rightarrow> i32 \<Rightarrow> u32 \<Rightarrow> bool \<Rightarrow> i32" where
  "transform_edge v source_origin source_length destination_origin destination_length ceil =
     (let numerator = (v - source_origin) * destination_length;
          denominator = max source_length 1;
          scaled = (if ceil then - ((- numerator) div denominator) else numerator div denominator)
      in i32_try_or_sign (destination_origin + scaled))"

definition transform_rect :: "rect \<Rightarrow> rect \<Rightarrow> rect \<Rightarrow> rect" where
  "transform_rect r source destination =
     (let left = transform_edge (rect_x r) (rect_x source) (rect_width source)
                   (rect_x destination) (rect_width destination) False;
          top = transform_edge (rect_y r) (rect_y source) (rect_height source)
                   (rect_y destination) (rect_height destination) False;
          right = transform_edge (rect_right r) (rect_x source) (rect_width source)
                   (rect_x destination) (rect_width destination) True;
          bottom = transform_edge (rect_bottom r) (rect_y source) (rect_height source)
                   (rect_y destination) (rect_height destination) True
      in Rect left top (u32_try_or_max (sat_i32 (right - left))) (u32_try_or_max (sat_i32 (bottom - top))))"

definition plan_view :: "rect \<Rightarrow> rect \<Rightarrow> overview_view \<Rightarrow> overview_view_plan option" where
  "plan_view area workspace_geometry view =
     (case ov_geometry view of
        None \<Rightarrow> None
      | Some source_geometry \<Rightarrow>
          (let geometry = transform_rect source_geometry area workspace_geometry
           in case rect_intersection geometry workspace_geometry of
                None \<Rightarrow> None
              | Some clip \<Rightarrow>
                  Some \<lparr>vp_id = ov_id view, vp_root = ov_root view, vp_source_geometry = source_geometry,
                        vp_geometry = geometry, vp_clip = clip\<rparr>))"

definition plan_workspace :: "rect \<Rightarrow> overview_source \<Rightarrow> rect \<Rightarrow> overview_workspace_plan" where
  "plan_workspace area source cell =
     (let workspace_geometry = fit_rect (rect_size area) cell
      in \<lparr>wp_id = source_id source, wp_geometry = workspace_geometry,
          wp_views = List.map_filter (plan_view area workspace_geometry) (source_views source)\<rparr>)"

definition overview_compile :: "rect \<Rightarrow> overview_options \<Rightarrow> overview_source list \<Rightarrow> overview_plan option" where
  "overview_compile area opts sources =
     (if rect_width area = 0 \<or> rect_height area = 0 then None
      else let content = inset_non_empty area (outer_gap opts);
               cells = workspace_cells content (workspace_gap opts) (length sources)
           in Some \<lparr>plan_area = area,
                    plan_workspaces = map (\<lambda>(source, cell). plan_workspace area source cell) (zip sources cells)\<rparr>)"

definition contains_point :: "rect \<Rightarrow> point \<Rightarrow> bool" where
  "contains_point r pt \<longleftrightarrow>
     point_x pt \<ge> rect_x r \<and> point_x pt < rect_right r \<and> point_y pt \<ge> rect_y r \<and> point_y pt < rect_bottom r"

fun hit_workspaces :: "point \<Rightarrow> overview_workspace_plan list \<Rightarrow> overview_hit option" where
  "hit_workspaces pt [] = None"
| "hit_workspaces pt (w # ws) =
     (if \<not> contains_point (wp_geometry w) pt then hit_workspaces pt ws
      else case find (\<lambda>v. contains_point (vp_clip v) pt) (rev (wp_views w)) of
             Some v \<Rightarrow> Some (HitView (wp_id w) (vp_id v) (vp_root v))
           | None \<Rightarrow> Some (HitWorkspace (wp_id w)))"

definition overview_hit_test :: "overview_plan \<Rightarrow> point \<Rightarrow> overview_hit option" where
  "overview_hit_test plan pt = hit_workspaces pt (rev (plan_workspaces plan))"

definition plan_workspace_by_id :: "overview_plan \<Rightarrow> workspace_id \<Rightarrow> overview_workspace_plan option" where
  "plan_workspace_by_id plan wid = find (\<lambda>w. wp_id w = wid) (plan_workspaces plan)"

section \<open>Boxes\<close>

text \<open>The rectangle lies in the box, with edges that do not saturate.\<close>

definition in_box :: "rect \<Rightarrow> int \<Rightarrow> int \<Rightarrow> int \<Rightarrow> int \<Rightarrow> bool" where
  "in_box r l t rt b \<longleftrightarrow> 0 \<le> rect_width r \<and> 0 \<le> rect_height r \<and> l \<le> rect_x r \<and> t \<le> rect_y r \<and>
     rect_x r + rect_width r \<le> rt \<and> rect_y r + rect_height r \<le> b"

definition inside :: "rect \<Rightarrow> rect \<Rightarrow> bool" where
  "inside outer r \<longleftrightarrow> in_box r (rect_x outer) (rect_y outer)
     (rect_x outer + rect_width outer) (rect_y outer + rect_height outer)"

text \<open>The first rectangle ends before the second begins, in one of the axes.\<close>

definition separate :: "rect \<Rightarrow> rect \<Rightarrow> bool" where
  "separate a b \<longleftrightarrow> rect_x a + rect_width a \<le> rect_x b \<or> rect_y a + rect_height a \<le> rect_y b"

text \<open>An output rectangle of realistic size: up to \<open>2 ^ 29\<close> pixels in each axis, placed where no
  edge saturates.\<close>

definition plane_ok :: "rect \<Rightarrow> bool" where
  "plane_ok r \<longleftrightarrow>
     - 536870912 \<le> rect_x r \<and> 0 < rect_width r \<and> rect_width r \<le> 536870912 \<and> rect_x r + rect_width r \<le> 1073741824 \<and>
     - 536870912 \<le> rect_y r \<and> 0 < rect_height r \<and> rect_height r \<le> 536870912 \<and> rect_y r + rect_height r \<le> 1073741824"

lemma in_box_mono:
  "in_box r l t rt b \<Longrightarrow> l' \<le> l \<Longrightarrow> t' \<le> t \<Longrightarrow> rt \<le> rt' \<Longrightarrow> b \<le> b' \<Longrightarrow> in_box r l' t' rt' b'"
  by (simp add: in_box_def)

lemma inside_trans: "inside a b \<Longrightarrow> inside b c \<Longrightarrow> inside a c"
  by (auto simp: inside_def in_box_def)

lemma separate_inside:
  "separate a b \<Longrightarrow> inside a a' \<Longrightarrow> inside b b' \<Longrightarrow> separate a' b'"
  by (auto simp: separate_def inside_def in_box_def)

lemma inside_plane_edges:
  assumes "plane_ok area" "inside area r"
  shows "rect_ok r" "rect_right r = rect_x r + rect_width r" "rect_bottom r = rect_y r + rect_height r"
  using assms
  by (auto simp: plane_ok_def inside_def in_box_def rect_ok_def rect_right_def rect_bottom_def machine)

lemma plane_self: "plane_ok area \<Longrightarrow> inside area area"
  by (simp add: plane_ok_def inside_def in_box_def)

section \<open>Cards\<close>

lemma inset_non_empty_inside:
  assumes "plane_ok area" "0 \<le> req"
  shows "inside area (inset_non_empty area req)" "plane_ok (inset_non_empty area req)"
proof -
  define h v where "h = min req ((rect_width area - 1) div 2)" and "v = min req ((rect_height area - 1) div 2)"
  have hv: "0 \<le> h" "2 * h < rect_width area" "0 \<le> v" "2 * v < rect_height area"
    using assms by (auto simp: h_def v_def plane_ok_def min_def)
  have "sat_u32 (rect_width area - 1) = rect_width area - 1" "sat_u32 (rect_height area - 1) = rect_height area - 1"
    using assms(1) by (simp_all add: plane_ok_def machine)
  then have "inset_non_empty area req = Rect (sat_i32 (rect_x area + i32_from_u32 h)) (sat_i32 (rect_y area + i32_from_u32 v))
      (sat_u32 (rect_width area - sat_u32 (h * 2))) (sat_u32 (rect_height area - sat_u32 (v * 2)))"
    by (simp add: inset_non_empty_def Let_def h_def v_def)
  also have "\<dots> = Rect (rect_x area + h) (rect_y area + v) (rect_width area - 2 * h) (rect_height area - 2 * v)"
    using hv assms(1) by (simp add: plane_ok_def machine)
  finally have eq: "inset_non_empty area req = \<dots>" .
  show "inside area (inset_non_empty area req)" "plane_ok (inset_non_empty area req)"
    using hv assms(1) by (simp_all add: eq inside_def in_box_def plane_ok_def)
qed

lemma bounded_gap_bounds:
  assumes "0 \<le> len" "0 \<le> req" "1 \<le> cnt" "int cnt < U32_MAX" "len \<le> I32_MAX"
  shows "0 \<le> bounded_gap len req cnt" "bounded_gap len req cnt * (int cnt - 1) \<le> len"
    "bounded_gap len req cnt \<le> len"
proof -
  have "0 \<le> bounded_gap len req cnt \<and> bounded_gap len req cnt * (int cnt - 1) \<le> len \<and> bounded_gap len req cnt \<le> len"
  proof (cases "cnt \<le> 1")
    case True
    then show ?thesis using assms by (simp add: bounded_gap_def)
  next
    case False
    define m where "m = int cnt - 1"
    define d where "d = max 0 (len - int cnt)"
    have m: "1 \<le> m" using False by (simp add: m_def)
    have n: "u32_of_count cnt = int cnt" using assms(4) by (simp add: u32_of_count_def)
    have sat: "sat_u32 (len - int cnt) = d" "max (sat_u32 (int cnt - 1)) 1 = m"
      using assms False by (simp_all add: machine m_def d_def)
    have g: "bounded_gap len req cnt = min req (d div m)"
      using False by (simp add: bounded_gap_def Let_def n sat)
    have d: "0 \<le> d" "d \<le> len" using assms(1) by (simp_all add: d_def)
    have q: "0 \<le> d div m" using d(1) m by (simp add: pos_imp_zdiv_nonneg_iff)
    have dm: "d div m * m \<le> d" using minus_mod_eq_div_mult[of d m] pos_mod_sign[of m d] m by linarith
    have "d div m * 1 \<le> d div m * m" using q m by (intro mult_left_mono) simp_all
    moreover have "min req (d div m) * m \<le> d div m * m" using m by (intro mult_right_mono) simp_all
    ultimately have "0 \<le> min req (d div m)" "min req (d div m) * m \<le> len" "min req (d div m) \<le> len"
      using q dm d assms(2) by linarith+
    then show ?thesis by (simp add: g m_def[symmetric])
  qed
  then show "0 \<le> bounded_gap len req cnt" "bounded_gap len req cnt * (int cnt - 1) \<le> len"
    "bounded_gap len req cnt \<le> len" by auto
qed

lemma tracks_props:
  assumes "0 < len" "0 \<le> req" "1 \<le> cnt" "int cnt < U32_MAX" "len \<le> 536870912"
  defines "g \<equiv> bounded_gap len req cnt"
  defines "ws \<equiv> split_evenly (tracks_length len g cnt) cnt"
  shows "\<forall>w \<in> set ws. 0 \<le> w" "track_end ws g x = x + len + g" "length ws = cnt" "0 \<le> g" "g \<le> len"
proof -
  note b = bounded_gap_bounds[of len req cnt, folded g_def]
  have g: "0 \<le> g" "g * (int cnt - 1) \<le> len" "g \<le> len" using b assms by simp_all
  define n where "n = g * (int cnt - 1)"
  have n: "0 \<le> n" "n \<le> len" using g assms(3) by (simp_all add: n_def)
  have cnt: "u32_of_count cnt = int cnt" "sat_u32 (int cnt - 1) = int cnt - 1"
    using assms(3,4) by (simp_all add: u32_of_count_def machine)
  have tl: "tracks_length len g cnt = len - n"
    unfolding tracks_length_def cnt n_def[symmetric] using n assms(5) by (simp add: machine)
  have nn: "0 \<le> len - n" "cnt \<noteq> 0" using n assms(3) by simp_all
  show "\<forall>w \<in> set ws. 0 \<le> w" using split_evenly_range(1)[OF nn(1)] by (simp add: ws_def tl)
  show l: "length ws = cnt" using assms(4) by (simp add: ws_def)
  show "track_end ws g x = x + len + g"
    using sum_list_split_evenly[OF nn] l by (simp add: track_end_eq ws_def tl n_def algebra_simps)
  show "0 \<le> g" "g \<le> len" by (fact g)+
qed

lemma cells_row_spec:
  assumes "\<forall>w \<in> set ws. 0 \<le> w" "0 \<le> g" "span_ok x (track_end ws g x)" "0 \<le> h"
  shows "(\<forall>c \<in> set (fst (cells_row g y h ws x n)). in_box c x y (track_end ws g x - g) (y + h)) \<and>
         sorted_wrt separate (fst (cells_row g y h ws x n)) \<and>
         length (fst (cells_row g y h ws x n)) = min n (length ws) \<and>
         snd (cells_row g y h ws x n) = n - length ws"
  using assms
proof (induction g y h ws x n rule: cells_row.induct)
  case (2 g y h w ws x n)
  show ?case
  proof (cases "n = 0")
    case False
    have w: "0 \<le> w" "\<forall>v \<in> set ws. 0 \<le> v" using "2.prems"(1) by simp_all
    note st = span_step[OF "2.prems"(3) w(1) "2.prems"(2) w(2)]
    note step = st(1)[unfolded add_offset_def]
    define row where "row = cells_row g y h ws (x + w + g) (n - 1)"
    have IH: "(\<forall>c \<in> set (fst row). in_box c (x + w + g) y (track_end ws g (x + w + g) - g) (y + h)) \<and>
        sorted_wrt separate (fst row) \<and> length (fst row) = min (n - 1) (length ws) \<and> snd row = n - 1 - length ws"
      unfolding row_def using "2.IH"[OF False, unfolded step] st(2) w(2) "2.prems"(2,4) by simp
    have eq: "cells_row g y h (w # ws) x n = (Rect x y w h # fst row, snd row)"
      using False by (simp add: Let_def case_prod_beta step row_def)
    have "\<forall>c \<in> set (fst row). separate (Rect x y w h) c"
      using IH "2.prems"(2) by (auto simp: separate_def in_box_def)
    moreover have "in_box (Rect x y w h) x y (track_end ws g (x + w + g) - g) (y + h)"
      using w(1) "2.prems"(4) st(5) by (simp add: in_box_def)
    moreover have "\<forall>c \<in> set (fst row). in_box c x y (track_end ws g (x + w + g) - g) (y + h)"
      using IH w(1) "2.prems"(2) by (auto intro: in_box_mono)
    ultimately show ?thesis using IH False unfolding eq by auto
  qed simp
qed simp

lemma cells_rows_spec:
  assumes "\<forall>w \<in> set ws. 0 \<le> w" "0 \<le> gx" "span_ok x0 (track_end ws gx x0)"
    and "\<forall>h \<in> set hs. 0 \<le> h" "0 \<le> gy" "span_ok y (track_end hs gy y)"
  shows "(\<forall>c \<in> set (cells_rows gx gy ws x0 hs y n). in_box c x0 y (track_end ws gx x0 - gx) (track_end hs gy y - gy)) \<and>
         sorted_wrt separate (cells_rows gx gy ws x0 hs y n) \<and>
         length (cells_rows gx gy ws x0 hs y n) = min n (length hs * length ws)"
  using assms(4,6)
proof (induction hs arbitrary: y n)
  case (Cons h hs)
  have h: "0 \<le> h" "\<forall>v \<in> set hs. 0 \<le> v" using Cons.prems(1) by simp_all
  note st = span_step[OF Cons.prems(2) h(1) assms(5) h(2)]
  note step = st(1)[unfolded add_offset_def]
  define row where "row = cells_row gx y h ws x0 n"
  define rest where "rest = cells_rows gx gy ws x0 hs (y + h + gy) (n - length ws)"
  have row: "(\<forall>c \<in> set (fst row). in_box c x0 y (track_end ws gx x0 - gx) (y + h)) \<and>
      sorted_wrt separate (fst row) \<and> length (fst row) = min n (length ws) \<and> snd row = n - length ws"
    unfolding row_def by (rule cells_row_spec[OF assms(1-3) h(1)])
  have IH: "(\<forall>c \<in> set rest. in_box c x0 (y + h + gy) (track_end ws gx x0 - gx) (track_end hs gy (y + h + gy) - gy)) \<and>
      sorted_wrt separate rest \<and> length rest = min (n - length ws) (length hs * length ws)"
    unfolding rest_def by (rule Cons.IH[OF h(2) st(2)])
  have eq: "cells_rows gx gy ws x0 (h # hs) y n = fst row @ rest"
    using row by (simp add: Let_def case_prod_beta step row_def rest_def)
  have "\<forall>a \<in> set (fst row). \<forall>b \<in> set rest. separate a b"
    using row IH assms(5) by (fastforce simp: separate_def in_box_def)
  moreover have "\<forall>c \<in> set (fst row). in_box c x0 y (track_end ws gx x0 - gx) (track_end hs gy (y + h + gy) - gy)"
    using row st(5) by (auto intro: in_box_mono)
  moreover have "\<forall>c \<in> set rest. in_box c x0 y (track_end ws gx x0 - gx) (track_end hs gy (y + h + gy) - gy)"
    using IH h(1) assms(5) by (auto intro: in_box_mono)
  ultimately show ?case using row IH unfolding eq by (auto simp: sorted_wrt_append)
qed simp

lemma choose_columns_range:
  assumes "1 \<le> cnt"
  shows "1 \<le> choose_columns area g cnt \<and> choose_columns area g cnt \<le> cnt"
proof -
  define F where "F = (\<lambda>best columns. let candidate = grid_candidate_new area g cnt columns
    in if better_than candidate best then candidate else best)"
  have "cand_columns (foldl F b cs) \<in> insert (cand_columns b) (set cs)" for b cs
  proof (induction cs arbitrary: b)
    case (Cons k cs)
    have "cand_columns (F b k) \<in> {k, cand_columns b}" by (simp add: F_def grid_candidate_new_def Let_def)
    with Cons.IH[of "F b k"] show ?case by auto
  qed simp
  from this[of "grid_candidate_new area g cnt 1" "[2..<Suc cnt]"]
  have "choose_columns area g cnt \<in> insert 1 {2..<Suc cnt}"
    unfolding choose_columns_def F_def[symmetric] set_upt
    by (simp add: grid_candidate_new_def Let_def del: upt_Suc)
  with assms show ?thesis by auto
qed

lemma workspace_cells_spec:
  assumes "plane_ok area" "0 \<le> g" "int cnt < U32_MAX"
  shows "length (workspace_cells area g cnt) = cnt \<and> sorted_wrt separate (workspace_cells area g cnt) \<and>
         (\<forall>c \<in> set (workspace_cells area g cnt). inside area c)"
proof (cases "cnt = 0")
  case True
  then show ?thesis by (simp add: workspace_cells_def)
next
  case False
  define columns where "columns = choose_columns (rect_size area) g cnt"
  define rows where "rows = nat_div_ceil cnt columns"
  have c: "1 \<le> columns" "columns \<le> cnt"
    using choose_columns_range[of cnt] False by (simp_all add: columns_def Suc_le_eq)
  have r: "1 \<le> rows" "rows \<le> cnt" "cnt \<le> rows * columns"
    using nat_div_ceil_bounds[OF c(1), of cnt] False by (simp_all add: rows_def)
  have lim: "int columns < U32_MAX" "int rows < U32_MAX" using c r assms(3) by linarith+
  have area: "0 < rect_width area" "rect_width area \<le> 536870912" "0 < rect_height area" "rect_height area \<le> 536870912"
    using assms(1) by (simp_all add: plane_ok_def)
  note wp = tracks_props[OF area(1) assms(2) c(1) lim(1) area(2)]
  note hp = tracks_props[OF area(3) assms(2) r(1) lim(2) area(4)]
  define gx where "gx = bounded_gap (rect_width area) g columns"
  define gy where "gy = bounded_gap (rect_height area) g rows"
  define ws where "ws = split_evenly (tracks_length (rect_width area) gx columns) columns"
  define hs where "hs = split_evenly (tracks_length (rect_height area) gy rows) rows"
  note wp' = wp[folded gx_def, folded ws_def] and hp' = hp[folded gy_def, folded hs_def]
  have spans: "span_ok (rect_x area) (track_end ws gx (rect_x area))"
    "span_ok (rect_y area) (track_end hs gy (rect_y area))"
    using wp'(4,5) hp'(4,5) assms(1) by (simp_all add: wp'(2) hp'(2) span_ok_def plane_ok_def is_i32_def)
  have eq: "workspace_cells area g cnt = cells_rows gx gy ws (rect_x area) hs (rect_y area) cnt"
    using False by (simp add: workspace_cells_def Let_def columns_def rows_def gx_def gy_def ws_def hs_def)
  have le: "min cnt (rows * columns) = cnt" using r(3) by simp
  show ?thesis
    using cells_rows_spec[OF wp'(1,4) spans(1) hp'(1,4) spans(2), of cnt]
    by (simp add: eq wp'(2,3) hp'(2,3) inside_def le)
qed

lemma scale_unsigned_le:
  assumes "0 \<le> v" "0 \<le> n" "0 < d" "v \<le> U32_MAX" "n \<le> U32_MAX" "v * n \<le> b * d" "b \<le> U32_MAX"
  shows "scale_unsigned v n d = v * n div d" "0 \<le> v * n div d" "v * n div d \<le> b"
proof -
  have nn: "0 \<le> v * n" using assms(1,2) by simp
  have "v * n \<le> 4294967295 * 4294967295" using assms by (intro mult_mono) simp_all
  then have s: "sat_u64 (v * n) = v * n" using nn by (simp add: machine)
  show q: "0 \<le> v * n div d" using nn assms(3) by (simp add: pos_imp_zdiv_nonneg_iff)
  show le: "v * n div d \<le> b"
    using zdiv_mono1[OF assms(6,3)] assms(3) by simp
  have "max d 1 = d" using assms(3) by simp
  with q le assms(7) show "scale_unsigned v n d = v * n div d"
    by (simp add: scale_unsigned_def s u32_try_or_max_def)
qed

lemma fit_size_bounds:
  assumes "0 < size_width a" "0 < size_height a" "size_width a \<le> U32_MAX" "size_height a \<le> U32_MAX"
    and "0 \<le> size_width b" "0 \<le> size_height b" "size_width b \<le> U32_MAX" "size_height b \<le> U32_MAX"
  shows "0 \<le> size_width (fit_size a b)" "size_width (fit_size a b) \<le> size_width b"
    "0 \<le> size_height (fit_size a b)" "size_height (fit_size a b) \<le> size_height b"
proof -
  have "0 \<le> size_width (fit_size a b) \<and> size_width (fit_size a b) \<le> size_width b \<and>
    0 \<le> size_height (fit_size a b) \<and> size_height (fit_size a b) \<le> size_height b"
  proof (cases "size_width b = 0 \<or> size_height b = 0")
    case True
    then show ?thesis using assms by (auto simp: fit_size_def)
  next
    case False
    then have b: "1 \<le> size_width b" "1 \<le> size_height b" using assms(5,6) by auto
    show ?thesis
    proof (cases "size_width b * size_height a \<le> size_height b * size_width a")
      case True
      with scale_unsigned_le[of "size_height a" "size_width b" "size_width a" "size_height b"] assms b False
      show ?thesis by (simp add: fit_size_def mult.commute)
    next
      case wide: False
      then have "size_width a * size_height b \<le> size_width b * size_height a" by (simp add: mult.commute)
      with scale_unsigned_le[of "size_width a" "size_height b" "size_height a" "size_width b"] assms b False wide
      show ?thesis by (simp add: fit_size_def mult.commute)
    qed
  qed
  then show "0 \<le> size_width (fit_size a b)" "size_width (fit_size a b) \<le> size_width b"
    "0 \<le> size_height (fit_size a b)" "size_height (fit_size a b) \<le> size_height b" by auto
qed

lemma fit_rect_inside:
  assumes "plane_ok area" "inside area cell"
  shows "inside cell (fit_rect (rect_size area) cell)"
proof -
  define sz where "sz = fit_size (rect_size area) (rect_size cell)"
  have cell: "0 \<le> rect_width cell" "0 \<le> rect_height cell" "rect_width cell \<le> 536870912"
    "rect_height cell \<le> 536870912" "- 536870912 \<le> rect_x cell" "rect_x cell + rect_width cell \<le> 1073741824"
    "- 536870912 \<le> rect_y cell" "rect_y cell + rect_height cell \<le> 1073741824"
    using assms by (auto simp: plane_ok_def inside_def in_box_def)
  have sz: "0 \<le> size_width sz" "size_width sz \<le> rect_width cell" "0 \<le> size_height sz" "size_height sz \<le> rect_height cell"
    using fit_size_bounds[of "rect_size area" "rect_size cell"] assms(1) cell
    by (simp_all add: sz_def rect_size_def plane_ok_def)
  define dx dy where "dx = (rect_width cell - size_width sz) div 2" and "dy = (rect_height cell - size_height sz) div 2"
  have d: "0 \<le> dx" "2 * dx \<le> rect_width cell - size_width sz" "0 \<le> dy" "2 * dy \<le> rect_height cell - size_height sz"
    using sz by (auto simp: dx_def dy_def)
  have sat: "sat_u32 (rect_width cell - size_width sz) = rect_width cell - size_width sz"
    "sat_u32 (rect_height cell - size_height sz) = rect_height cell - size_height sz"
    using sz cell by (simp_all add: machine)
  have "fit_rect (rect_size area) cell =
      Rect (sat_i32 (rect_x cell + i32_from_u32 dx)) (sat_i32 (rect_y cell + i32_from_u32 dy)) (size_width sz) (size_height sz)"
    by (simp add: fit_rect_def Let_def sz_def[symmetric] sat dx_def dy_def)
  also have "\<dots> = Rect (rect_x cell + dx) (rect_y cell + dy) (size_width sz) (size_height sz)"
    using d sz cell by (simp add: machine)
  finally show ?thesis using d sz by (simp add: inside_def in_box_def)
qed

text \<open>What a compiled plan consists of.\<close>

lemma overview_compile_Some:
  assumes "overview_compile area opts sources = Some plan"
  shows "plan_area plan = area"
    "plan_workspaces plan = map (\<lambda>(source, cell). plan_workspace area source cell)
       (zip sources (workspace_cells (inset_non_empty area (outer_gap opts)) (workspace_gap opts) (length sources)))"
  using assms by (auto simp: overview_compile_def Let_def split: if_splits)

definition overview_ok :: "rect \<Rightarrow> overview_options \<Rightarrow> overview_source list \<Rightarrow> bool" where
  "overview_ok area opts sources \<longleftrightarrow>
     plane_ok area \<and> 0 \<le> outer_gap opts \<and> 0 \<le> workspace_gap opts \<and> int (length sources) < U32_MAX"

lemma overview_cells:
  assumes "overview_ok area opts sources"
  defines "cells \<equiv> workspace_cells (inset_non_empty area (outer_gap opts)) (workspace_gap opts) (length sources)"
  shows "length cells = length sources" "sorted_wrt separate cells" "\<forall>c \<in> set cells. inside area c"
  using workspace_cells_spec[of "inset_non_empty area (outer_gap opts)" "workspace_gap opts" "length sources"]
    inset_non_empty_inside[of area "outer_gap opts"] assms(1) inside_trans
  unfolding cells_def overview_ok_def by blast+

lemma sorted_wrt_map2_inside:
  assumes "sorted_wrt separate cells" "\<forall>c \<in> set cells. inside c (f c)"
  shows "sorted_wrt separate (map f cells)"
  unfolding sorted_wrt_map by (rule sorted_wrt_mono_rel[OF _ assms(1)]) (use assms(2) separate_inside in blast)

text \<open>C34. The cards of the overview never overlap and stay inside the area: there is one per workspace,
  in the order of the workspaces, and no two share a pixel.\<close>

theorem overview_cards_disjoint:
  assumes "overview_ok area opts sources" "overview_compile area opts sources = Some plan"
  shows "map wp_id (plan_workspaces plan) = map source_id sources \<and>
         sorted_wrt (\<lambda>a b. pixel_set (wp_geometry a) \<inter> pixel_set (wp_geometry b) = {}) (plan_workspaces plan) \<and>
         (\<forall>w \<in> set (plan_workspaces plan). inside area (wp_geometry w))"
proof -
  define cells where "cells = workspace_cells (inset_non_empty area (outer_gap opts)) (workspace_gap opts) (length sources)"
  note c = overview_cells[OF assms(1), folded cells_def]
  have area: "plane_ok area" using assms(1) by (simp add: overview_ok_def)
  have ws: "plan_workspaces plan = map (\<lambda>(source, cell). plan_workspace area source cell) (zip sources cells)"
    using overview_compile_Some(2)[OF assms(2)] by (simp add: cells_def)
  have ids: "map wp_id (plan_workspaces plan) = map source_id sources"
  proof -
    have "map wp_id (plan_workspaces plan) = map source_id (map fst (zip sources cells))"
      by (simp add: ws plan_workspace_def Let_def case_prod_beta)
    then show ?thesis using c(1) by simp
  qed
  have geo: "map wp_geometry (plan_workspaces plan) = map (fit_rect (rect_size area)) cells"
  proof -
    have "map wp_geometry (plan_workspaces plan) = map (fit_rect (rect_size area)) (map snd (zip sources cells))"
      by (simp add: ws plan_workspace_def Let_def case_prod_beta)
    then show ?thesis using c(1) by simp
  qed
  have fit: "\<forall>c \<in> set cells. inside c (fit_rect (rect_size area) c)" using fit_rect_inside[OF area] c(3) by blast
  have all: "\<forall>g \<in> set (map wp_geometry (plan_workspaces plan)). inside area g"
    unfolding geo using c(3) fit inside_trans by auto
  have disj: "pixel_set a \<inter> pixel_set b = {}" if "separate a b" "inside area a" "inside area b" for a b
    using that inside_plane_edges[OF area] by (auto simp: separate_def pixel_set_def)
  have "sorted_wrt separate (map wp_geometry (plan_workspaces plan))"
    unfolding geo by (rule sorted_wrt_map2_inside[OF c(2) fit])
  then have "sorted_wrt (\<lambda>a b. pixel_set (wp_geometry a) \<inter> pixel_set (wp_geometry b) = {}) (plan_workspaces plan)"
    unfolding sorted_wrt_map by (rule sorted_wrt_mono_rel[rotated]) (use all disj in simp)
  with ids all show ?thesis by simp
qed

definition quad :: "overview_source list" where
  "quad = map (\<lambda>i. \<lparr>source_id = i, source_views = []\<rparr>) [1, 2, 3, 4]"

theorem overview_cards_disjoint_witness:
  "\<exists>plan. overview_compile desk default_overview_options quad = Some plan \<and>
     map wp_id (plan_workspaces plan) = [1, 2, 3, 4] \<and>
     sorted_wrt (\<lambda>a b. pixel_set (wp_geometry a) \<inter> pixel_set (wp_geometry b) = {}) (plan_workspaces plan)"
proof -
  have ok: "overview_ok desk default_overview_options quad"
    by (simp add: overview_ok_def plane_ok_def desk_def default_overview_options_def quad_def)
  obtain plan where plan: "overview_compile desk default_overview_options quad = Some plan"
    by (simp add: overview_compile_def desk_def Let_def)
  from overview_cards_disjoint[OF ok plan] plan show ?thesis by (auto simp: quad_def)
qed

section \<open>Windows in their card\<close>

lemma transform_edge_exact:
  assumes "0 < sl" "0 \<le> dl" "so \<le> v" "v \<le> so + sl" "- 536870912 \<le> d" "d + dl \<le> 1073741824"
  shows "transform_edge v so sl d dl False = d + (v - so) * dl div sl"
    "transform_edge v so sl d dl True = d - (- ((v - so) * dl)) div sl"
    "0 \<le> (v - so) * dl div sl" "- ((- ((v - so) * dl)) div sl) \<le> dl"
proof -
  have n: "0 \<le> (v - so) * dl" using assms by simp
  have "(v - so) * dl \<le> sl * dl" using assms by (intro mult_right_mono) simp_all
  then have f: "(v - so) * dl div sl \<le> sl * dl div sl" and c: "(- (sl * dl)) div sl \<le> (- ((v - so) * dl)) div sl"
    using assms(1) by (intro zdiv_mono1; simp)+
  have lo: "0 \<le> (v - so) * dl div sl" using n assms(1) by (simp add: pos_imp_zdiv_nonneg_iff)
  have "(- ((v - so) * dl)) div sl \<le> 0 div sl" using n assms(1) by (intro zdiv_mono1) simp_all
  then have c0: "(- ((v - so) * dl)) div sl \<le> 0" by simp
  have "(- (sl * dl)) div sl = - dl" using assms(1) by (metis mult_minus_right nonzero_mult_div_cancel_left less_irrefl)
  then have c1: "- ((- ((v - so) * dl)) div sl) \<le> dl" using c by linarith
  have f1: "(v - so) * dl div sl \<le> dl" using f assms(1) by simp
  have sl: "max sl 1 = sl" using assms(1) by simp
  show "transform_edge v so sl d dl False = d + (v - so) * dl div sl"
    using lo f1 assms(5,6) by (simp add: transform_edge_def Let_def sl i32_try_or_sign_def)
  show "transform_edge v so sl d dl True = d - (- ((v - so) * dl)) div sl"
    using c0 c1 assms(5,6) unfolding transform_edge_def Let_def sl i32_try_or_sign_def by simp
  show "0 \<le> (v - so) * dl div sl" by (rule lo)
  show "- ((- ((v - so) * dl)) div sl) \<le> dl" by (rule c1)
qed

text \<open>A non-empty interval stays non-empty: rounding the near edge down and the far edge up.\<close>

lemma floor_less_ceil:
  assumes "(n :: int) < m" "0 < s"
  shows "n div s < - ((- m) div s)"
proof -
  have "n div s * s \<le> n" using minus_mod_eq_div_mult[of n s] pos_mod_sign[of s n] assms(2) by linarith
  moreover have "(- m) div s * s \<le> - m" using minus_mod_eq_div_mult[of "- m" s] pos_mod_sign[of s "- m"] assms(2) by linarith
  ultimately have "n div s * s < - ((- m) div s) * s" using assms(1) by simp
  then show ?thesis by (rule mult_right_less_imp_less) (use assms(2) in simp)
qed

lemma transform_edges:
  assumes "0 < sl" "0 < dl" "so \<le> a" "a < b" "b \<le> so + sl" "- 536870912 \<le> d" "d + dl \<le> 1073741824"
  shows "d \<le> transform_edge a so sl d dl False"
    "transform_edge a so sl d dl False < transform_edge b so sl d dl True"
    "transform_edge b so sl d dl True \<le> d + dl"
proof -
  note ea = transform_edge_exact[of sl dl so a d] and eb = transform_edge_exact[of sl dl so b d]
  show "d \<le> transform_edge a so sl d dl False" using ea(1,3) assms by simp
  show "transform_edge b so sl d dl True \<le> d + dl" using eb(2,4) assms by simp
  have "(a - so) * dl < (b - so) * dl" using assms by simp
  from floor_less_ceil[OF this assms(1)]
  show "transform_edge a so sl d dl False < transform_edge b so sl d dl True"
    using ea(1) eb(2) assms by simp
qed

lemma transform_rect_inside:
  assumes "plane_ok area" "inside area dest" "0 < rect_width dest" "0 < rect_height dest"
    and "rect_contains_rect area r" "rect_x r < rect_right r" "rect_y r < rect_bottom r"
  shows "inside dest (transform_rect r area dest)" "0 < rect_width (transform_rect r area dest)"
    "0 < rect_height (transform_rect r area dest)"
proof -
  have ar: "rect_right area = rect_x area + rect_width area" "rect_bottom area = rect_y area + rect_height area"
    using inside_plane_edges[OF assms(1) plane_self[OF assms(1)]] by auto
  have c: "rect_x area \<le> rect_x r" "rect_y area \<le> rect_y r" "rect_right r \<le> rect_x area + rect_width area"
    "rect_bottom r \<le> rect_y area + rect_height area"
    using assms(5) ar by (simp_all add: rect_contains_rect_def)
  have a: "0 < rect_width area" "0 < rect_height area" "- 536870912 \<le> rect_x dest" "- 536870912 \<le> rect_y dest"
    "rect_x dest + rect_width dest \<le> 1073741824" "rect_y dest + rect_height dest \<le> 1073741824"
    using assms(1,2) by (auto simp: plane_ok_def inside_def in_box_def)
  note ex = transform_edges[OF a(1) assms(3) c(1) assms(6) c(3) a(3) a(5)]
  note ey = transform_edges[OF a(2) assms(4) c(2) assms(7) c(4) a(4) a(6)]
  have w: "u32_try_or_max (sat_i32 (q - p)) = q - p" if "- 536870912 \<le> p" "p < q" "q \<le> 1073741824" for p q
    using that by (simp add: machine)
  show "inside dest (transform_rect r area dest)" "0 < rect_width (transform_rect r area dest)"
    "0 < rect_height (transform_rect r area dest)"
    using ex ey a w[OF _ ex(2)] w[OF _ ey(2)] by (simp_all add: transform_rect_def Let_def inside_def in_box_def)
qed

lemma rect_intersection_inside:
  assumes "plane_ok area" "inside area b" "inside b a" "0 < rect_width a" "0 < rect_height a"
  shows "rect_intersection a b = Some a"
proof -
  note eb = inside_plane_edges[OF assms(1,2)] and ea = inside_plane_edges[OF assms(1) inside_trans[OF assms(2,3)]]
  have i: "rect_x b \<le> rect_x a" "rect_y b \<le> rect_y a" "rect_x a + rect_width a \<le> rect_x b + rect_width b"
    "rect_y a + rect_height a \<le> rect_y b + rect_height b"
    using assms(3) by (simp_all add: inside_def in_box_def)
  have lim: "as_u32 (rect_width a) = rect_width a" "as_u32 (rect_height a) = rect_height a"
    using ea(1) by (simp_all add: as_u32_exact rect_ok_def is_u32_def)
  show ?thesis using i lim assms(4,5) by (simp add: rect_intersection_def Let_def ea(2,3) eb(2,3) max_def min_def)
qed

text \<open>C35. No window is lost in the overview: a non-empty window that lies on the output appears in the
  card of its workspace whenever the card is not empty, with its own identity, non-empty, inside
  the card and therefore unclipped.\<close>

theorem overview_window_shown:
  assumes "overview_ok area opts sources" "overview_compile area opts sources = Some plan"
    and "i < length sources" "v \<in> set (source_views (sources ! i))" "ov_geometry v = Some r"
    and "rect_contains_rect area r" "rect_x r < rect_right r" "rect_y r < rect_bottom r"
    and "0 < rect_width (wp_geometry (plan_workspaces plan ! i))"
    and "0 < rect_height (wp_geometry (plan_workspaces plan ! i))"
  shows "\<exists>p \<in> set (wp_views (plan_workspaces plan ! i)).
           vp_id p = ov_id v \<and> vp_root p = ov_root v \<and> vp_source_geometry p = r \<and>
           vp_clip p = vp_geometry p \<and> 0 < rect_width (vp_clip p) \<and> 0 < rect_height (vp_clip p) \<and>
           inside (wp_geometry (plan_workspaces plan ! i)) (vp_clip p)"
proof -
  have area: "plane_ok area" using assms(1) by (simp add: overview_ok_def)
  note cells = overview_cells[OF assms(1)]
  obtain cell where cell: "plan_workspaces plan ! i = plan_workspace area (sources ! i) cell" "inside area cell"
    using overview_compile_Some(2)[OF assms(2)] cells assms(3) by (auto simp: nth_mem)
  define dest where "dest = fit_rect (rect_size area) cell"
  have dest: "wp_geometry (plan_workspaces plan ! i) = dest" "inside area dest"
    using fit_rect_inside[OF area cell(2)] inside_trans cell by (auto simp: dest_def plan_workspace_def Let_def)
  define g where "g = transform_rect r area dest"
  note t = transform_rect_inside[OF area dest(2) _ _ assms(6-8), folded g_def]
  have pos: "0 < rect_width dest" "0 < rect_height dest" using assms(9,10) dest(1) by simp_all
  have "rect_intersection g dest = Some g"
    using t pos by (intro rect_intersection_inside[OF area dest(2)]) simp_all
  then have "plan_view area dest v = Some \<lparr>vp_id = ov_id v, vp_root = ov_root v, vp_source_geometry = r,
      vp_geometry = g, vp_clip = g\<rparr>"
    by (simp add: plan_view_def assms(5) Let_def flip: g_def)
  then have "\<lparr>vp_id = ov_id v, vp_root = ov_root v, vp_source_geometry = r, vp_geometry = g, vp_clip = g\<rparr>
      \<in> set (wp_views (plan_workspaces plan ! i))"
    using assms(4) by (force simp: cell(1) plan_workspace_def Let_def map_filter_def dest_def)
  then show ?thesis using t pos dest(1) by (intro bexI) simp_all
qed

definition terminal_view :: overview_view where
  "terminal_view = \<lparr>ov_id = 7, ov_root = 7, ov_geometry = Some (Rect 0 0 500 300), ov_focused = True,
     ov_kind = OverviewTiled, ov_stacking = 1\<rparr>"

definition single :: "overview_source list" where
  "single = [\<lparr>source_id = 1, source_views = [terminal_view]\<rparr>]"

lemma single_cells: "workspace_cells (inset_non_empty desk 24) 16 1 = [Rect 24 24 952 552]"
proof -
  have "choose_columns s g 1 = 1" for s g by (simp add: choose_columns_def grid_candidate_new_def Let_def)
  then show ?thesis
    by (simp add: workspace_cells_def inset_non_empty_def desk_def nat_div_ceil_def bounded_gap_def
        tracks_length_def u32_of_count_def split_evenly_def Let_def machine)
qed

lemma single_card:
  "\<exists>plan. overview_compile desk default_overview_options single = Some plan \<and>
     plan_workspaces plan = [plan_workspace desk (hd single) (Rect 24 24 952 552)] \<and>
     wp_geometry (plan_workspaces plan ! 0) = Rect 40 24 920 552"
proof -
  have "overview_compile desk default_overview_options single =
      Some \<lparr>plan_area = desk, plan_workspaces = [plan_workspace desk (hd single) (Rect 24 24 952 552)]\<rparr>"
    using single_cells by (simp add: overview_compile_def Let_def default_overview_options_def single_def desk_def)
  moreover have "fit_rect (rect_size desk) (Rect 24 24 952 552) = Rect 40 24 920 552"
    by (simp add: fit_rect_def fit_size_def desk_def rect_size_def scale_unsigned_def Let_def machine)
  ultimately show ?thesis by (simp add: plan_workspace_def Let_def)
qed

theorem overview_window_shown_witness:
  "\<exists>plan. overview_compile desk default_overview_options single = Some plan \<and>
     (\<exists>p \<in> set (wp_views (plan_workspaces plan ! 0)). vp_id p = 7 \<and> vp_clip p = vp_geometry p)"
proof -
  obtain plan where plan: "overview_compile desk default_overview_options single = Some plan"
    "wp_geometry (plan_workspaces plan ! 0) = Rect 40 24 920 552" using single_card by blast
  have ok: "overview_ok desk default_overview_options single"
    by (simp add: overview_ok_def plane_ok_def desk_def default_overview_options_def single_def)
  have "\<exists>p \<in> set (wp_views (plan_workspaces plan ! 0)).
           vp_id p = ov_id terminal_view \<and> vp_root p = ov_root terminal_view \<and> vp_source_geometry p = Rect 0 0 500 300 \<and>
           vp_clip p = vp_geometry p \<and> 0 < rect_width (vp_clip p) \<and> 0 < rect_height (vp_clip p) \<and>
           inside (wp_geometry (plan_workspaces plan ! 0)) (vp_clip p)"
    by (rule overview_window_shown[OF ok plan(1)])
      (simp_all add: plan(2) single_def terminal_view_def rect_contains_rect_def desk_def rect_right_def
        rect_bottom_def machine)
  with plan(1) show ?thesis by (auto simp: terminal_view_def)
qed

section \<open>Hit testing\<close>

lemma contains_point_pixel: "contains_point r pt \<longleftrightarrow> (point_x pt, point_y pt) \<in> pixel_set r"
  by (auto simp: contains_point_def mem_pixel_set)

lemma hit_workspaces_spec:
  "case find (\<lambda>w. contains_point (wp_geometry w) pt) ws of
     None \<Rightarrow> hit_workspaces pt ws = None
   | Some w \<Rightarrow> hit_workspaces pt ws =
       (case find (\<lambda>v. contains_point (vp_clip v) pt) (rev (wp_views w)) of
          Some v \<Rightarrow> Some (HitView (wp_id w) (vp_id v) (vp_root v))
        | None \<Rightarrow> Some (HitWorkspace (wp_id w)))"
  by (induction ws) (auto split: option.splits)

text \<open>The last element of a list that satisfies the predicate.\<close>

definition foremost :: "('a \<Rightarrow> bool) \<Rightarrow> 'a list \<Rightarrow> 'a \<Rightarrow> bool" where
  "foremost P xs x \<longleftrightarrow> (\<exists>behind front. xs = behind @ x # front \<and> P x \<and> (\<forall>y \<in> set front. \<not> P y))"

lemma find_rev_foremost: "find P (rev xs) = Some x \<Longrightarrow> foremost P xs x"
proof (induction xs rule: rev_induct)
  case (snoc y xs)
  show ?case
  proof (cases "P y")
    case True
    then show ?thesis using snoc.prems by (auto simp: foremost_def intro: exI[of _ xs])
  next
    case False
    then have "foremost P xs x" using snoc by simp
    then obtain behind front where "xs = behind @ x # front" "P x" "\<forall>y \<in> set front. \<not> P y"
      by (auto simp: foremost_def)
    with False have "xs @ [y] = behind @ x # (front @ [y])" "P x" "\<forall>z \<in> set (front @ [y]). \<not> P z" by auto
    then show ?thesis unfolding foremost_def by blast
  qed
qed simp

text \<open>C36. Hit testing the overview selects what is drawn on top: the foremost card under the pointer, and
  in it the foremost window whose visible part is under the pointer; the card itself only when no
  window of it is; and nothing only when no card is under the pointer.\<close>

theorem overview_hit_foremost:
  "case overview_hit_test plan pt of
     None \<Rightarrow> \<forall>w \<in> set (plan_workspaces plan). (point_x pt, point_y pt) \<notin> pixel_set (wp_geometry w)
   | Some (HitWorkspace wid) \<Rightarrow>
       \<exists>w. foremost (\<lambda>w. (point_x pt, point_y pt) \<in> pixel_set (wp_geometry w)) (plan_workspaces plan) w \<and>
           wp_id w = wid \<and> (\<forall>v \<in> set (wp_views w). (point_x pt, point_y pt) \<notin> pixel_set (vp_clip v))
   | Some (HitView wid vid root) \<Rightarrow>
       \<exists>w v. foremost (\<lambda>w. (point_x pt, point_y pt) \<in> pixel_set (wp_geometry w)) (plan_workspaces plan) w \<and>
           foremost (\<lambda>v. (point_x pt, point_y pt) \<in> pixel_set (vp_clip v)) (wp_views w) v \<and>
           wp_id w = wid \<and> vp_id v = vid \<and> vp_root v = root"
proof (cases "find (\<lambda>w. contains_point (wp_geometry w) pt) (rev (plan_workspaces plan))")
  case None
  then have "overview_hit_test plan pt = None"
    using hit_workspaces_spec[of pt "rev (plan_workspaces plan)"] by (simp add: overview_hit_test_def)
  moreover have "\<forall>w \<in> set (plan_workspaces plan). (point_x pt, point_y pt) \<notin> pixel_set (wp_geometry w)"
    using None by (auto simp: find_None_iff contains_point_pixel)
  ultimately show ?thesis by simp
next
  case (Some w)
  note w = find_rev_foremost[OF Some, unfolded contains_point_pixel]
  have hit: "overview_hit_test plan pt =
      (case find (\<lambda>v. contains_point (vp_clip v) pt) (rev (wp_views w)) of
         Some v \<Rightarrow> Some (HitView (wp_id w) (vp_id v) (vp_root v))
       | None \<Rightarrow> Some (HitWorkspace (wp_id w)))"
    using hit_workspaces_spec[of pt "rev (plan_workspaces plan)"] Some by (simp add: overview_hit_test_def)
  show ?thesis
  proof (cases "find (\<lambda>v. contains_point (vp_clip v) pt) (rev (wp_views w))")
    case None
    then have "\<forall>v \<in> set (wp_views w). (point_x pt, point_y pt) \<notin> pixel_set (vp_clip v)"
      by (auto simp: find_None_iff contains_point_pixel)
    with w None show ?thesis by (auto simp: hit)
  next
    case (Some v)
    with w find_rev_foremost[OF Some, unfolded contains_point_pixel] show ?thesis by (auto simp: hit)
  qed
qed

definition empty_plan :: overview_plan where
  "empty_plan = \<lparr>plan_area = desk,
     plan_workspaces = [\<lparr>wp_id = 1, wp_geometry = Rect 40 24 920 552, wp_views = []\<rparr>]\<rparr>"

theorem overview_hit_foremost_witness:
  "(50 :: int, 50 :: int) \<in> pixel_set (Rect 40 24 920 552) \<and>
   overview_hit_test empty_plan \<lparr>point_x = 50, point_y = 50\<rparr> = Some (HitWorkspace 1)"
proof -
  have "overview_hit_test empty_plan \<lparr>point_x = 50, point_y = 50\<rparr> = Some (HitWorkspace 1)"
    by (simp add: overview_hit_test_def empty_plan_def contains_point_def rect_right_def rect_bottom_def machine)
  with overview_hit_foremost[of empty_plan "\<lparr>point_x = 50, point_y = 50\<rparr>"] show ?thesis
    by (auto simp: foremost_def empty_plan_def Cons_eq_append_conv)
qed

end
