(* ===== verification/Ring_Buffer.thy ===== *)
theory Ring_Buffer
  imports Prelude
begin

text \<open>
  Fixed-capacity ring buffers. The event queue (\<^verbatim>\<open>crates/tensor-event/src/queue.rs\<close>) and the
  present queue (\<^verbatim>\<open>crates/tensor-present/src/schedule.rs\<close>) both keep an array of optional
  slots with a head index and a length, and index it modulo the capacity. This theory relates the
  occupied slots to the list of entries they hold, and states the contract \<open>bounded_fifo\<close> that
  both queues satisfy, with its consequence: entries leave in the order they entered.
\<close>

section \<open>Slots of a ring\<close>

text \<open>The occupied slots, oldest first.\<close>

definition ring_slots :: "'a option list \<Rightarrow> nat \<Rightarrow> nat \<Rightarrow> 'a option list" where
  "ring_slots buf head n = map (\<lambda>i. buf ! ((head + i) mod length buf)) [0..<n]"

text \<open>The indices are in range and every occupied slot holds an entry.\<close>

definition ring_ok :: "'a option list \<Rightarrow> nat \<Rightarrow> nat \<Rightarrow> bool" where
  "ring_ok buf head n \<longleftrightarrow>
     0 < length buf \<and> head < length buf \<and> n \<le> length buf \<and> None \<notin> set (ring_slots buf head n)"

definition ring_list :: "'a option list \<Rightarrow> nat \<Rightarrow> nat \<Rightarrow> 'a list" where
  "ring_list buf head n = map the (ring_slots buf head n)"

lemma length_ring_slots [simp]: "length (ring_slots buf head n) = n"
  by (simp add: ring_slots_def)

lemma length_ring_list [simp]: "length (ring_list buf head n) = n"
  by (simp add: ring_list_def)

lemma ring_list_eq_Nil [simp]: "ring_list buf head n = [] \<longleftrightarrow> n = 0"
  by (metis length_ring_list list.size(3) length_0_conv)

lemma ring_slots_eq:
  assumes "ring_ok buf head n"
  shows "ring_slots buf head n = map Some (ring_list buf head n)"
proof -
  have "Some (the x) = x" if "x \<in> set (ring_slots buf head n)" for x
    using that assms unfolding ring_ok_def by (metis option.collapse)
  then show ?thesis by (simp add: ring_list_def map_idI)
qed

lemma ring_slot_nth: "i < n \<Longrightarrow> ring_slots buf head n ! i = buf ! ((head + i) mod length buf)"
  by (simp add: ring_slots_def)

lemma ring_slot_Some:
  "ring_ok buf head n \<Longrightarrow> i < n \<Longrightarrow> buf ! ((head + i) mod length buf) = Some (ring_list buf head n ! i)"
  by (metis length_ring_list nth_map ring_slot_nth ring_slots_eq)

lemma mod_ring_inject:
  fixes c :: nat
  assumes "i < c" "j < c" "(h + i) mod c = (h + j) mod c"
  shows "i = j"
proof -
  have "i mod c = j mod c" if "i \<le> j" "(h + i) mod c = (h + j) mod c" for i j
  proof -
    have "c dvd (h + j) - (h + i)" using that mod_eq_dvd_iff_nat[of "h + i" "h + j" c] by simp
    then show ?thesis using that mod_eq_dvd_iff_nat[of i j c] by simp
  qed
  with assms show ?thesis by (metis mod_less nat_le_linear)
qed

lemma mod_ring_eq_iff:
  fixes c :: nat
  shows "i < c \<Longrightarrow> j < c \<Longrightarrow> (h + i) mod c = (h + j) mod c \<longleftrightarrow> i = j"
  using mod_ring_inject by blast

text \<open>Writing the slot at an occupied position, or at the first free one, changes that slot only.\<close>

lemma ring_slots_update:
  assumes "i < n" "n \<le> length buf"
  shows "ring_slots (buf[(head + i) mod length buf := v]) head n = (ring_slots buf head n)[i := v]"
proof (rule nth_equalityI)
  fix j assume "j < length (ring_slots (buf[(head + i) mod length buf := v]) head n)"
  then have j: "j < n" by simp
  have "(head + j) mod length buf < length buf" using assms by (intro mod_less_divisor) linarith
  then show "ring_slots (buf[(head + i) mod length buf := v]) head n ! j = (ring_slots buf head n)[i := v] ! j"
    using j assms mod_ring_eq_iff[of i "length buf" j head]
    by (auto simp: ring_slots_def nth_list_update)
qed simp

lemma ring_slots_Suc:
  "ring_slots buf head (Suc n) = ring_slots buf head n @ [buf ! ((head + n) mod length buf)]"
  by (simp add: ring_slots_def)

lemma ring_slots_push:
  assumes "n < length buf"
  shows "ring_slots (buf[(head + n) mod length buf := v]) head (Suc n) = ring_slots buf head n @ [v]"
  using ring_slots_update[of n "Suc n" buf head v] assms
  by (simp add: ring_slots_Suc list_update_append)

lemma ring_slots_pop:
  assumes "n < length buf" "head < length buf"
  shows "ring_slots (buf[head := v]) (Suc head mod length buf) n = tl (ring_slots buf head (Suc n))"
proof (rule nth_equalityI)
  fix j assume "j < length (ring_slots (buf[head := v]) (Suc head mod length buf) n)"
  then have j: "j < n" by simp
  have ne: "(head + Suc j) mod length buf \<noteq> head"
  proof
    assume "(head + Suc j) mod length buf = head"
    then have "(head + Suc j) mod length buf = (head + 0) mod length buf" using assms(2) by simp
    then have "Suc j = 0" using j assms by (intro mod_ring_inject[of "Suc j" "length buf" 0 head]) auto
    then show False by simp
  qed
  have "(Suc head mod length buf + j) mod length buf = (head + Suc j) mod length buf"
    by (simp add: mod_add_left_eq)
  then show "ring_slots (buf[head := v]) (Suc head mod length buf) n ! j = tl (ring_slots buf head (Suc n)) ! j"
    using j ne by (simp add: ring_slot_nth nth_tl nth_list_update_neq)
qed simp

lemma hd_ring_slots: "head < length buf \<Longrightarrow> hd (ring_slots buf head (Suc n)) = buf ! head"
  by (simp add: ring_slots_def upt_conv_Cons del: upt_Suc)

lemma ring_push:
  assumes "ring_ok buf head n" "n < length buf"
  shows "ring_ok (buf[(head + n) mod length buf := Some x]) head (Suc n)"
    "ring_list (buf[(head + n) mod length buf := Some x]) head (Suc n) = ring_list buf head n @ [x]"
  using assms by (simp_all add: ring_ok_def ring_list_def ring_slots_push)

lemma ring_pop:
  assumes "ring_ok buf head (Suc n)"
  shows "buf ! head = Some (hd (ring_list buf head (Suc n)))"
    "ring_ok (buf[head := None]) (Suc head mod length buf) n"
    "ring_list (buf[head := None]) (Suc head mod length buf) n = tl (ring_list buf head (Suc n))"
proof -
  have b: "head < length buf" "n < length buf" using assms by (auto simp: ring_ok_def)
  show "buf ! head = Some (hd (ring_list buf head (Suc n)))"
    using hd_ring_slots[OF b(1), of n] ring_slots_eq[OF assms]
    by (metis length_ring_list list.map_sel(1) list.size(3) nat.distinct(1))
  have "set (tl (ring_slots buf head (Suc n))) \<subseteq> set (ring_slots buf head (Suc n))"
    by (metis list.set_sel(2) subsetI tl_Nil)
  then show "ring_ok (buf[head := None]) (Suc head mod length buf) n"
    using assms b by (auto simp: ring_ok_def ring_slots_pop)
  show "ring_list (buf[head := None]) (Suc head mod length buf) n = tl (ring_list buf head (Suc n))"
    using b by (simp add: ring_list_def ring_slots_pop map_tl)
qed

lemma ring_replace:
  assumes "ring_ok buf head n" "i < n"
  shows "ring_ok (buf[(head + i) mod length buf := Some x]) head n"
    "ring_list (buf[(head + i) mod length buf := Some x]) head n = (ring_list buf head n)[i := x]"
proof -
  have "ring_slots (buf[(head + i) mod length buf := Some x]) head n = (ring_slots buf head n)[i := Some x]"
    using assms by (intro ring_slots_update) (simp_all add: ring_ok_def)
  then show "ring_ok (buf[(head + i) mod length buf := Some x]) head n"
    "ring_list (buf[(head + i) mod length buf := Some x]) head n = (ring_list buf head n)[i := x]"
    using assms by (auto simp: ring_ok_def ring_list_def map_update dest: set_update_subset_insert[THEN subsetD])
qed

lemma ring_empty: "0 < length buf \<Longrightarrow> ring_ok buf 0 0" "ring_list buf head 0 = []"
  by (simp_all add: ring_ok_def ring_slots_def ring_list_def)

section \<open>The contract of a bounded queue\<close>

locale bounded_fifo =
  fixes cap :: "'q \<Rightarrow> nat"
    and entries :: "'q \<Rightarrow> 'a list"
    and ok :: "'q \<Rightarrow> bool"
    and push :: "'a \<Rightarrow> 'q \<Rightarrow> bool \<times> 'q"
    and pop :: "'q \<Rightarrow> 'a option \<times> 'q"
  assumes push_full: "ok q \<Longrightarrow> length (entries q) = cap q \<Longrightarrow> push x q = (False, q)"
    and push_room: "ok q \<Longrightarrow> length (entries q) < cap q \<Longrightarrow>
      (\<exists>q'. push x q = (True, q') \<and> ok q' \<and> cap q' = cap q \<and> entries q' = entries q @ [x])"
    and pop_empty: "ok q \<Longrightarrow> entries q = [] \<Longrightarrow> pop q = (None, q)"
    and pop_entry: "ok q \<Longrightarrow> entries q = x # xs \<Longrightarrow>
      (\<exists>q'. pop q = (Some x, q') \<and> ok q' \<and> cap q' = cap q \<and> entries q' = xs)"
    and entries_bound: "ok q \<Longrightarrow> length (entries q) \<le> cap q"
begin

fun push_all :: "'a list \<Rightarrow> 'q \<Rightarrow> 'q" where
  "push_all [] q = q"
| "push_all (x # xs) q = push_all xs (snd (push x q))"

fun pop_all :: "nat \<Rightarrow> 'q \<Rightarrow> 'a list \<times> 'q" where
  "pop_all 0 q = ([], q)"
| "pop_all (Suc n) q =
     (case pop q of (None, q') \<Rightarrow> ([], q') | (Some x, q') \<Rightarrow> (let (xs, q'') = pop_all n q' in (x # xs, q'')))"

lemma push_ok: "ok q \<Longrightarrow> ok (snd (push x q)) \<and> cap (snd (push x q)) = cap q"
  using push_full[of q x] push_room[of q x] entries_bound[of q] by fastforce

lemma pop_ok: "ok q \<Longrightarrow> ok (snd (pop q)) \<and> cap (snd (pop q)) = cap q"
  using pop_empty[of q] pop_entry[of q] by (cases "entries q") fastforce+

lemma push_all_entries:
  assumes "ok q"
  shows "ok (push_all xs q) \<and> cap (push_all xs q) = cap q \<and>
         entries (push_all xs q) = entries q @ take (cap q - length (entries q)) xs"
  using assms
proof (induction xs arbitrary: q)
  case (Cons x xs)
  show ?case
  proof (cases "length (entries q) = cap q")
    case True
    then show ?thesis using Cons push_full by simp
  next
    case False
    then have "length (entries q) < cap q" using entries_bound[OF Cons.prems] by simp
    from push_room[OF Cons.prems this] obtain q' where
      q': "push x q = (True, q')" "ok q'" "cap q' = cap q" "entries q' = entries q @ [x]" by blast
    have "cap q - length (entries q) = Suc (cap q - length (entries q'))"
      using q'(4) \<open>length (entries q) < cap q\<close> by simp
    with Cons.IH[OF q'(2)] q' show ?thesis by simp
  qed
qed simp

lemma pop_all_entries:
  assumes "ok q"
  shows "fst (pop_all n q) = take n (entries q) \<and> ok (snd (pop_all n q)) \<and>
         entries (snd (pop_all n q)) = drop n (entries q)"
  using assms
proof (induction n arbitrary: q)
  case (Suc n)
  show ?case
  proof (cases "entries q")
    case Nil
    then show ?thesis using pop_empty Suc.prems by simp
  next
    case (Cons x xs)
    from pop_entry[OF Suc.prems Cons] obtain q' where
      "pop q = (Some x, q')" "ok q'" "entries q' = xs" by blast
    with Suc.IH[of q'] Cons show ?thesis by (simp add: case_prod_beta)
  qed
qed simp

text \<open>First in, first out: entries pushed into an empty queue come out in the order they went in,
  up to the capacity; what did not fit was refused.\<close>

lemma fifo:
  assumes "ok q" "entries q = []"
  shows "fst (pop_all (length xs) (push_all xs q)) = take (cap q) xs"
  using push_all_entries[OF assms(1), of xs] pop_all_entries[of "push_all xs q" "length xs"] assms(2)
  by (simp add: min_def)

end

end
