(* ===== verification/Event_Queue.thy ===== *)
theory Event_Queue
  imports Ring_Buffer
begin

text \<open>
  The compositor's event bus, \<^verbatim>\<open>crates/tensor-event/src\<close>: the processing phases
  (\<^verbatim>\<open>phase.rs\<close>), the value events with their phase and the coalescing relation
  (\<^verbatim>\<open>event.rs\<close>), the counters (\<^verbatim>\<open>coalesce.rs\<close>) and the queue of one ring per phase
  (\<^verbatim>\<open>queue.rs\<close>). Floating-point axis values are never inspected by this code, so their type
  is the parameter \<open>'f\<close>.

  The abstract bus is a list of events per phase. The queue refines it: a push replaces the
  newest event it coalesces with, appends, or drops on a full ring; a pop takes the oldest event
  of the first phase that has one. Reachable queues never hold two events that coalesce, and
  their counters account for every event.
\<close>

section \<open>Phases\<close>

datatype phase =
    PhDrain | PhInput | PhProtocol | PhSession | PhScene | PhGpu | PhPresent | PhControl | PhShutdown

fun phase_index :: "phase \<Rightarrow> nat" where
  "phase_index PhDrain = 0"
| "phase_index PhInput = 1"
| "phase_index PhProtocol = 2"
| "phase_index PhSession = 3"
| "phase_index PhScene = 4"
| "phase_index PhGpu = 5"
| "phase_index PhPresent = 6"
| "phase_index PhControl = 7"
| "phase_index PhShutdown = 8"

definition PHASES :: "phase list" where
  "PHASES = [PhDrain, PhInput, PhProtocol, PhSession, PhScene, PhGpu, PhPresent, PhControl, PhShutdown]"

definition PHASE_COUNT :: nat where "PHASE_COUNT = 9"

lemma phase_index_inject [simp]: "phase_index p = phase_index q \<longleftrightarrow> p = q"
  by (cases p; cases q; simp)

text \<open>The derived \<open>Ord\<close> of \<open>Phase\<close> follows the discriminants.\<close>

instantiation phase :: linorder
begin

definition less_eq_phase :: "phase \<Rightarrow> phase \<Rightarrow> bool" where
  "less_eq_phase p q \<longleftrightarrow> phase_index p \<le> phase_index q"

definition less_phase :: "phase \<Rightarrow> phase \<Rightarrow> bool" where
  "less_phase p q \<longleftrightarrow> phase_index p < phase_index q"

instance
  by standard (auto simp: less_eq_phase_def less_phase_def)

end

section \<open>Events\<close>

type_synonym bus_output_id = u64
type_synonym bus_surface_id = u64
type_synonym bus_view_id = u64

datatype 'f input_event =
    PointerMotion 'f 'f u64
  | PointerButton u32 bool u64
  | PointerAxis 'f 'f u64
  | Keyboard u32 bool u64

datatype output_event =
    Connected bus_output_id
  | Changed bus_output_id
  | Disconnected bus_output_id
  | VBlank bus_output_id u64

record gpu_timeline =
  gpu_output :: bus_output_id
  gpu_value :: u64

datatype launch_outcome =
    Started u64 u32
  | Failed u64

datatype 'f event =
    Input "'f input_event"
  | Output output_event
  | SurfaceCommitted bus_surface_id "bus_view_id option"
  | Gpu gpu_timeline
  | Ipc u64
  | Launch launch_outcome
  | Timer u64
  | RedrawAll
  | Shutdown

fun event_phase :: "'f event \<Rightarrow> phase" where
  "event_phase (Input _) = PhInput"
| "event_phase (SurfaceCommitted _ _) = PhProtocol"
| "event_phase (Output (Connected _)) = PhSession"
| "event_phase (Output (Changed _)) = PhSession"
| "event_phase (Output (Disconnected _)) = PhSession"
| "event_phase (Output (VBlank _ _)) = PhPresent"
| "event_phase (Gpu _) = PhGpu"
| "event_phase RedrawAll = PhScene"
| "event_phase (Ipc _) = PhControl"
| "event_phase (Launch _) = PhControl"
| "event_phase (Timer _) = PhControl"
| "event_phase Shutdown = PhShutdown"

definition coalesces_with :: "'f event \<Rightarrow> 'f event \<Rightarrow> bool" where
  "coalesces_with old newer =
     (case (old, newer) of
        (Input (PointerMotion _ _ _), Input (PointerMotion _ _ _)) \<Rightarrow> True
      | (Output (VBlank a _), Output (VBlank b _)) \<Rightarrow> a = b
      | (Gpu a, Gpu b) \<Rightarrow> gpu_output a = gpu_output b
      | (RedrawAll, RedrawAll) \<Rightarrow> True
      | _ \<Rightarrow> False)"

section \<open>Counters\<close>

record coalesce_stats =
  motion_merged :: u64
  vblank_merged :: u64
  gpu_merged :: u64
  redraw_merged :: u64

text \<open>\<open>saturating_add(1)\<close> of a counter.\<close>

definition bump :: "u64 \<Rightarrow> u64" where
  "bump n = sat_u64 (n + 1)"

definition coalesce_record :: "coalesce_stats \<Rightarrow> 'f event \<Rightarrow> 'f event \<Rightarrow> coalesce_stats" where
  "coalesce_record st previous newer =
     (case previous of
        Input _ \<Rightarrow> st\<lparr>motion_merged := bump (motion_merged st)\<rparr>
      | Output _ \<Rightarrow> st\<lparr>vblank_merged := bump (vblank_merged st)\<rparr>
      | Gpu _ \<Rightarrow> st\<lparr>gpu_merged := bump (gpu_merged st)\<rparr>
      | RedrawAll \<Rightarrow> st\<lparr>redraw_merged := bump (redraw_merged st)\<rparr>
      | _ \<Rightarrow> st)"

datatype push_result = Queued | Coalesced | Dropped

record queue_stats =
  pushed :: u64
  coalesced :: u64
  dropped :: u64
  drained :: u64
  stats_coalesce :: coalesce_stats

definition default_stats :: queue_stats where
  "default_stats = \<lparr>pushed = 0, coalesced = 0, dropped = 0, drained = 0,
     stats_coalesce = \<lparr>motion_merged = 0, vblank_merged = 0, gpu_merged = 0, redraw_merged = 0\<rparr>\<rparr>"

section \<open>Rings\<close>

record 'f phase_ring =
  ring_buf :: "'f event option list"
  ring_head :: nat
  ring_len :: nat

definition ring_with_capacity :: "nat \<Rightarrow> 'f phase_ring" where
  "ring_with_capacity capacity =
     (let capacity' = max capacity 1
      in \<lparr>ring_buf = replicate capacity' None, ring_head = 0, ring_len = 0\<rparr>)"

definition ring_capacity :: "'f phase_ring \<Rightarrow> nat" where
  "ring_capacity r = length (ring_buf r)"

definition ring_is_empty :: "'f phase_ring \<Rightarrow> bool" where
  "ring_is_empty r \<longleftrightarrow> ring_len r = 0"

definition ring_is_full :: "'f phase_ring \<Rightarrow> bool" where
  "ring_is_full r \<longleftrightarrow> ring_len r = ring_capacity r"

text \<open>The scan of \<open>try_coalesce\<close> over the offsets from the newest entry.\<close>

fun coalesce_scan :: "'f event \<Rightarrow> nat list \<Rightarrow> 'f phase_ring \<Rightarrow> ('f event \<times> 'f phase_ring) option" where
  "coalesce_scan e [] r = None"
| "coalesce_scan e (offset # offsets) r =
     (let idx = (ring_head r + ring_len r - 1 - offset) mod ring_capacity r
      in case ring_buf r ! idx of
           Some existing \<Rightarrow>
             if coalesces_with existing e
             then Some (existing, r\<lparr>ring_buf := (ring_buf r)[idx := Some e]\<rparr>)
             else coalesce_scan e offsets r
         | None \<Rightarrow> coalesce_scan e offsets r)"

definition try_coalesce :: "'f event \<Rightarrow> 'f phase_ring \<Rightarrow> ('f event \<times> 'f phase_ring) option" where
  "try_coalesce e r = (if ring_len r = 0 then None else coalesce_scan e [0..<ring_len r] r)"

definition ring_push_back :: "'f event \<Rightarrow> 'f phase_ring \<Rightarrow> bool \<times> 'f phase_ring" where
  "ring_push_back e r =
     (if ring_is_full r then (False, r)
      else let idx = (ring_head r + ring_len r) mod ring_capacity r
           in (True, r\<lparr>ring_buf := (ring_buf r)[idx := Some e], ring_len := ring_len r + 1\<rparr>))"

definition ring_pop_front :: "'f phase_ring \<Rightarrow> 'f event option \<times> 'f phase_ring" where
  "ring_pop_front r =
     (if ring_len r = 0 then (None, r)
      else (ring_buf r ! ring_head r,
            r\<lparr>ring_buf := (ring_buf r)[ring_head r := None],
              ring_head := (ring_head r + 1) mod ring_capacity r,
              ring_len := ring_len r - 1\<rparr>))"

section \<open>The queue\<close>

record 'f event_queue =
  phases :: "'f phase_ring list"
  stats :: queue_stats

definition with_phase_capacity :: "nat \<Rightarrow> 'f event_queue" where
  "with_phase_capacity capacity =
     \<lparr>phases = replicate PHASE_COUNT (ring_with_capacity capacity), stats = default_stats\<rparr>"

definition queue_is_empty :: "'f event_queue \<Rightarrow> bool" where
  "queue_is_empty q \<longleftrightarrow> list_all ring_is_empty (phases q)"

definition queue_len :: "'f event_queue \<Rightarrow> nat" where
  "queue_len q = sum_list (map ring_len (phases q))"

definition queue_push :: "'f event \<Rightarrow> 'f event_queue \<Rightarrow> push_result \<times> 'f event_queue" where
  "queue_push e q =
     (let k = phase_index (event_phase e);
          ring = phases q ! k;
          st = stats q
      in case try_coalesce e ring of
           Some (previous, ring') \<Rightarrow>
             (Coalesced,
              \<lparr>phases = (phases q)[k := ring'],
               stats = st\<lparr>coalesced := bump (coalesced st),
                          stats_coalesce := coalesce_record (stats_coalesce st) previous e\<rparr>\<rparr>)
         | None \<Rightarrow>
             (case ring_push_back e ring of
                (True, ring') \<Rightarrow>
                  (Queued, \<lparr>phases = (phases q)[k := ring'], stats = st\<lparr>pushed := bump (pushed st)\<rparr>\<rparr>)
              | (False, ring') \<Rightarrow>
                  (Dropped, \<lparr>phases = (phases q)[k := ring'], stats = st\<lparr>dropped := bump (dropped st)\<rparr>\<rparr>)))"

fun pop_phases :: "phase list \<Rightarrow> 'f event_queue \<Rightarrow> 'f event option \<times> 'f event_queue" where
  "pop_phases [] q = (None, q)"
| "pop_phases (p # ps) q =
     (let k = phase_index p
      in case ring_pop_front (phases q ! k) of
           (Some e, ring') \<Rightarrow>
             (Some e, \<lparr>phases = (phases q)[k := ring'],
                       stats = (stats q)\<lparr>drained := bump (drained (stats q))\<rparr>\<rparr>)
         | (None, ring') \<Rightarrow> pop_phases ps (q\<lparr>phases := (phases q)[k := ring']\<rparr>))"

definition queue_pop :: "'f event_queue \<Rightarrow> 'f event option \<times> 'f event_queue" where
  "queue_pop q = pop_phases PHASES q"

text \<open>Both drains return how many events ran; the model also returns the events the callback saw,
  in order.\<close>

function drain_loop :: "nat \<Rightarrow> nat \<Rightarrow> 'f event_queue \<Rightarrow> nat \<times> 'f event list \<times> 'f event_queue" where
  "drain_loop mx n q =
     (if n < mx
      then case queue_pop q of
             (None, q') \<Rightarrow> (n, [], q')
           | (Some e, q') \<Rightarrow> (let (n', es, q'') = drain_loop mx (Suc n) q' in (n', e # es, q''))
      else (n, [], q))"
  by pat_completeness auto
termination
  by (relation "measure (\<lambda>(mx, n, q). mx - n)") auto

declare drain_loop.simps [simp del]

definition queue_drain :: "nat \<Rightarrow> 'f event_queue \<Rightarrow> nat \<times> 'f event list \<times> 'f event_queue" where
  "queue_drain mx q = drain_loop mx 0 q"

function drain_phase_loop ::
  "phase \<Rightarrow> nat \<Rightarrow> nat \<Rightarrow> 'f event_queue \<Rightarrow> nat \<times> 'f event list \<times> 'f event_queue"
where
  "drain_phase_loop p mx n q =
     (let k = phase_index p
      in if n < mx
         then case ring_pop_front (phases q ! k) of
                (None, ring') \<Rightarrow> (n, [], q\<lparr>phases := (phases q)[k := ring']\<rparr>)
              | (Some e, ring') \<Rightarrow>
                  (let (n', es, q'') =
                     drain_phase_loop p mx (Suc n)
                       \<lparr>phases = (phases q)[k := ring'],
                        stats = (stats q)\<lparr>drained := bump (drained (stats q))\<rparr>\<rparr>
                   in (n', e # es, q''))
         else (n, [], q))"
  by pat_completeness auto
termination
  by (relation "measure (\<lambda>(p, mx, n, q). mx - n)") auto

declare drain_phase_loop.simps [simp del]

definition drain_phase :: "phase \<Rightarrow> nat \<Rightarrow> 'f event_queue \<Rightarrow> nat \<times> 'f event list \<times> 'f event_queue" where
  "drain_phase p mx q = drain_phase_loop p mx 0 q"

section \<open>Rings are bounded queues\<close>

definition phase_ring_ok :: "'f phase_ring \<Rightarrow> bool" where
  "phase_ring_ok r \<longleftrightarrow> ring_ok (ring_buf r) (ring_head r) (ring_len r)"

definition ring_events :: "'f phase_ring \<Rightarrow> 'f event list" where
  "ring_events r = ring_list (ring_buf r) (ring_head r) (ring_len r)"

lemma length_ring_events [simp]: "length (ring_events r) = ring_len r"
  by (simp add: ring_events_def)

interpretation ring: bounded_fifo ring_capacity ring_events phase_ring_ok ring_push_back ring_pop_front
proof unfold_locales
  fix r :: "'f phase_ring" and e e' :: "'f event" and es
  assume ok: "phase_ring_ok r"
  show "length (ring_events r) = ring_capacity r \<Longrightarrow> ring_push_back e r = (False, r)"
    by (simp add: ring_push_back_def ring_is_full_def)
  show "length (ring_events r) < ring_capacity r \<Longrightarrow>
      \<exists>r'. ring_push_back e r = (True, r') \<and> phase_ring_ok r' \<and> ring_capacity r' = ring_capacity r \<and>
        ring_events r' = ring_events r @ [e]"
    using ring_push[of "ring_buf r" "ring_head r" "ring_len r" e] ok
    by (simp add: ring_push_back_def ring_is_full_def ring_capacity_def phase_ring_ok_def ring_events_def Let_def)
  show "ring_events r = [] \<Longrightarrow> ring_pop_front r = (None, r)"
    by (simp add: ring_events_def ring_pop_front_def)
  show "length (ring_events r) \<le> ring_capacity r"
    using ok by (simp add: ring_capacity_def phase_ring_ok_def ring_ok_def)
  show "\<exists>r'. ring_pop_front r = (Some e', r') \<and> phase_ring_ok r' \<and> ring_capacity r' = ring_capacity r \<and>
      ring_events r' = es" if es: "ring_events r = e' # es"
  proof (cases "ring_len r")
    case 0
    with es length_ring_events[of r] show ?thesis by simp
  next
    case (Suc n)
    with ring_pop[of "ring_buf r" "ring_head r" n] ok es show ?thesis
      by (simp add: ring_pop_front_def ring_capacity_def phase_ring_ok_def ring_events_def)
  qed
qed

section \<open>Coalescing\<close>

text \<open>The key two coalescing events share.\<close>

datatype coalesce_class = CMotion | CVBlank bus_output_id | CGpu bus_output_id | CRedraw

fun coalesce_key :: "'f event \<Rightarrow> coalesce_class option" where
  "coalesce_key (Input (PointerMotion _ _ _)) = Some CMotion"
| "coalesce_key (Output (VBlank a _)) = Some (CVBlank a)"
| "coalesce_key (Gpu g) = Some (CGpu (gpu_output g))"
| "coalesce_key RedrawAll = Some CRedraw"
| "coalesce_key _ = None"

lemma coalesces_with_iff: "coalesces_with a b \<longleftrightarrow> coalesce_key a \<noteq> None \<and> coalesce_key a = coalesce_key b"
proof (cases a)
  case (Input i)
  then show ?thesis by (cases i; cases b rule: coalesce_key.cases) (simp_all add: coalesces_with_def)
next
  case (Output o')
  then show ?thesis by (cases o'; cases b rule: coalesce_key.cases) (auto simp: coalesces_with_def)
qed (cases b rule: coalesce_key.cases; auto simp: coalesces_with_def)+

lemma coalesces_same_phase: "coalesces_with a b \<Longrightarrow> event_phase a = event_phase b"
  unfolding coalesces_with_iff
  by (cases a rule: coalesce_key.cases; cases b rule: coalesce_key.cases) simp_all

text \<open>No two events of the list coalesce.\<close>

definition solo :: "'f event list \<Rightarrow> bool" where
  "solo es \<longleftrightarrow> sorted_wrt (\<lambda>a b. a = None \<or> a \<noteq> b) (map coalesce_key es)"

lemma solo_iff: "solo es \<longleftrightarrow> (\<forall>i j. i < j \<longrightarrow> j < length es \<longrightarrow> \<not> coalesces_with (es ! i) (es ! j))"
  by (auto simp: solo_def sorted_wrt_iff_nth_less coalesces_with_iff)

lemma solo_Nil [simp]: "solo []"
  by (simp add: solo_def)

lemma solo_tl: "solo es \<Longrightarrow> solo (tl es)"
  by (cases es) (simp_all add: solo_def)

lemma solo_snoc: "solo es \<Longrightarrow> (\<forall>x \<in> set es. \<not> coalesces_with x e) \<Longrightarrow> solo (es @ [e])"
  by (auto simp: solo_def sorted_wrt_append coalesces_with_iff)

lemma map_coalesce_key_update:
  "i < length es \<Longrightarrow> coalesces_with (es ! i) e \<Longrightarrow> map coalesce_key (es[i := e]) = map coalesce_key es"
  by (simp add: map_update coalesces_with_iff list_update_same_conv)

lemma solo_update: "solo es \<Longrightarrow> i < length es \<Longrightarrow> coalesces_with (es ! i) e \<Longrightarrow> solo (es[i := e])"
  unfolding solo_def by (simp only: map_coalesce_key_update)

text \<open>Replacing the partner in place.\<close>

definition merge_event :: "'f event \<Rightarrow> 'f event list \<Rightarrow> 'f event list" where
  "merge_event e es = map (\<lambda>x. if coalesces_with x e then e else x) es"

lemma merge_event_update:
  assumes "solo es" "i < length es" "coalesces_with (es ! i) e"
  shows "es[i := e] = merge_event e es"
proof (rule nth_equalityI)
  fix j assume "j < length (es[i := e])"
  then have j: "j < length es" by simp
  show "es[i := e] ! j = merge_event e es ! j"
  proof (cases "coalesces_with (es ! j) e")
    case True
    then have "coalesces_with (es ! i) (es ! j)" "coalesces_with (es ! j) (es ! i)"
      using assms(3) unfolding coalesces_with_iff by metis+
    then have "i = j" using assms(1,2) j unfolding solo_iff by (meson linorder_neqE_nat)
    then show ?thesis using j True by (simp add: merge_event_def)
  next
    case False
    then have "i \<noteq> j" using assms(3) by auto
    then show ?thesis using j False by (simp add: merge_event_def)
  qed
qed (simp add: merge_event_def)

lemma coalesce_scan_find:
  assumes "phase_ring_ok r" "\<forall>k \<in> set offs. k < ring_len r"
  shows "coalesce_scan e offs r =
    map_option (\<lambda>k. (ring_events r ! (ring_len r - 1 - k),
        r\<lparr>ring_buf := (ring_buf r)[(ring_head r + (ring_len r - 1 - k)) mod ring_capacity r := Some e]\<rparr>))
      (find (\<lambda>k. coalesces_with (ring_events r ! (ring_len r - 1 - k)) e) offs)"
  using assms(2)
proof (induction offs)
  case (Cons k offs)
  have k: "ring_head r + ring_len r - 1 - k = ring_head r + (ring_len r - 1 - k)" using Cons.prems by simp
  have "ring_buf r ! ((ring_head r + (ring_len r - 1 - k)) mod ring_capacity r) =
      Some (ring_events r ! (ring_len r - 1 - k))"
    using ring_slot_Some[of "ring_buf r" "ring_head r" "ring_len r" "ring_len r - 1 - k"] assms(1) Cons.prems
    by (simp add: phase_ring_ok_def ring_events_def ring_capacity_def)
  with Cons k show ?case by (simp add: Let_def del: diff_diff_left)
qed simp

lemma try_coalesce_spec:
  assumes "phase_ring_ok r" "solo (ring_events r)"
  shows "case try_coalesce e r of
           None \<Rightarrow> \<forall>x \<in> set (ring_events r). \<not> coalesces_with x e
         | Some (previous, r') \<Rightarrow>
             previous \<in> set (ring_events r) \<and> coalesces_with previous e \<and> phase_ring_ok r' \<and>
             ring_capacity r' = ring_capacity r \<and> ring_len r' = ring_len r \<and>
             ring_events r' = merge_event e (ring_events r) \<and> solo (ring_events r')"
proof (cases "find (\<lambda>k. coalesces_with (ring_events r ! (ring_len r - 1 - k)) e) [0..<ring_len r]")
  case None
  have "\<not> coalesces_with x e" if x: "x \<in> set (ring_events r)" for x
  proof -
    obtain i where "i < ring_len r" "x = ring_events r ! i" using x by (auto simp: in_set_conv_nth)
    then show ?thesis using None by (auto simp: find_None_iff dest!: spec[of _ "ring_len r - 1 - i"])
  qed
  with None coalesce_scan_find[OF assms(1), of "[0..<ring_len r]" e] show ?thesis
    by (simp add: try_coalesce_def)
next
  case (Some k)
  define i where "i = ring_len r - 1 - k"
  have k: "k < ring_len r" "coalesces_with (ring_events r ! i) e"
    using Some by (auto simp: find_Some_iff i_def)
  then have i: "i < ring_len r" by (simp add: i_def)
  define r' where "r' = r\<lparr>ring_buf := (ring_buf r)[(ring_head r + i) mod ring_capacity r := Some e]\<rparr>"
  have eq: "try_coalesce e r = Some (ring_events r ! i, r')"
    using Some k coalesce_scan_find[OF assms(1), of "[0..<ring_len r]" e]
    by (simp add: try_coalesce_def i_def r'_def)
  have r': "phase_ring_ok r'" "ring_events r' = (ring_events r)[i := e]" "ring_capacity r' = ring_capacity r"
    "ring_len r' = ring_len r"
    using ring_replace[of "ring_buf r" "ring_head r" "ring_len r" i e] assms(1) i
    by (simp_all add: r'_def phase_ring_ok_def ring_events_def ring_capacity_def)
  show ?thesis
    using eq r' k i merge_event_update[OF assms(2), of i e] solo_update[OF assms(2), of i e]
    by simp
qed

section \<open>The abstract bus\<close>

type_synonym 'f bus = "phase \<Rightarrow> 'f event list"

definition spec_push :: "nat \<Rightarrow> 'f event \<Rightarrow> 'f bus \<Rightarrow> push_result \<times> 'f bus" where
  "spec_push c e b =
     (let p = event_phase e
      in if \<exists>x \<in> set (b p). coalesces_with x e then (Coalesced, b(p := merge_event e (b p)))
         else if length (b p) < c then (Queued, b(p := b p @ [e]))
         else (Dropped, b))"

definition spec_pop :: "'f bus \<Rightarrow> 'f event option \<times> 'f bus" where
  "spec_pop b =
     (case find (\<lambda>p. b p \<noteq> []) PHASES of
        None \<Rightarrow> (None, b)
      | Some p \<Rightarrow> (Some (hd (b p)), b(p := tl (b p))))"

definition queue_ring :: "'f event_queue \<Rightarrow> phase \<Rightarrow> 'f phase_ring" where
  "queue_ring q p = phases q ! phase_index p"

definition bus_of :: "'f event_queue \<Rightarrow> 'f bus" where
  "bus_of q p = ring_events (queue_ring q p)"

text \<open>Nine rings of capacity \<open>c\<close>; the ring of a phase holds events of that phase only, no two of
  which coalesce.\<close>

definition queue_ok :: "nat \<Rightarrow> 'f event_queue \<Rightarrow> bool" where
  "queue_ok c q \<longleftrightarrow> length (phases q) = PHASE_COUNT \<and>
     (\<forall>p. phase_ring_ok (queue_ring q p) \<and> ring_capacity (queue_ring q p) = c \<and>
          solo (bus_of q p) \<and> (\<forall>e \<in> set (bus_of q p). event_phase e = p))"

lemma phase_index_less: "phase_index p < PHASE_COUNT"
  by (cases p) (simp_all add: PHASE_COUNT_def)

lemma queue_ring_update:
  assumes "length (phases q) = PHASE_COUNT"
  shows "queue_ring \<lparr>phases = (phases q)[phase_index p := r], stats = st\<rparr> = (queue_ring q)(p := r)"
  using assms phase_index_less[of p] by (auto simp: queue_ring_def fun_eq_iff nth_list_update)

lemma bus_of_update:
  assumes "length (phases q) = PHASE_COUNT"
  shows "bus_of \<lparr>phases = (phases q)[phase_index p := r], stats = st\<rparr> = (bus_of q)(p := ring_events r)"
  by (simp add: bus_of_def fun_eq_iff queue_ring_update[OF assms])

lemma queue_ok_update:
  assumes "queue_ok c q" "phase_ring_ok r" "ring_capacity r = c" "solo (ring_events r)"
    and "\<forall>e \<in> set (ring_events r). event_phase e = p"
  shows "queue_ok c \<lparr>phases = (phases q)[phase_index p := r], stats = st\<rparr>"
proof -
  have len: "length (phases q) = PHASE_COUNT" using assms(1) by (simp add: queue_ok_def)
  show ?thesis
    using assms by (simp add: queue_ok_def queue_ring_update[OF len] bus_of_update[OF len])
qed

lemma queue_ring_initial: "queue_ring (with_phase_capacity c) p = ring_with_capacity c"
  using phase_index_less[of p] by (simp add: queue_ring_def with_phase_capacity_def)

lemma bus_of_initial: "bus_of (with_phase_capacity c) p = []"
  by (simp add: bus_of_def queue_ring_initial ring_with_capacity_def ring_events_def Let_def)

lemma queue_ok_initial: "queue_ok (max c 1) (with_phase_capacity c)"
  by (simp add: queue_ok_def queue_ring_initial bus_of_initial)
    (simp add: with_phase_capacity_def phase_ring_ok_def ring_with_capacity_def ring_empty Let_def ring_capacity_def)

lemma set_merge_event: "set (merge_event e es) \<subseteq> insert e (set es)"
  by (auto simp: merge_event_def)

lemma queue_push_refines:
  assumes "queue_ok c q"
  shows "queue_ok c (snd (queue_push e q))"
    and "(fst (queue_push e q), bus_of (snd (queue_push e q))) = spec_push c e (bus_of q)"
proof -
  define p where "p = event_phase e"
  define r where "r = queue_ring q p"
  have len: "length (phases q) = PHASE_COUNT" using assms by (simp add: queue_ok_def)
  have ok: "phase_ring_ok r" "ring_capacity r = c" "solo (ring_events r)"
    "\<forall>e \<in> set (ring_events r). event_phase e = p" "bus_of q p = ring_events r"
    using assms by (simp_all add: queue_ok_def r_def bus_of_def)
  have rq: "phases q ! phase_index p = r" by (simp add: r_def queue_ring_def)
  note spec = try_coalesce_spec[OF ok(1,3), of e]
  have "queue_ok c (snd (queue_push e q)) \<and>
    (fst (queue_push e q), bus_of (snd (queue_push e q))) = spec_push c e (bus_of q)"
  proof (cases "try_coalesce e r")
    case (Some pr)
    then obtain previous r' where pr: "try_coalesce e r = Some (previous, r')" by (cases pr) simp
    with spec have r': "previous \<in> set (ring_events r)" "coalesces_with previous e" "phase_ring_ok r'"
      "ring_capacity r' = c" "ring_events r' = merge_event e (ring_events r)" "solo (ring_events r')"
      using ok(2) by auto
    moreover have "\<forall>x \<in> set (ring_events r'). event_phase x = p"
      using set_merge_event[of e "ring_events r"] ok(4) by (auto simp: r'(5) p_def)
    ultimately have "queue_ok c \<lparr>phases = (phases q)[phase_index p := r'], stats = st\<rparr>" for st
      by (intro queue_ok_update[OF assms]) simp_all
    moreover have "\<exists>x \<in> set (ring_events r). coalesces_with x e" using r'(1,2) by blast
    ultimately show ?thesis
      using pr ok(5) by (simp add: queue_push_def Let_def rq p_def[symmetric] spec_push_def
          bus_of_update[OF len] r'(5))
  next
    case None
    with spec have no: "\<forall>x \<in> set (ring_events r). \<not> coalesces_with x e" by simp
    show ?thesis
    proof (cases "ring_len r < c")
      case True
      with ring.push_room[OF ok(1), of e] ok(2) obtain r' where r': "ring_push_back e r = (True, r')"
        "phase_ring_ok r'" "ring_capacity r' = c" "ring_events r' = ring_events r @ [e]" by auto
      moreover have "solo (ring_events r')" using solo_snoc[OF ok(3) no] r'(4) by simp
      moreover have "\<forall>x \<in> set (ring_events r'). event_phase x = p" using ok(4) by (simp add: r'(4) p_def)
      ultimately have "queue_ok c \<lparr>phases = (phases q)[phase_index p := r'], stats = st\<rparr>" for st
        by (intro queue_ok_update[OF assms]) simp_all
      then show ?thesis
        using None ok(5) no True r'(1,4)
        by (simp add: queue_push_def Let_def rq p_def[symmetric] spec_push_def bus_of_update[OF len])
    next
      case False
      then have "ring_push_back e r = (False, r)"
        using ring.entries_bound[OF ok(1)] ok(1,2) by (intro ring.push_full) simp_all
      moreover have "queue_ok c \<lparr>phases = (phases q)[phase_index p := r], stats = st\<rparr>" for st
        using ok by (intro queue_ok_update[OF assms]) simp_all
      ultimately show ?thesis
        using None ok(5) False no
        by (simp add: queue_push_def Let_def rq p_def[symmetric] spec_push_def
            bus_of_update[OF len] fun_upd_idem)
    qed
  qed
  then show "queue_ok c (snd (queue_push e q))"
    and "(fst (queue_push e q), bus_of (snd (queue_push e q))) = spec_push c e (bus_of q)" by blast+
qed

lemma pop_phases_refines:
  assumes "queue_ok c q"
  shows "case find (\<lambda>p. bus_of q p \<noteq> []) ps of
           None \<Rightarrow> pop_phases ps q = (None, q)
         | Some p \<Rightarrow> \<exists>r'. phase_ring_ok r' \<and> ring_capacity r' = c \<and> ring_events r' = tl (bus_of q p) \<and>
             pop_phases ps q =
               (Some (hd (bus_of q p)),
                \<lparr>phases = (phases q)[phase_index p := r'],
                 stats = (stats q)\<lparr>drained := bump (drained (stats q))\<rparr>\<rparr>)"
proof (induction ps)
  case (Cons p ps)
  have r: "phase_ring_ok (queue_ring q p)" "ring_capacity (queue_ring q p) = c"
    using assms by (simp_all add: queue_ok_def)
  show ?case
  proof (cases "bus_of q p")
    case Nil
    then have "ring_pop_front (queue_ring q p) = (None, queue_ring q p)"
      using r by (intro ring.pop_empty) (simp_all add: bus_of_def)
    moreover have "q\<lparr>phases := (phases q)[phase_index p := queue_ring q p]\<rparr> = q"
      by (simp add: queue_ring_def)
    ultimately have "pop_phases (p # ps) q = pop_phases ps q"
      by (simp add: Let_def queue_ring_def)
    then show ?thesis using Cons.IH Nil by (auto simp del: pop_phases.simps split: option.splits)
  next
    case cons: (Cons e es)
    with ring.pop_entry[OF r(1)] r(2) obtain r' where
      "ring_pop_front (queue_ring q p) = (Some e, r')" "phase_ring_ok r'" "ring_capacity r' = c"
      "ring_events r' = es" by (auto simp: bus_of_def)
    with cons show ?thesis by (auto simp add: Let_def simp flip: queue_ring_def)
  qed
qed simp

lemma queue_pop_refines:
  assumes "queue_ok c q"
  shows "queue_ok c (snd (queue_pop q))"
    and "(fst (queue_pop q), bus_of (snd (queue_pop q))) = spec_pop (bus_of q)"
proof -
  have len: "length (phases q) = PHASE_COUNT" using assms by (simp add: queue_ok_def)
  have "queue_ok c (snd (queue_pop q)) \<and> (fst (queue_pop q), bus_of (snd (queue_pop q))) = spec_pop (bus_of q)"
  proof (cases "find (\<lambda>p. bus_of q p \<noteq> []) PHASES")
    case None
    with pop_phases_refines[OF assms, of PHASES] assms show ?thesis
      by (simp add: queue_pop_def spec_pop_def)
  next
    case (Some p)
    with pop_phases_refines[OF assms, of PHASES] obtain r' where r': "phase_ring_ok r'"
      "ring_capacity r' = c" "ring_events r' = tl (bus_of q p)"
      "queue_pop q = (Some (hd (bus_of q p)), \<lparr>phases = (phases q)[phase_index p := r'],
         stats = (stats q)\<lparr>drained := bump (drained (stats q))\<rparr>\<rparr>)"
      by (auto simp: queue_pop_def)
    have p: "solo (bus_of q p)" "\<forall>e \<in> set (bus_of q p). event_phase e = p" "bus_of q p \<noteq> []"
      using assms Some by (simp_all add: queue_ok_def find_Some_iff) blast
    have "queue_ok c \<lparr>phases = (phases q)[phase_index p := r'], stats = st\<rparr>" for st
      using r'(1-3) p solo_tl[OF p(1)]
      by (intro queue_ok_update[OF assms]) (auto dest: list.set_sel(2)[rotated])
    then have "queue_ok c (snd (queue_pop q))" by (simp add: r'(4))
    then show ?thesis by (simp add: r' Some spec_pop_def bus_of_update[OF len])
  qed
  then show "queue_ok c (snd (queue_pop q))"
    and "(fst (queue_pop q), bus_of (snd (queue_pop q))) = spec_pop (bus_of q)" by blast+
qed

section \<open>Draining\<close>

text \<open>All buffered events, in the order the bus delivers them.\<close>

definition bus_order :: "'f bus \<Rightarrow> 'f event list" where
  "bus_order b = concat (map b PHASES)"

lemma distinct_PHASES: "distinct PHASES"
  by (simp add: PHASES_def)

lemma set_PHASES: "p \<in> set PHASES"
  by (cases p) (simp_all add: PHASES_def)

lemma concat_first_phase:
  assumes "distinct ps" "find (\<lambda>p. b p \<noteq> []) ps = Some p"
  shows "concat (map b ps) = hd (b p) # concat (map (b(p := tl (b p))) ps)"
  using assms
proof (induction ps)
  case (Cons x ps)
  show ?case
  proof (cases "b x = []")
    case True
    then have "p \<in> set ps" using Cons.prems find_Some_mem[of _ ps p] by simp
    then show ?thesis using Cons True by auto
  next
    case False
    then have p: "p = x" using Cons.prems by simp
    have eq: "map (b(x := tl (b x))) ps = map b ps" using Cons.prems(1) by auto
    show ?thesis unfolding p list.map(2) eq using False by simp
  qed
qed simp

lemma spec_pop_order:
  "bus_order b = [] \<Longrightarrow> spec_pop b = (None, b)"
  "bus_order b = e # es \<Longrightarrow> \<exists>b'. spec_pop b = (Some e, b') \<and> bus_order b' = es"
proof -
  show "spec_pop b = (None, b)" if "bus_order b = []"
  proof -
    have "find (\<lambda>p. b p \<noteq> []) PHASES = None" using that by (simp add: bus_order_def find_None_iff)
    then show ?thesis by (simp add: spec_pop_def)
  qed
  show "\<exists>b'. spec_pop b = (Some e, b') \<and> bus_order b' = es" if "bus_order b = e # es"
  proof -
    have "find (\<lambda>p. b p \<noteq> []) PHASES \<noteq> None"
      using that by (auto simp: bus_order_def find_None_iff)
        (metis concat_eq_Nil_conv imageE list.distinct(1) list.set_map)
    then obtain p where p: "find (\<lambda>p. b p \<noteq> []) PHASES = Some p" by blast
    with concat_first_phase[OF distinct_PHASES p] that show ?thesis
      by (simp add: spec_pop_def bus_order_def)
  qed
qed

lemma queue_pop_order:
  assumes "queue_ok c q"
  shows "bus_order (bus_of q) = [] \<Longrightarrow> fst (queue_pop q) = None \<and> bus_of (snd (queue_pop q)) = bus_of q"
    and "bus_order (bus_of q) = e # es \<Longrightarrow>
      fst (queue_pop q) = Some e \<and> bus_order (bus_of (snd (queue_pop q))) = es"
  using queue_pop_refines(2)[OF assms] spec_pop_order[of "bus_of q"] by (fastforce simp: prod_eq_iff)+

lemma drain_loop_order:
  assumes "queue_ok c q" "drain_loop mx n q = (n', es, q')" "n \<le> mx"
  shows "queue_ok c q' \<and> es = take (mx - n) (bus_order (bus_of q)) \<and> n' = n + length es \<and>
         bus_order (bus_of q') = drop (mx - n) (bus_order (bus_of q))"
  using assms
proof (induction mx n q arbitrary: n' es q' rule: drain_loop.induct)
  case (1 mx n q)
  show ?case
  proof (cases "n < mx")
    case True
    show ?thesis
    proof (cases "bus_order (bus_of q)")
      case Nil
      then show ?thesis
        using queue_pop_order(1)[OF "1.prems"(1)] queue_pop_refines(1)[OF "1.prems"(1)] "1.prems"(2) True
        by (auto simp: drain_loop.simps[of mx n] case_prod_beta)
    next
      case (Cons e rest)
      obtain q1 where q1: "queue_pop q = (Some e, q1)" "bus_order (bus_of q1) = rest" "queue_ok c q1"
        using queue_pop_order(2)[OF "1.prems"(1) Cons] queue_pop_refines(1)[OF "1.prems"(1)]
        by (cases "queue_pop q") auto
      obtain n2 es2 q2 where rec: "drain_loop mx (Suc n) q1 = (n2, es2, q2)" by (cases "drain_loop mx (Suc n) q1")
      have "queue_ok c q2 \<and> es2 = take (mx - Suc n) rest \<and> n2 = Suc n + length es2 \<and>
          bus_order (bus_of q2) = drop (mx - Suc n) rest"
        using "1.IH"[OF True q1(1)[symmetric] refl q1(3) rec] True q1(2) by simp
      moreover have "n' = n2" "es = e # es2" "q' = q2"
        using "1.prems"(2) True rec q1(1) by (auto simp: drain_loop.simps[of mx n q])
      moreover have "mx - n = Suc (mx - Suc n)" using True by simp
      ultimately show ?thesis using Cons by simp
    qed
  next
    case False
    with "1.prems" show ?thesis by (simp add: drain_loop.simps[of mx n q])
  qed
qed

lemma drain_phase_loop_order:
  assumes "queue_ok c q" "drain_phase_loop p mx n q = (n', es, q')" "n \<le> mx"
  shows "queue_ok c q' \<and> es = take (mx - n) (bus_of q p) \<and> n' = n + length es \<and>
         bus_of q' = (bus_of q)(p := drop (mx - n) (bus_of q p))"
  using assms
proof (induction p mx n q arbitrary: n' es q' rule: drain_phase_loop.induct)
  case (1 p mx n q)
  have r: "phase_ring_ok (queue_ring q p)" "ring_capacity (queue_ring q p) = c" "solo (bus_of q p)"
    "\<forall>e \<in> set (bus_of q p). event_phase e = p" and len: "length (phases q) = PHASE_COUNT"
    using "1.prems"(1) by (simp_all add: queue_ok_def)
  show ?case
  proof (cases "n < mx")
    case True
    show ?thesis
    proof (cases "bus_of q p")
      case Nil
      then have "ring_pop_front (queue_ring q p) = (None, queue_ring q p)"
        using r(1) by (intro ring.pop_empty) (simp_all add: bus_of_def)
      then show ?thesis using "1.prems" True Nil
        by (simp add: drain_phase_loop.simps[of p mx n] queue_ring_def fun_upd_idem)
    next
      case (Cons e rest)
      obtain r' where r': "ring_pop_front (queue_ring q p) = (Some e, r')" "phase_ring_ok r'"
        "ring_capacity r' = c" "ring_events r' = rest"
        using ring.pop_entry[OF r(1)] r(2) Cons by (auto simp: bus_of_def)
      define q1 where "q1 = \<lparr>phases = (phases q)[phase_index p := r'],
        stats = (stats q)\<lparr>drained := bump (drained (stats q))\<rparr>\<rparr>"
      have q1: "queue_ok c q1" unfolding q1_def
        using r' r(3,4) solo_tl[OF r(3)] Cons by (intro queue_ok_update[OF "1.prems"(1)]) simp_all
      have b1: "bus_of q1 = (bus_of q)(p := rest)"
        by (simp add: q1_def bus_of_update[OF len] r'(4))
      obtain n2 es2 q2 where rec: "drain_phase_loop p mx (Suc n) q1 = (n2, es2, q2)"
        by (cases "drain_phase_loop p mx (Suc n) q1")
      have "queue_ok c q2 \<and> es2 = take (mx - Suc n) rest \<and> n2 = Suc n + length es2 \<and>
          bus_of q2 = (bus_of q)(p := drop (mx - Suc n) rest)"
        using "1.IH"[OF refl True, of "Some e" r' e, folded q1_def queue_ring_def, OF r'(1)[symmetric] refl] q1 rec True b1 by auto
      moreover have "n' = n2" "es = e # es2" "q' = q2"
        using "1.prems"(2) True rec r'(1)
        by (auto simp: drain_phase_loop.simps[of p mx n q] q1_def queue_ring_def)
      moreover have "mx - n = Suc (mx - Suc n)" using True by simp
      ultimately show ?thesis using Cons by simp
    qed
  next
    case False
    with "1.prems" show ?thesis by (simp add: drain_phase_loop.simps[of p mx n q])
  qed
qed

lemma bus_order_sorted:
  assumes "queue_ok c q"
  shows "sorted (map event_phase (bus_order (bus_of q)))"
proof -
  have "sorted (map event_phase (concat (map (bus_of q) ps)))" if "sorted ps" for ps
    using that
  proof (induction ps)
    case (Cons p ps)
    have ph: "event_phase e = p'" if "e \<in> set (bus_of q p')" for e p'
      using assms that by (simp add: queue_ok_def)
    have "map event_phase (bus_of q p) = replicate (length (bus_of q p)) p"
      using ph by (intro replicate_eqI) auto
    then have "sorted (map event_phase (bus_of q p))" by simp
    with Cons ph show ?case by (fastforce simp: sorted_append)
  qed simp
  moreover have "sorted PHASES" by (simp add: PHASES_def less_eq_phase_def)
  ultimately show ?thesis by (simp add: bus_order_def)
qed

section \<open>Reachable queues\<close>

inductive queue_reachable :: "nat \<Rightarrow> 'f event_queue \<Rightarrow> bool" for c where
  new: "queue_reachable c (with_phase_capacity c)"
| push: "queue_reachable c q \<Longrightarrow> queue_reachable c (snd (queue_push e q))"
| pop: "queue_reachable c q \<Longrightarrow> queue_reachable c (snd (queue_pop q))"
| drain_one: "queue_reachable c q \<Longrightarrow> drain_phase p mx q = (n, es, q') \<Longrightarrow> queue_reachable c q'"

text \<open>Every event that entered a ring is still buffered or was drained, until the counter saturates.\<close>

definition accounted :: "'f event_queue \<Rightarrow> bool" where
  "accounted q \<longleftrightarrow>
     (pushed (stats q) < U64_MAX \<longrightarrow> pushed (stats q) = drained (stats q) + int (queue_len q)) \<and>
     0 \<le> drained (stats q) \<and> 0 \<le> pushed (stats q)"

lemma queue_len_update:
  assumes "length (phases q) = PHASE_COUNT"
  shows "queue_len \<lparr>phases = (phases q)[phase_index p := r], stats = st\<rparr> + ring_len (queue_ring q p) =
         queue_len q + ring_len r"
proof -
  have k: "phase_index p < length (map ring_len (phases q))" using assms phase_index_less by simp
  have "ring_len (phases q ! phase_index p) \<le> sum_list (map ring_len (phases q))"
    using k member_le_sum_list[of "ring_len (phases q ! phase_index p)" "map ring_len (phases q)"] by simp
  then show ?thesis
    using k sum_list_update[OF k, of "ring_len r"] by (simp add: queue_len_def queue_ring_def map_update)
qed

lemma queue_push_accounted:
  assumes "queue_ok c q" "accounted q"
  shows "accounted (snd (queue_push e q))"
proof -
  define p where "p = event_phase e"
  define r where "r = queue_ring q p"
  have len: "length (phases q) = PHASE_COUNT" and ok: "phase_ring_ok r" "solo (ring_events r)"
    using assms by (simp_all add: queue_ok_def r_def bus_of_def)
  note upd = queue_len_update[OF len, of p, folded r_def]
  have rq: "phases q ! phase_index p = r" by (simp add: r_def queue_ring_def)
  show ?thesis
  proof (cases "try_coalesce e r")
    case (Some pr)
    obtain previous r' where pr: "pr = (previous, r')" by (cases pr)
    have "ring_len r' = ring_len r" using try_coalesce_spec[OF ok, of e] Some pr by simp
    then show ?thesis using Some pr upd[of r'] assms(2)
      by (simp add: queue_push_def Let_def rq p_def[symmetric] accounted_def)
  next
    case None
    show ?thesis
    proof (cases "ring_is_full r")
      case True
      then have "ring_push_back e r = (False, r)" by (simp add: ring_push_back_def)
      then show ?thesis using None upd[of r] assms(2)
        by (simp add: queue_push_def Let_def rq p_def[symmetric] accounted_def)
    next
      case False
      then obtain r' where r': "ring_push_back e r = (True, r')" "ring_len r' = Suc (ring_len r)"
        by (simp add: ring_push_back_def Let_def)
      with None upd[of r'] assms(2) show ?thesis
        by (auto simp: queue_push_def Let_def rq p_def[symmetric] accounted_def bump_def machine)
    qed
  qed
qed

lemma pop_ring_accounted:
  assumes "queue_ok c q" "accounted q" "ring_pop_front (queue_ring q p) = (Some e, r')"
  shows "accounted \<lparr>phases = (phases q)[phase_index p := r'],
    stats = (stats q)\<lparr>drained := bump (drained (stats q))\<rparr>\<rparr>"
proof -
  have len: "length (phases q) = PHASE_COUNT" using assms(1) by (simp add: queue_ok_def)
  have "ring_len (queue_ring q p) = Suc (ring_len r')"
    using assms(3) by (auto simp: ring_pop_front_def split: if_splits)
  with queue_len_update[OF len, of p r']
  have "int (queue_len q) = 1 + int (queue_len \<lparr>phases = (phases q)[phase_index p := r'], stats = st\<rparr>)" for st
    by (metis add.commute add_Suc_right add_right_cancel of_nat_Suc plus_1_eq_Suc)
  with assms(2) show ?thesis by (auto simp: accounted_def bump_def machine)
qed

lemma pop_phases_accounted:
  assumes "queue_ok c q" "accounted q"
  shows "accounted (snd (pop_phases ps q))"
proof (induction ps)
  case (Cons p ps)
  show ?case
  proof (cases "ring_pop_front (queue_ring q p)")
    case (Pair x r')
    show ?thesis
    proof (cases x)
      case None
      then have "r' = queue_ring q p \<or> ring_len (queue_ring q p) \<noteq> 0"
        using Pair by (auto simp: ring_pop_front_def split: if_splits)
      moreover have "ring_len (queue_ring q p) = 0"
      proof (rule ccontr)
        assume "ring_len (queue_ring q p) \<noteq> 0"
        then obtain e es where "ring_events (queue_ring q p) = e # es"
          by (metis length_ring_events list.exhaust list.size(3))
        with ring.pop_entry[of "queue_ring q p"] assms(1) Pair None show False
          by (fastforce simp: queue_ok_def)
      qed
      ultimately have "q\<lparr>phases := (phases q)[phase_index p := r']\<rparr> = q" by (simp add: queue_ring_def)
      then show ?thesis using Cons Pair None by (simp add: Let_def flip: queue_ring_def)
    next
      case (Some e)
      then show ?thesis using pop_ring_accounted[OF assms, of p e r'] Pair
        by (simp add: Let_def flip: queue_ring_def)
    qed
  qed
qed (use assms in simp)

lemma drain_phase_loop_accounted:
  assumes "queue_ok c q" "accounted q" "drain_phase_loop p mx n q = (n', es, q')"
  shows "accounted q'"
  using assms
proof (induction p mx n q arbitrary: n' es q' rule: drain_phase_loop.induct)
  case (1 p mx n q)
  have r: "phase_ring_ok (queue_ring q p)" "ring_capacity (queue_ring q p) = c" "solo (bus_of q p)"
    "\<forall>e \<in> set (bus_of q p). event_phase e = p"
    using "1.prems"(1) by (simp_all add: queue_ok_def)
  show ?case
  proof (cases "n < mx")
    case True
    show ?thesis
    proof (cases "bus_of q p")
      case Nil
      then have "ring_pop_front (queue_ring q p) = (None, queue_ring q p)"
        using r(1) by (intro ring.pop_empty) (simp_all add: bus_of_def)
      then show ?thesis using "1.prems" True
        by (simp add: drain_phase_loop.simps[of p mx n] queue_ring_def)
    next
      case (Cons e rest)
      obtain r' where r': "ring_pop_front (queue_ring q p) = (Some e, r')" "phase_ring_ok r'"
        "ring_capacity r' = c" "ring_events r' = rest"
        using ring.pop_entry[OF r(1)] r(2) Cons by (auto simp: bus_of_def)
      define q1 where "q1 = \<lparr>phases = (phases q)[phase_index p := r'],
        stats = (stats q)\<lparr>drained := bump (drained (stats q))\<rparr>\<rparr>"
      have q1: "queue_ok c q1" unfolding q1_def
        using r' r(3,4) solo_tl[OF r(3)] Cons by (intro queue_ok_update[OF "1.prems"(1)]) simp_all
      have a1: "accounted q1" unfolding q1_def by (rule pop_ring_accounted[OF "1.prems"(1,2) r'(1)])
      obtain n2 es2 where "drain_phase_loop p mx (Suc n) q1 = (n2, es2, q')"
        using "1.prems"(3) True r'(1)
        by (auto simp: drain_phase_loop.simps[of p mx n q] q1_def queue_ring_def split: prod.splits)
      with "1.IH"[OF refl True, of "Some e" r' e, folded q1_def queue_ring_def, OF r'(1)[symmetric] refl q1 a1]
      show ?thesis by blast
    qed
  next
    case False
    with "1.prems" show ?thesis by (simp add: drain_phase_loop.simps[of p mx n q])
  qed
qed

lemma queue_reachable_inv:
  assumes "queue_reachable c q"
  shows "queue_ok (max c 1) q \<and> accounted q"
  using assms
proof induction
  case new
  have "accounted (with_phase_capacity c)"
    by (simp add: accounted_def with_phase_capacity_def default_stats_def queue_len_def
        ring_with_capacity_def Let_def sum_list_replicate)
  with queue_ok_initial show ?case by blast
next
  case (push q e)
  then show ?case using queue_push_refines(1) queue_push_accounted by blast
next
  case (pop q)
  then show ?case using queue_pop_refines(1) pop_phases_accounted unfolding queue_pop_def by blast
next
  case (drain_one q p mx n es q')
  then show ?case
    using drain_phase_loop_order drain_phase_loop_accounted unfolding drain_phase_def by blast
qed

section \<open>Properties\<close>

text \<open>C5. A push refines the abstract bus and keeps the invariant: it replaces in place the one buffered
  event the new one coalesces with, otherwise appends it to its phase, and drops it only when that
  phase is at capacity; nothing else changes.\<close>

theorem event_push_refines:
  assumes "queue_ok c q"
  shows "queue_ok c (snd (queue_push e q)) \<and>
         (fst (queue_push e q), bus_of (snd (queue_push e q))) = spec_push c e (bus_of q)"
  using queue_push_refines[OF assms] by blast

theorem event_push_refines_witness:
  "(fst (queue_push RedrawAll (with_phase_capacity 4 :: int event_queue)),
    bus_of (snd (queue_push RedrawAll (with_phase_capacity 4)))) =
   (Queued, (\<lambda>_. [])(PhScene := [RedrawAll :: int event]))"
proof -
  have ok: "queue_ok 4 (with_phase_capacity 4 :: int event_queue)" using queue_ok_initial[of 4] by simp
  have "bus_of (with_phase_capacity 4 :: int event_queue) = (\<lambda>_. [])"
    by (simp add: fun_eq_iff bus_of_initial)
  then show ?thesis using event_push_refines[OF ok, of RedrawAll] by (simp add: spec_push_def)
qed

text \<open>C27. Draining delivers events in phase order and, within a phase, in the order of the ring: \<open>drain\<close>
  hands the callback exactly the first \<open>max\<close> buffered events of that order, reports how many, and
  leaves exactly the rest.\<close>

theorem event_drain_in_phase_order:
  assumes "queue_ok c q" "queue_drain mx q = (n, es, q')"
  shows "es = take mx (bus_order (bus_of q)) \<and> n = min mx (length (bus_order (bus_of q))) \<and>
         sorted (map event_phase es) \<and> queue_ok c q' \<and>
         bus_order (bus_of q') = drop mx (bus_order (bus_of q))"
proof -
  have d: "queue_ok c q'" "es = take mx (bus_order (bus_of q))" "n = length es"
    "bus_order (bus_of q') = drop mx (bus_order (bus_of q))"
    using drain_loop_order[OF assms(1), of mx 0] assms(2) by (auto simp: queue_drain_def)
  have "sorted (map event_phase es)"
    using bus_order_sorted[OF assms(1)] by (simp add: d(2) sorted_wrt_take flip: take_map)
  with d show ?thesis by (simp add: min.commute)
qed

definition sample_queue :: "int event_queue" where
  "sample_queue =
     snd (queue_push (Input (PointerMotion 1 1 30))
       (snd (queue_push (Input (PointerButton 272 True 20))
         (snd (queue_push (Input (PointerMotion 0 0 10))
           (snd (queue_push Shutdown (with_phase_capacity 4))))))))"

lemma sample_queue_ok: "queue_ok 4 sample_queue"
  unfolding sample_queue_def
  by (intro queue_push_refines(1)) (use queue_ok_initial[of 4] in simp)

lemma sample_queue_order:
  "bus_order (bus_of sample_queue) =
   [Input (PointerMotion 1 1 30), Input (PointerButton 272 True 20), Shutdown]"
proof -
  define q0 :: "int event_queue" where "q0 = with_phase_capacity 4"
  have ok: "queue_ok 4 q0" using queue_ok_initial[of 4] by (simp add: q0_def)
  have b0: "bus_of q0 = (\<lambda>_. [])" by (simp add: q0_def fun_eq_iff bus_of_initial)
  note step = queue_push_refines
  have push: "queue_ok 4 q \<Longrightarrow> bus_of (snd (queue_push e q)) = snd (spec_push 4 e (bus_of q))"
    for q :: "int event_queue" and e using step(2)[of 4 q e] by (metis snd_conv)
  show ?thesis
    unfolding sample_queue_def q0_def[symmetric]
    by (simp add: push step(1) ok b0 spec_push_def coalesces_with_def merge_event_def bus_order_def PHASES_def)
qed

theorem event_drain_in_phase_order_witness:
  "fst (snd (queue_drain 2 sample_queue)) = [Input (PointerMotion 1 1 30), Input (PointerButton 272 True 20)]"
  using event_drain_in_phase_order[OF sample_queue_ok, of 2]
  by (cases "queue_drain 2 sample_queue") (simp add: sample_queue_order)

text \<open>C28. A reachable queue never buffers two events that coalesce, keeps every event in the ring of its
  own phase, never holds more than the capacity per phase, and its counters account for every
  event: as long as the push counter has not saturated, the events pushed are exactly those
  drained plus those still buffered.\<close>

theorem event_queue_reachable_sound:
  assumes "queue_reachable c q"
  shows "(\<forall>p. sorted_wrt (\<lambda>a b. \<not> coalesces_with a b) (bus_of q p) \<and> length (bus_of q p) \<le> max c 1 \<and>
              (\<forall>e \<in> set (bus_of q p). event_phase e = p)) \<and>
         (pushed (stats q) < U64_MAX \<longrightarrow> pushed (stats q) = drained (stats q) + int (queue_len q))"
proof -
  have ok: "queue_ok (max c 1) q" and acc: "accounted q" using queue_reachable_inv[OF assms] by auto
  have "length (bus_of q p) \<le> max c 1" for p
    using ring.entries_bound[of "queue_ring q p"] ok by (simp add: queue_ok_def bus_of_def)
  then show ?thesis
    using ok acc by (auto simp: queue_ok_def accounted_def solo_iff sorted_wrt_iff_nth_less)
qed

theorem event_queue_reachable_sound_witness:
  "sorted_wrt (\<lambda>a b. \<not> coalesces_with a b) (bus_of sample_queue PhInput) \<and>
   length (bus_of sample_queue PhInput) \<le> 4"
proof -
  have "queue_reachable 4 sample_queue"
    unfolding sample_queue_def by (intro queue_reachable.intros)
  from event_queue_reachable_sound[OF this] show ?thesis by simp
qed

text \<open>Coalescing looks past every other event of the ring, so a motion that merges with one queued
  before a button press is delivered ahead of the press although it was sampled after it: on a
  ring holding a motion and then a button press, pushing a newer motion delivers the newer motion
  first.\<close>

lemma event_coalesce_overtakes_button:
  assumes "queue_ok c q" "bus_of q PhInput = [Input (PointerMotion x y t), Input (PointerButton b s t')]"
  shows "bus_of (snd (queue_push (Input (PointerMotion x' y' t'')) q)) PhInput =
         [Input (PointerMotion x' y' t''), Input (PointerButton b s t')]"
proof -
  have "bus_of (snd (queue_push (Input (PointerMotion x' y' t'')) q)) =
      snd (spec_push c (Input (PointerMotion x' y' t'')) (bus_of q))"
    using queue_push_refines(2)[OF assms(1)] by (metis snd_conv)
  then show ?thesis by (simp add: spec_push_def assms(2) coalesces_with_def merge_event_def)
qed

end
