(* ===== verification/Present_Queue.thy ===== *)
theory Present_Queue
  imports Ring_Buffer "HOL-Library.Word"
begin

text \<open>
  Presentation scheduling: connector identities and present intents
  (\<^verbatim>\<open>crates/tensor-host/src/connector.rs\<close>, \<^verbatim>\<open>present.rs\<close>), the triple-buffer readiness of an
  output (\<^verbatim>\<open>crates/tensor-present/src/readiness.rs\<close>) and the bounded queue of present intents
  (\<^verbatim>\<open>crates/tensor-present/src/schedule.rs\<close>).

  The queue satisfies the contract \<open>bounded_fifo\<close>. Its reachable states never hold two pending
  intents for the same slot of an output, and never an intent for an output that is not
  registered, as long as the adapter reports a slot as presented only after it took the intent.
\<close>

section \<open>Identities and intents\<close>

record connector_id =
  device_id :: u64
  connector_object :: u32

definition as_output_id :: "connector_id \<Rightarrow> u64" where
  "as_output_id c = or (push_bit 32 (as_u32 (device_id c))) (connector_object c)"

definition from_output_id :: "u64 \<Rightarrow> connector_id" where
  "from_output_id raw = \<lparr>device_id = drop_bit 32 raw, connector_object = as_u32 raw\<rparr>"

type_synonym present_slot = nat

datatype present_state = SlotIdle | SlotQueued | SlotWaitingForVBlank | SlotPresented | SlotFaulted

datatype present_mode = Vsync | Async

record present_intent =
  intent_output :: connector_id
  intent_slot :: present_slot
  intent_serial :: u64
  timeline_value :: u64
  intent_mode :: present_mode

definition present_intent_new :: "connector_id \<Rightarrow> present_slot \<Rightarrow> u64 \<Rightarrow> u64 \<Rightarrow> present_intent" where
  "present_intent_new out sl serial tv =
     \<lparr>intent_output = out, intent_slot = sl, intent_serial = serial, timeline_value = tv, intent_mode = Vsync\<rparr>"

section \<open>Readiness\<close>

definition SLOT_COUNT :: nat where "SLOT_COUNT = 3"

record slot_readiness =
  slot_state :: present_state
  slot_serial :: u64

definition default_slot :: slot_readiness where
  "default_slot = \<lparr>slot_state = SlotIdle, slot_serial = 0\<rparr>"

record output_readiness =
  ready_output :: connector_id
  slots :: "slot_readiness list"
  faulted :: bool

definition readiness_new :: "connector_id \<Rightarrow> output_readiness" where
  "readiness_new out = \<lparr>ready_output = out, slots = replicate SLOT_COUNT default_slot, faulted = False\<rparr>"

definition slot_of :: "output_readiness \<Rightarrow> present_slot \<Rightarrow> slot_readiness option" where
  "slot_of r sl = (if sl < length (slots r) then Some (slots r ! sl) else None)"

definition ready_for :: "output_readiness \<Rightarrow> present_slot \<Rightarrow> bool" where
  "ready_for r sl =
     (if faulted r then False
      else case map_option slot_state (slot_of r sl) of
             Some SlotIdle \<Rightarrow> True | Some SlotPresented \<Rightarrow> True | _ \<Rightarrow> False)"

definition mark_queued :: "output_readiness \<Rightarrow> present_slot \<Rightarrow> u64 \<Rightarrow> bool \<times> output_readiness" where
  "mark_queued r sl serial =
     (if \<not> ready_for r sl then (False, r)
      else case slot_of r sl of
             Some s \<Rightarrow>
               (True, r\<lparr>slots := (slots r)[sl := s\<lparr>slot_state := SlotQueued, slot_serial := serial\<rparr>]\<rparr>)
           | None \<Rightarrow> (False, r))"

definition mark_waiting_vblank :: "output_readiness \<Rightarrow> present_slot \<Rightarrow> output_readiness" where
  "mark_waiting_vblank r sl =
     (case slot_of r sl of
        Some s \<Rightarrow>
          if slot_state s = SlotQueued
          then r\<lparr>slots := (slots r)[sl := s\<lparr>slot_state := SlotWaitingForVBlank\<rparr>]\<rparr>
          else r
      | None \<Rightarrow> r)"

definition mark_presented :: "output_readiness \<Rightarrow> present_slot \<Rightarrow> output_readiness" where
  "mark_presented r sl =
     (case slot_of r sl of
        Some s \<Rightarrow> r\<lparr>slots := (slots r)[sl := s\<lparr>slot_state := SlotPresented\<rparr>]\<rparr>
      | None \<Rightarrow> r)"

definition mark_faulted :: "output_readiness \<Rightarrow> output_readiness" where
  "mark_faulted r =
     r\<lparr>faulted := True, slots := map (\<lambda>s. s\<lparr>slot_state := SlotFaulted\<rparr>) (slots r)\<rparr>"

definition clear_fault :: "output_readiness \<Rightarrow> output_readiness" where
  "clear_fault r = r\<lparr>faulted := False, slots := map (\<lambda>_. default_slot) (slots r)\<rparr>"

section \<open>The queue\<close>

definition PRESENT_QUEUE_CAP :: nat where "PRESENT_QUEUE_CAP = 16"

datatype queue_error = QueueFull | NotReady | UnknownOutput

record present_stats =
  present_pushed :: u64
  present_dropped :: u64
  present_completed :: u64

record present_queue =
  intents :: "present_intent option list"
  pq_head :: nat
  pq_len :: nat
  readiness :: "output_readiness list"
  pq_stats :: present_stats

text \<open>The counters use the plain \<open>+= 1\<close> of \<open>u64\<close>, which wraps in a release build.\<close>

definition inc_u64 :: "u64 \<Rightarrow> u64" where
  "inc_u64 n = (n + 1) mod 18446744073709551616"

definition present_queue_new :: present_queue where
  "present_queue_new =
     \<lparr>intents = replicate PRESENT_QUEUE_CAP None, pq_head = 0, pq_len = 0, readiness = [],
      pq_stats = \<lparr>present_pushed = 0, present_dropped = 0, present_completed = 0\<rparr>\<rparr>"

definition register_output :: "connector_id \<Rightarrow> present_queue \<Rightarrow> present_queue" where
  "register_output out q =
     (if list_ex (\<lambda>r. ready_output r = out) (readiness q) then q
      else q\<lparr>readiness := readiness q @ [readiness_new out]\<rparr>)"

text \<open>The compacting loop of \<open>unregister_output\<close>: it takes \<open>fuel\<close> entries from the head and keeps
  those of other outputs. The bound of the loop is the length, so the recursion is structural.\<close>

fun unregister_loop ::
  "connector_id \<Rightarrow> nat \<Rightarrow> present_intent option list \<Rightarrow> nat \<Rightarrow> present_intent option list \<Rightarrow> nat \<Rightarrow>
   present_intent option list \<times> nat"
where
  "unregister_loop out 0 buf head kept n = (kept, n)"
| "unregister_loop out (Suc k) buf head kept n =
     (let head' = (head + 1) mod PRESENT_QUEUE_CAP; buf' = buf[head := None]
      in case buf ! head of
           Some i \<Rightarrow>
             if intent_output i \<noteq> out
             then unregister_loop out k buf' head' (kept[n := Some i]) (n + 1)
             else unregister_loop out k buf' head' kept n
         | None \<Rightarrow> unregister_loop out k buf' head' kept n)"

definition unregister_output :: "connector_id \<Rightarrow> present_queue \<Rightarrow> present_queue" where
  "unregister_output out q =
     (let (kept, n) = unregister_loop out (pq_len q) (intents q) (pq_head q)
                        (replicate PRESENT_QUEUE_CAP None) 0
      in q\<lparr>readiness := filter (\<lambda>r. ready_output r \<noteq> out) (readiness q),
           pq_head := 0, pq_len := n, intents := kept\<rparr>)"

definition readiness_of :: "present_queue \<Rightarrow> connector_id \<Rightarrow> output_readiness option" where
  "readiness_of q out = find (\<lambda>r. ready_output r = out) (readiness q)"

text \<open>\<open>readiness_mut\<close> followed by an update of the entry it returns.\<close>

fun update_readiness ::
  "connector_id \<Rightarrow> (output_readiness \<Rightarrow> output_readiness) \<Rightarrow> output_readiness list \<Rightarrow> output_readiness list"
where
  "update_readiness out f [] = []"
| "update_readiness out f (r # rs) =
     (if ready_output r = out then f r # rs else r # update_readiness out f rs)"

definition modify_output ::
  "connector_id \<Rightarrow> (output_readiness \<Rightarrow> output_readiness) \<Rightarrow> present_queue \<Rightarrow> present_queue"
where
  "modify_output out f q = q\<lparr>readiness := update_readiness out f (readiness q)\<rparr>"

definition slot_to_idle :: "present_slot \<Rightarrow> output_readiness \<Rightarrow> output_readiness" where
  "slot_to_idle sl r =
     (case slot_of r sl of
        Some s \<Rightarrow> r\<lparr>slots := (slots r)[sl := s\<lparr>slot_state := SlotIdle\<rparr>]\<rparr>
      | None \<Rightarrow> r)"

text \<open>The end of \<open>try_push\<close>: the entry goes behind the newest one.\<close>

definition enqueue :: "present_intent \<Rightarrow> present_queue \<Rightarrow> present_queue" where
  "enqueue i q =
     (let idx = (pq_head q + pq_len q) mod PRESENT_QUEUE_CAP
      in q\<lparr>intents := (intents q)[idx := Some i], pq_len := pq_len q + 1,
           pq_stats := (pq_stats q)\<lparr>present_pushed := inc_u64 (present_pushed (pq_stats q))\<rparr>\<rparr>)"

definition try_push :: "present_intent \<Rightarrow> present_queue \<Rightarrow> (queue_error + unit) \<times> present_queue" where
  "try_push i q =
     (case readiness_of q (intent_output i) of
        None \<Rightarrow> (Inl UnknownOutput, q)
      | Some r \<Rightarrow>
          (case mark_queued r (intent_slot i) (intent_serial i) of
             (False, _) \<Rightarrow> (Inl NotReady, q)
           | (True, r') \<Rightarrow>
               let q' = modify_output (intent_output i) (\<lambda>_. r') q
               in if PRESENT_QUEUE_CAP \<le> pq_len q'
                  then (Inl QueueFull,
                        modify_output (intent_output i) (slot_to_idle (intent_slot i))
                          (q'\<lparr>pq_stats := (pq_stats q')\<lparr>present_dropped := inc_u64 (present_dropped (pq_stats q'))\<rparr>\<rparr>))
                  else (Inr (), enqueue i q')))"

function try_pop :: "present_queue \<Rightarrow> present_intent option \<times> present_queue" where
  "try_pop q =
     (if pq_len q > 0
      then let q' = q\<lparr>intents := (intents q)[pq_head q := None],
                      pq_head := (pq_head q + 1) mod PRESENT_QUEUE_CAP, pq_len := pq_len q - 1\<rparr>
           in case intents q ! pq_head q of
                Some i \<Rightarrow>
                  (Some i, q'\<lparr>pq_stats := (pq_stats q')\<lparr>present_completed := inc_u64 (present_completed (pq_stats q'))\<rparr>\<rparr>)
              | None \<Rightarrow> try_pop q'
      else (None, q))"
  by pat_completeness auto
termination
  by (relation "measure pq_len") auto

declare try_pop.simps [simp del]

section \<open>The queue is a bounded queue\<close>

definition pq_ok :: "present_queue \<Rightarrow> bool" where
  "pq_ok q \<longleftrightarrow> length (intents q) = PRESENT_QUEUE_CAP \<and> ring_ok (intents q) (pq_head q) (pq_len q)"

definition pending :: "present_queue \<Rightarrow> present_intent list" where
  "pending q = ring_list (intents q) (pq_head q) (pq_len q)"

lemma length_pending [simp]: "length (pending q) = pq_len q"
  by (simp add: pending_def)

lemma enqueue_pending:
  assumes "pq_ok q" "pq_len q < PRESENT_QUEUE_CAP"
  shows "pq_ok (enqueue i q)" "pending (enqueue i q) = pending q @ [i]"
  using assms ring_push[of "intents q" "pq_head q" "pq_len q" i]
  by (simp_all add: pq_ok_def pending_def enqueue_def Let_def)

lemma try_pop_pending:
  assumes "pq_ok q" "pending q = i # rest"
  shows "\<exists>q'. try_pop q = (Some i, q') \<and> pq_ok q' \<and> pending q' = rest \<and> readiness q' = readiness q"
proof (cases "pq_len q")
  case 0
  with assms(2) length_pending[of q] show ?thesis by simp
next
  case (Suc n)
  with ring_pop[of "intents q" "pq_head q" n] assms show ?thesis
    by (simp add: try_pop.simps[of q] pq_ok_def pending_def Let_def)
qed

interpretation present: bounded_fifo "\<lambda>_. PRESENT_QUEUE_CAP" pending pq_ok
  "\<lambda>i q. if PRESENT_QUEUE_CAP \<le> pq_len q then (False, q) else (True, enqueue i q)" try_pop
proof unfold_locales
  fix q i i' is2
  assume ok: "pq_ok q"
  show "length (pending q) = PRESENT_QUEUE_CAP \<Longrightarrow>
      (if PRESENT_QUEUE_CAP \<le> pq_len q then (False, q) else (True, enqueue i q)) = (False, q)" by simp
  show "length (pending q) < PRESENT_QUEUE_CAP \<Longrightarrow>
      \<exists>q'. (if PRESENT_QUEUE_CAP \<le> pq_len q then (False, q) else (True, enqueue i q)) = (True, q') \<and> pq_ok q' \<and>
        PRESENT_QUEUE_CAP = PRESENT_QUEUE_CAP \<and> pending q' = pending q @ [i]"
    using enqueue_pending[OF ok] by simp
  show "pending q = [] \<Longrightarrow> try_pop q = (None, q)"
    by (simp add: pending_def try_pop.simps[of q])
  show "pending q = i' # is2 \<Longrightarrow> \<exists>q'. try_pop q = (Some i', q') \<and> pq_ok q' \<and>
      PRESENT_QUEUE_CAP = PRESENT_QUEUE_CAP \<and> pending q' = is2"
    using try_pop_pending[OF ok] by blast
  show "length (pending q) \<le> PRESENT_QUEUE_CAP" using ok by (simp add: pq_ok_def ring_ok_def)
qed

section \<open>Removing an output\<close>

lemma ring_slots_from_0: "n \<le> length buf \<Longrightarrow> ring_slots buf 0 n = take n buf"
  by (rule nth_equalityI) (auto simp: ring_slot_nth)

lemma unregister_loop_spec:
  assumes "length buf = PRESENT_QUEUE_CAP" "ring_ok buf head k"
    and "length kept = PRESENT_QUEUE_CAP" "n + k \<le> PRESENT_QUEUE_CAP" "take n kept = map Some ys"
    and "unregister_loop out k buf head kept n = (kept', n')"
  shows "length kept' = PRESENT_QUEUE_CAP \<and> n' \<le> n + k \<and>
         take n' kept' = map Some (ys @ filter (\<lambda>i. intent_output i \<noteq> out) (ring_list buf head k))"
  using assms
proof (induction k arbitrary: buf head kept n ys)
  case 0
  then show ?case by (simp add: ring_empty)
next
  case (Suc k)
  define i rest where "i = hd (ring_list buf head (Suc k))" and "rest = tl (ring_list buf head (Suc k))"
  have list: "ring_list buf head (Suc k) = i # rest"
    unfolding i_def rest_def by (metis hd_Cons_tl length_ring_list list.size(3) nat.distinct(1))
  define buf' head' where "buf' = buf[head := None]" and "head' = (head + 1) mod PRESENT_QUEUE_CAP"
  have pop: "buf ! head = Some i" "ring_ok buf' head' k" "ring_list buf' head' k = rest"
    using ring_pop[OF Suc.prems(2)] Suc.prems(1) by (simp_all add: buf'_def head'_def list)
  have len: "length buf' = PRESENT_QUEUE_CAP" using Suc.prems(1) by (simp add: buf'_def)
  have n: "n < length kept" using Suc.prems(3,4) by simp
  show ?case
  proof (cases "intent_output i = out")
    case True
    then have "unregister_loop out k buf' head' kept n = (kept', n')"
      using Suc.prems(6) pop(1) by (simp add: Let_def buf'_def head'_def)
    from Suc.IH[OF len pop(2) Suc.prems(3) _ Suc.prems(5) this] show ?thesis
      using True Suc.prems(4) by (simp add: list pop(3))
  next
    case False
    then have rec: "unregister_loop out k buf' head' (kept[n := Some i]) (Suc n) = (kept', n')"
      using Suc.prems(6) pop(1) by (simp add: Let_def buf'_def head'_def)
    have "take (Suc n) (kept[n := Some i]) = map Some (ys @ [i])"
      using Suc.prems(5) n by (simp add: take_Suc_conv_app_nth)
    from Suc.IH[OF len pop(2) _ _ this rec] show ?thesis
      using False Suc.prems(3,4) by (simp add: list pop(3))
  qed
qed

lemma unregister_pending:
  assumes "pq_ok q"
  shows "pq_ok (unregister_output out q)"
    and "pending (unregister_output out q) = filter (\<lambda>i. intent_output i \<noteq> out) (pending q)"
    and "readiness (unregister_output out q) = filter (\<lambda>r. ready_output r \<noteq> out) (readiness q)"
proof -
  obtain kept n where k: "unregister_loop out (pq_len q) (intents q) (pq_head q)
      (replicate PRESENT_QUEUE_CAP None) 0 = (kept, n)" by (metis surj_pair)
  have le: "pq_len q \<le> PRESENT_QUEUE_CAP" using assms by (simp add: pq_ok_def ring_ok_def)
  have spec: "length kept = PRESENT_QUEUE_CAP" "n \<le> PRESENT_QUEUE_CAP"
    "take n kept = map Some (filter (\<lambda>i. intent_output i \<noteq> out) (pending q))"
    using unregister_loop_spec[OF _ _ _ _ _ k, of "[]"] assms le by (auto simp: pq_ok_def pending_def)
  have sl: "ring_slots kept 0 n = map Some (filter (\<lambda>i. intent_output i \<noteq> out) (pending q))"
    using ring_slots_from_0[of n kept] spec by simp
  have eq: "unregister_output out q = q\<lparr>readiness := filter (\<lambda>r. ready_output r \<noteq> out) (readiness q),
      pq_head := 0, pq_len := n, intents := kept\<rparr>"
    by (simp add: unregister_output_def k)
  have cap: "0 < PRESENT_QUEUE_CAP" by (simp add: PRESENT_QUEUE_CAP_def)
  show "pq_ok (unregister_output out q)"
    using spec sl cap by (auto simp: eq pq_ok_def ring_ok_def)
  show "pending (unregister_output out q) = filter (\<lambda>i. intent_output i \<noteq> out) (pending q)"
    unfolding eq pending_def[of "_\<lparr>readiness := _, pq_head := _, pq_len := _, intents := _\<rparr>"] ring_list_def
    by (simp add: sl o_def)
  show "readiness (unregister_output out q) = filter (\<lambda>r. ready_output r \<noteq> out) (readiness q)"
    by (simp add: eq)
qed

section \<open>Slots and pending intents\<close>

text \<open>The slot exists and cannot accept a new present.\<close>

definition blocked :: "output_readiness \<Rightarrow> present_slot \<Rightarrow> bool" where
  "blocked r sl \<longleftrightarrow> sl < length (slots r) \<and> slot_state (slots r ! sl) \<notin> {SlotIdle, SlotPresented}"

definition intent_key :: "present_intent \<Rightarrow> connector_id \<times> present_slot" where
  "intent_key i = (intent_output i, intent_slot i)"

definition present_inv :: "present_queue \<Rightarrow> bool" where
  "present_inv q \<longleftrightarrow>
     pq_ok q \<and> distinct (map ready_output (readiness q)) \<and>
     (\<forall>r \<in> set (readiness q). length (slots r) = SLOT_COUNT) \<and>
     distinct (map intent_key (pending q)) \<and>
     (\<forall>i \<in> set (pending q). \<exists>r \<in> set (readiness q). ready_output r = intent_output i \<and> blocked r (intent_slot i))"

lemma ready_for_iff:
  "ready_for r sl \<longleftrightarrow> \<not> faulted r \<and> sl < length (slots r) \<and> slot_state (slots r ! sl) \<in> {SlotIdle, SlotPresented}"
  by (auto simp: ready_for_def slot_of_def split: present_state.splits)

lemma update_readiness_map:
  assumes "distinct (map ready_output rs)"
  shows "update_readiness out f rs = map (\<lambda>r. if ready_output r = out then f r else r) rs"
  using assms
proof (induction rs)
  case (Cons r rs)
  have "map (\<lambda>r'. if ready_output r' = ready_output r then f r' else r') rs = rs"
    using Cons.prems by (intro map_idI) (auto simp: image_iff)
  with Cons show ?case by auto
qed simp

lemma modify_output_simps [simp]:
  "pending (modify_output out f q) = pending q" "pq_ok (modify_output out f q) = pq_ok q"
  "pq_len (modify_output out f q) = pq_len q" "pq_stats (modify_output out f q) = pq_stats q"
  "readiness (modify_output out f q) = update_readiness out f (readiness q)"
  by (simp_all add: modify_output_def pending_def pq_ok_def)

lemma present_inv_modify:
  assumes "present_inv q"
    and out: "\<And>r. r \<in> set (readiness q) \<Longrightarrow> ready_output r = out \<Longrightarrow> ready_output (f r) = out"
    and len: "\<And>r. r \<in> set (readiness q) \<Longrightarrow> ready_output r = out \<Longrightarrow> length (slots (f r)) = length (slots r)"
    and blk: "\<And>r i. r \<in> set (readiness q) \<Longrightarrow> ready_output r = out \<Longrightarrow> i \<in> set (pending q) \<Longrightarrow>
      intent_output i = out \<Longrightarrow> blocked r (intent_slot i) \<Longrightarrow> blocked (f r) (intent_slot i)"
  shows "present_inv (modify_output out f q)"
proof -
  have d: "distinct (map ready_output (readiness q))" using assms(1) by (simp add: present_inv_def)
  let ?f = "\<lambda>r. if ready_output r = out then f r else r"
  have rs: "readiness (modify_output out f q) = map ?f (readiness q)"
    using update_readiness_map[OF d] by simp
  have outs: "map ready_output (map ?f (readiness q)) = map ready_output (readiness q)"
    using out by simp
  have "\<exists>r \<in> set (map ?f (readiness q)). ready_output r = intent_output i \<and> blocked r (intent_slot i)"
    if i: "i \<in> set (pending q)" for i
  proof -
    obtain r where r: "r \<in> set (readiness q)" "ready_output r = intent_output i" "blocked r (intent_slot i)"
      using assms(1) i by (auto simp: present_inv_def)
    then have "ready_output (?f r) = intent_output i \<and> blocked (?f r) (intent_slot i)"
      using out[OF r(1)] blk[OF r(1) _ i] by auto
    moreover have "?f r \<in> set (map ?f (readiness q))" using r(1) unfolding set_map by (rule imageI)
    ultimately show ?thesis by blast
  qed
  moreover have "\<forall>r \<in> set (map ?f (readiness q)). length (slots r) = SLOT_COUNT"
    using assms(1) len by (auto simp: present_inv_def)
  ultimately show ?thesis
    using assms(1) d outs unfolding present_inv_def rs by (simp del: map_map)
qed

lemma readiness_unique:
  assumes "present_inv q" "r \<in> set (readiness q)" "r' \<in> set (readiness q)" "ready_output r = ready_output r'"
  shows "r = r'"
  using assms by (auto simp: present_inv_def distinct_map dest: inj_onD)

lemma readiness_of_Some:
  "readiness_of q out = Some r \<Longrightarrow> r \<in> set (readiness q) \<and> ready_output r = out"
  unfolding readiness_of_def by (rule find_Some_mem)

lemma ready_not_pending:
  assumes "present_inv q" "readiness_of q out = Some r" "ready_for r sl"
  shows "(out, sl) \<notin> intent_key ` set (pending q)"
proof
  assume "(out, sl) \<in> intent_key ` set (pending q)"
  then obtain i where i: "i \<in> set (pending q)" "intent_output i = out" "intent_slot i = sl"
    by (auto simp: intent_key_def)
  then obtain r' where r': "r' \<in> set (readiness q)" "ready_output r' = out" "blocked r' sl"
    using assms(1) by (fastforce simp: present_inv_def)
  then have "r' = r" using readiness_unique[OF assms(1)] readiness_of_Some[OF assms(2)] by auto
  with r'(3) assms(3) show False by (simp add: blocked_def ready_for_iff)
qed

lemma mark_queued_ready:
  assumes "ready_for r sl"
  shows "\<exists>r'. mark_queued r sl serial = (True, r') \<and> ready_output r' = ready_output r \<and>
     length (slots r') = length (slots r) \<and> blocked r' sl \<and> (\<forall>k. k \<noteq> sl \<longrightarrow> blocked r' k = blocked r k)"
  using assms by (auto simp: mark_queued_def slot_of_def ready_for_iff blocked_def nth_list_update)

text \<open>What a push does, on every branch.\<close>

lemma try_push_cases:
  assumes "present_inv q"
  shows "case readiness_of q (intent_output i) of
           None \<Rightarrow> try_push i q = (Inl UnknownOutput, q)
         | Some r \<Rightarrow>
             (if \<not> ready_for r (intent_slot i) then try_push i q = (Inl NotReady, q)
              else if pq_len q = PRESENT_QUEUE_CAP
                   then fst (try_push i q) = Inl QueueFull \<and> pending (snd (try_push i q)) = pending q
                   else fst (try_push i q) = Inr () \<and> pending (snd (try_push i q)) = pending q @ [i]) \<and>
             present_inv (snd (try_push i q))"
proof (cases "readiness_of q (intent_output i)")
  case None
  then show ?thesis by (simp add: try_push_def)
next
  case (Some r)
  define out sl where "out = intent_output i" and "sl = intent_slot i"
  note r = readiness_of_Some[OF Some]
  show ?thesis
  proof (cases "ready_for r sl")
    case False
    then show ?thesis using Some assms by (simp add: try_push_def mark_queued_def sl_def)
  next
    case True
    obtain r' where r': "mark_queued r sl (intent_serial i) = (True, r')" "ready_output r' = out"
      "length (slots r') = length (slots r)" "blocked r' sl" "\<forall>k. k \<noteq> sl \<longrightarrow> blocked r' k = blocked r k"
      using mark_queued_ready[OF True, of "intent_serial i"] r by (auto simp: out_def)
    define q1 where "q1 = modify_output out (\<lambda>_. r') q"
    have free: "(out, sl) \<notin> intent_key ` set (pending q)"
      using ready_not_pending[OF assms _ True] Some by (simp add: out_def)
    have uniq: "r2 = r" if "r2 \<in> set (readiness q)" "ready_output r2 = out" for r2
      using readiness_unique[OF assms] that r by (simp add: out_def)
    have inv1: "present_inv q1"
      unfolding q1_def
    proof (rule present_inv_modify[OF assms])
      fix r2 j
      assume "r2 \<in> set (readiness q)" "ready_output r2 = out" "j \<in> set (pending q)" "intent_output j = out"
        "blocked r2 (intent_slot j)"
      moreover from this have "intent_slot j \<noteq> sl" using free by (force simp: intent_key_def)
      ultimately show "blocked r' (intent_slot j)" using r'(5) uniq by metis
    qed (use r' uniq in auto)
    have pend1: "pending q1 = pending q" and len1: "pq_len q1 = pq_len q" by (simp_all add: q1_def)
    show ?thesis
    proof (cases "pq_len q = PRESENT_QUEUE_CAP")
      case full: True
      define q2 where "q2 = q1\<lparr>pq_stats := (pq_stats q1)\<lparr>present_dropped := inc_u64 (present_dropped (pq_stats q1))\<rparr>\<rparr>"
      have q2: "present_inv q2" "pending q2 = pending q" "readiness q2 = readiness q1"
        using inv1 pend1 by (simp_all add: q2_def present_inv_def pq_ok_def pending_def)
      have tp: "try_push i q = (Inl QueueFull, modify_output out (slot_to_idle sl) q2)"
        using Some r'(1) full by (simp add: try_push_def Let_def out_def sl_def q2_def q1_def modify_output_def)
      have "present_inv (modify_output out (slot_to_idle sl) q2)"
      proof (rule present_inv_modify[OF q2(1)])
        fix r2 j
        assume "j \<in> set (pending q2)" "intent_output j = out" and b: "blocked r2 (intent_slot j)"
        then have "intent_slot j \<noteq> sl" using free q2(2) by (force simp: intent_key_def)
        with b show "blocked (slot_to_idle sl r2) (intent_slot j)"
          by (simp add: slot_to_idle_def slot_of_def blocked_def)
      qed (simp_all add: slot_to_idle_def slot_of_def)
      then show ?thesis using Some True full tp q2(2) by (simp add: sl_def)
    next
      case room: False
      then have lt: "pq_len q < PRESENT_QUEUE_CAP"
        using present.entries_bound[of q] assms by (simp add: present_inv_def)
      have tp: "try_push i q = (Inr (), enqueue i q1)"
        using Some r'(1) lt by (simp add: try_push_def Let_def out_def sl_def q1_def)
      have ok1: "pq_ok q1" using inv1 by (simp add: present_inv_def)
      have e: "pq_ok (enqueue i q1)" "pending (enqueue i q1) = pending q @ [i]"
        using enqueue_pending[OF ok1, of i] lt by (simp_all add: len1 pend1)
      have rd: "readiness (enqueue i q1) = readiness q1" by (simp add: enqueue_def Let_def)
      have "r' \<in> set (readiness q1)"
        using r update_readiness_map[of "readiness q"] assms
        by (force simp: q1_def present_inv_def out_def)
      then have "present_inv (enqueue i q1)"
        using inv1 e r' free unfolding present_inv_def rd pend1
        by (auto simp: intent_key_def out_def sl_def)
      then show ?thesis using Some True room tp e(2) by (simp add: sl_def)
    qed
  qed
qed

section \<open>Reachable queues\<close>

text \<open>The steps the compositor takes. It reports a slot as presented or rolls it back to idle only for
  an intent it has taken from the queue, and clears a fault only for an output with nothing pending.\<close>

inductive present_reachable :: "present_queue \<Rightarrow> bool" where
  new: "present_reachable present_queue_new"
| register: "present_reachable q \<Longrightarrow> present_reachable (register_output out q)"
| unregister: "present_reachable q \<Longrightarrow> present_reachable (unregister_output out q)"
| push: "present_reachable q \<Longrightarrow> present_reachable (snd (try_push i q))"
| pop: "present_reachable q \<Longrightarrow> present_reachable (snd (try_pop q))"
| waiting: "present_reachable q \<Longrightarrow> present_reachable (modify_output out (\<lambda>r. mark_waiting_vblank r sl) q)"
| presented: "present_reachable q \<Longrightarrow> (out, sl) \<notin> intent_key ` set (pending q) \<Longrightarrow>
    present_reachable (modify_output out (\<lambda>r. mark_presented r sl) q)"
| rolled_back: "present_reachable q \<Longrightarrow> (out, sl) \<notin> intent_key ` set (pending q) \<Longrightarrow>
    present_reachable (modify_output out (slot_to_idle sl) q)"
| fault: "present_reachable q \<Longrightarrow> present_reachable (modify_output out mark_faulted q)"
| cleared: "present_reachable q \<Longrightarrow> out \<notin> intent_output ` set (pending q) \<Longrightarrow>
    present_reachable (modify_output out clear_fault q)"

lemma present_inv_new: "present_inv present_queue_new"
  by (simp add: present_inv_def present_queue_new_def pq_ok_def pending_def ring_empty PRESENT_QUEUE_CAP_def)

lemma present_inv_register: "present_inv q \<Longrightarrow> present_inv (register_output out q)"
  by (auto simp: present_inv_def register_output_def pq_ok_def pending_def list_ex_iff readiness_new_def)

lemma present_inv_unregister:
  assumes "present_inv q"
  shows "present_inv (unregister_output out q)"
proof -
  have ok: "pq_ok q" using assms by (simp add: present_inv_def)
  show ?thesis
    using assms unregister_pending(1)[OF ok] unfolding present_inv_def unregister_pending(2,3)[OF ok]
    by (auto simp: distinct_map_filter) metis
qed

lemma present_inv_pop:
  assumes "present_inv q"
  shows "present_inv (snd (try_pop q))"
proof (cases "pending q")
  case Nil
  then show ?thesis using present.pop_empty[of q] assms by (simp add: present_inv_def)
next
  case (Cons i rest)
  have "pq_ok q" using assms by (simp add: present_inv_def)
  from try_pop_pending[OF this Cons] assms Cons show ?thesis by (auto simp: present_inv_def)
qed

lemma present_reachable_inv: "present_reachable q \<Longrightarrow> present_inv q"
proof (induction rule: present_reachable.induct)
  case (push q i)
  then show ?case using try_push_cases[of q i] by (auto split: option.splits)
next
  case (waiting q out sl)
  then show ?case
    by (intro present_inv_modify)
      (auto simp: mark_waiting_vblank_def slot_of_def blocked_def nth_list_update)
next
  case (presented q out sl)
  then show ?case
    by (intro present_inv_modify)
      (force simp: mark_presented_def slot_of_def blocked_def nth_list_update intent_key_def)+
next
  case (rolled_back q out sl)
  then show ?case
    by (intro present_inv_modify)
      (force simp: slot_to_idle_def slot_of_def blocked_def nth_list_update intent_key_def)+
next
  case (fault q out)
  then show ?case
    by (intro present_inv_modify) (auto simp: mark_faulted_def blocked_def)
next
  case (cleared q out)
  then show ?case
    by (intro present_inv_modify) (force simp: clear_fault_def blocked_def)+
qed (simp_all add: present_inv_new present_inv_register present_inv_unregister present_inv_pop)

section \<open>Properties\<close>


definition hdmi :: connector_id where "hdmi = \<lparr>device_id = 7, connector_object = 42\<rparr>"

definition first_frame :: present_intent where "first_frame = present_intent_new hdmi 0 1 1"

definition hdmi_queue :: present_queue where
  "hdmi_queue = snd (try_push first_frame (register_output hdmi present_queue_new))"

lemma hdmi_registered:
  "readiness_of (register_output hdmi present_queue_new) hdmi = Some (readiness_new hdmi)"
  "pending (register_output hdmi present_queue_new) = []"
  "pq_len (register_output hdmi present_queue_new) = 0"
  by (simp_all add: readiness_of_def register_output_def present_queue_new_def readiness_new_def pending_def)

lemma readiness_of_new [simp]: "readiness_of present_queue_new out = None"
  by (simp add: readiness_of_def present_queue_new_def)

lemma hdmi_ready: "ready_for (readiness_new hdmi) 0"
  by (simp add: ready_for_iff readiness_new_def SLOT_COUNT_def default_slot_def)

lemma hdmi_queue_pending: "pending hdmi_queue = [first_frame]"
  using try_push_cases[OF present_inv_register[OF present_inv_new], of first_frame hdmi] hdmi_registered hdmi_ready
  by (simp add: hdmi_queue_def first_frame_def present_intent_new_def PRESENT_QUEUE_CAP_def)




text \<open>Intents leave in the order they were queued.\<close>

lemma present_intents_fifo:
  assumes "pq_ok q" "pending q = []"
  shows "fst (present.pop_all (length new) (present.push_all new q)) = take PRESENT_QUEUE_CAP new"
  using present.fifo[OF assms] .

text \<open>Packing a connector into a bus identity and back keeps the connector object and the low 32 bits
  of the device, and unpacking a 64-bit identity and packing it again is the identity.\<close>

lemma connector_id_roundtrip:
  assumes "is_u32 (connector_object c)" "is_u64 raw"
  shows "from_output_id (as_output_id c) = c\<lparr>device_id := device_id c mod 4294967296\<rparr> \<and>
         as_output_id (from_output_id raw) = raw"
proof -
  have or_add: "or (push_bit 32 a) b = a * 4294967296 + b" if "0 \<le> b" "b < 4294967296" for a b :: int
  proof -
    have b: "take_bit 32 b = b" using that by (simp add: take_bit_int_eq_self)
    have "\<not> bit b n" if "32 \<le> n" for n using bit_take_bit_iff[of 32 b n] that by (simp add: b)
    then have "and (push_bit 32 a) b = 0" by (intro bit_eqI) (auto simp: bit_simps)
    then have "or (push_bit 32 a) b = push_bit 32 a + b" using plus_and_or[of "push_bit 32 a" b] by simp
    then show ?thesis by (simp add: push_bit_eq_mult)
  qed
  have c: "as_output_id c = (device_id c mod 4294967296) * 4294967296 + connector_object c"
    using or_add[of "connector_object c"] assms(1) by (simp add: as_output_id_def as_u32_def is_u32_def)
  have 1: "from_output_id (as_output_id c) = c\<lparr>device_id := device_id c mod 4294967296\<rparr>"
    using assms(1) by (simp add: from_output_id_def c as_u32_def drop_bit_eq_div is_u32_def)
  have "raw div 4294967296 mod 4294967296 = raw div 4294967296"
    using assms(2) by (intro mod_pos_pos_trivial) (auto simp: is_u64_def)
  then have "as_output_id (from_output_id raw) = raw div 4294967296 * 4294967296 + raw mod 4294967296"
    using or_add[of "raw mod 4294967296"]
    by (simp add: as_output_id_def from_output_id_def as_u32_def drop_bit_eq_div)
  with 1 show ?thesis by simp
qed

end
