(* ===== verification/Drm_Lease.thy ===== *)
theory Drm_Lease
  imports Present_Queue "HOL-Library.Product_Lexorder"
begin

text \<open>
  DRM leases, \<^verbatim>\<open>crates/tensor-drm/src/lease.rs\<close>: the catalog of connectors offered to lease
  clients, reservation, activation and revocation of leases, and the changes after a hotplug or a
  session switch.

  The registry invariant says that connectors and leases agree on who owns what; it is preserved
  by every operation, so a connector is never part of two leases, a failed reservation changes
  nothing, the validated reservation never reaches its \<open>expect\<close>, and a hotplug revokes exactly
  the leases it affects.
\<close>

section \<open>Model\<close>

definition MAX_LEASE_CONNECTORS :: nat where "MAX_LEASE_CONNECTORS = 32"
definition MAX_CONNECTORS_PER_LEASE :: nat where "MAX_CONNECTORS_PER_LEASE = 8"
definition MAX_ACTIVE_LEASES :: nat where "MAX_ACTIVE_LEASES = 16"

record lease_connector =
  lc_id :: connector_id
  lc_name :: string
  lc_description :: string
  lc_crtc_id :: u32
  lc_primary_plane_id :: u32

type_synonym lease_token = u64
type_synonym kernel_lease_id = u32

record lease_reservation =
  reservation_token :: lease_token
  reservation_connectors :: "lease_connector list"

record active_lease =
  active_token :: lease_token
  active_kernel_id :: kernel_lease_id
  active_connectors :: "connector_id list"

record lease_revocation =
  revocation_token :: lease_token
  revocation_kernel_id :: "kernel_lease_id option"

record lease_offer_changes =
  offered :: "lease_connector list"
  withdrawn :: "connector_id list"
  revoked :: "lease_revocation list"

definition no_changes :: lease_offer_changes where
  "no_changes = \<lparr>offered = [], withdrawn = [], revoked = []\<rparr>"

datatype lease_phase = Reserved | Active kernel_lease_id

record connector_record =
  descriptor :: lease_connector
  owner :: "lease_token option"

record lease_record =
  lease_token :: lease_token
  lease_connectors :: "connector_id list"
  lease_phase :: lease_phase

record lease_registry =
  session_active :: bool
  connectors :: "connector_record list"
  leases :: "lease_record list"
  next_token :: u64

text \<open>The last constructor is the panic of the \<open>expect\<close> in \<open>reserve\<close>.\<close>

datatype lease_error =
    SessionInactive
  | EmptyLease
  | WrongDevice connector_id
  | DuplicateConnector connector_id
  | UnavailableConnector connector_id
  | DuplicateCatalogConnector connector_id
  | ConnectorCapacity nat nat
  | TooManyRequestedConnectors nat nat
  | LeaseCapacity
  | UnknownLease lease_token
  | AlreadyActivated lease_token
  | ExpectedConnector connector_id

definition lease_registry_new :: lease_registry where
  "lease_registry_new = \<lparr>session_active = True, connectors = [], leases = [], next_token = 1\<rparr>"

definition available :: "lease_registry \<Rightarrow> lease_connector list" where
  "available R = map descriptor (filter (\<lambda>c. session_active R \<and> owner c = None) (connectors R))"

definition catalog :: "lease_registry \<Rightarrow> lease_connector list" where
  "catalog R = map descriptor (connectors R)"

text \<open>The loop that looks for a repeated connector, given those already seen.\<close>

fun find_duplicate :: "connector_id list \<Rightarrow> lease_connector list \<Rightarrow> connector_id option" where
  "find_duplicate seen [] = None"
| "find_duplicate seen (c # cs) =
     (if lc_id c \<in> set seen then Some (lc_id c) else find_duplicate (seen @ [lc_id c]) cs)"

definition validate_connector_catalog :: "lease_connector list \<Rightarrow> lease_error + unit" where
  "validate_connector_catalog cs =
     (if length cs > MAX_LEASE_CONNECTORS then Inl (ConnectorCapacity (length cs) MAX_LEASE_CONNECTORS)
      else case find_duplicate [] cs of
             Some i \<Rightarrow> Inl (DuplicateCatalogConnector i)
           | None \<Rightarrow> Inr ())"

definition lease_revoke :: "lease_token \<Rightarrow> lease_registry \<Rightarrow> lease_revocation option \<times> lease_registry" where
  "lease_revoke t R =
     (case position (\<lambda>l. lease_token l = t) (leases R) of
        None \<Rightarrow> (None, R)
      | Some i \<Rightarrow>
          (Some \<lparr>revocation_token = t,
                 revocation_kernel_id =
                   (case lease_phase (leases R ! i) of Reserved \<Rightarrow> None | Active k \<Rightarrow> Some k)\<rparr>,
           R\<lparr>leases := swap_remove i (leases R),
             connectors := map (\<lambda>c. if owner c = Some t then c\<lparr>owner := None\<rparr> else c) (connectors R)\<rparr>))"

fun revoke_all :: "lease_token list \<Rightarrow> lease_registry \<Rightarrow> lease_revocation list \<times> lease_registry" where
  "revoke_all [] R = ([], R)"
| "revoke_all (t # ts) R =
     (case lease_revoke t R of
        (Some rv, R') \<Rightarrow> (let (rvs, R'') = revoke_all ts R' in (rv # rvs, R''))
      | (None, R') \<Rightarrow> revoke_all ts R')"

definition connector_key :: "connector_id \<Rightarrow> u64 \<times> u32" where
  "connector_key c = (device_id c, connector_object c)"

text \<open>The new owner of a connector: the one its identity had.\<close>

definition old_owner :: "connector_record list \<Rightarrow> connector_id \<Rightarrow> lease_token option" where
  "old_owner old i =
     (case find (\<lambda>(k, t). k = i)
             (List.map_filter (\<lambda>c. map_option (\<lambda>t. (lc_id (descriptor c), t)) (owner c)) old) of
        None \<Rightarrow> None | Some (k, t) \<Rightarrow> Some t)"

definition reconcile_connectors ::
  "lease_connector list \<Rightarrow> lease_registry \<Rightarrow> (lease_error + lease_offer_changes) \<times> lease_registry"
where
  "reconcile_connectors new R =
     (case validate_connector_catalog new of
        Inl e \<Rightarrow> (Inl e, R)
      | Inr _ \<Rightarrow>
          (let cs = sort_key (\<lambda>c. connector_key (lc_id c)) new;
               previously = available R;
               changed = map (\<lambda>old. lc_id (descriptor old)) (filter (\<lambda>old. descriptor old \<notin> set cs) (connectors R));
               affected = map lease_token (filter (\<lambda>l. list_ex (\<lambda>c. c \<in> set changed) (lease_connectors l)) (leases R));
               (rvs, R1) = revoke_all affected R;
               R2 = R1\<lparr>connectors := map (\<lambda>d. \<lparr>descriptor = d, owner = old_owner (connectors R1) (lc_id d)\<rparr>) cs\<rparr>;
               currently = available R2
           in (Inr \<lparr>offered = filter (\<lambda>d. d \<notin> set previously) currently,
                    withdrawn = map lc_id (filter (\<lambda>d. d \<notin> set currently) previously),
                    revoked = rvs\<rparr>, R2)))"

definition set_session_active :: "bool \<Rightarrow> lease_registry \<Rightarrow> lease_offer_changes \<times> lease_registry" where
  "set_session_active active R =
     (if session_active R = active then (no_changes, R)
      else let previously = available R;
               R1 = R\<lparr>session_active := active\<rparr>;
               tokens = (if active then [] else map lease_token (leases R1));
               (rvs, R2) = revoke_all tokens R1;
               currently = available R2
           in (\<lparr>offered = currently, withdrawn = map lc_id previously, revoked = rvs\<rparr>, R2))"

text \<open>The validation loop of \<open>reserve\<close>.\<close>

fun validate_request ::
  "u64 \<Rightarrow> connector_record list \<Rightarrow> connector_id list \<Rightarrow> connector_id list \<Rightarrow> lease_error option"
where
  "validate_request dev recs seen [] = None"
| "validate_request dev recs seen (c # cs) =
     (if device_id c \<noteq> dev then Some (WrongDevice c)
      else if c \<in> set seen then Some (DuplicateConnector c)
      else case find (\<lambda>r. lc_id (descriptor r) = c) recs of
             None \<Rightarrow> Some (UnavailableConnector c)
           | Some r \<Rightarrow>
               if owner r \<noteq> None then Some (UnavailableConnector c)
               else validate_request dev recs (seen @ [c]) cs)"

fun set_owner :: "connector_id \<Rightarrow> lease_token \<Rightarrow> connector_record list \<Rightarrow> (lease_connector \<times> connector_record list) option" where
  "set_owner i t [] = None"
| "set_owner i t (r # rs) =
     (if lc_id (descriptor r) = i then Some (descriptor r, r\<lparr>owner := Some t\<rparr> # rs)
      else map_option (\<lambda>(d, rs'). (d, r # rs')) (set_owner i t rs))"

fun reserve_loop ::
  "lease_token \<Rightarrow> connector_id list \<Rightarrow> connector_record list \<Rightarrow>
   lease_error + (lease_connector list \<times> connector_record list)"
where
  "reserve_loop t [] recs = Inr ([], recs)"
| "reserve_loop t (i # ids) recs =
     (case set_owner i t recs of
        None \<Rightarrow> Inl (ExpectedConnector i)
      | Some (d, recs') \<Rightarrow>
          (case reserve_loop t ids recs' of
             Inl e \<Rightarrow> Inl e
           | Inr (ds, recs'') \<Rightarrow> Inr (d # ds, recs'')))"

text \<open>\<open>NonZeroU64::new(n.wrapping_add(1)).unwrap_or(NonZeroU64::MIN)\<close>.\<close>

definition token_succ :: "u64 \<Rightarrow> u64" where
  "token_succ n = (let m = (n + 1) mod 18446744073709551616 in if m = 0 then 1 else m)"

definition lease_reserve ::
  "u64 \<Rightarrow> connector_id list \<Rightarrow> lease_registry \<Rightarrow> (lease_error + lease_reservation) \<times> lease_registry"
where
  "lease_reserve dev requested R =
     (if \<not> session_active R then (Inl SessionInactive, R)
      else if requested = [] then (Inl EmptyLease, R)
      else if length requested > MAX_CONNECTORS_PER_LEASE
        then (Inl (TooManyRequestedConnectors (length requested) MAX_CONNECTORS_PER_LEASE), R)
      else if length (leases R) = MAX_ACTIVE_LEASES then (Inl LeaseCapacity, R)
      else case validate_request dev (connectors R) [] requested of
             Some e \<Rightarrow> (Inl e, R)
           | None \<Rightarrow>
               (let t = next_token R; R1 = R\<lparr>next_token := token_succ (next_token R)\<rparr>
                in case reserve_loop t requested (connectors R1) of
                     Inl e \<Rightarrow> (Inl e, R1)
                   | Inr (ds, recs) \<Rightarrow>
                       (Inr \<lparr>reservation_token = t, reservation_connectors = ds\<rparr>,
                        R1\<lparr>connectors := recs,
                           leases := leases R1 @ [\<lparr>lease_token = t, lease_connectors = requested, lease_phase = Reserved\<rparr>]\<rparr>)))"

definition lease_activate ::
  "lease_token \<Rightarrow> kernel_lease_id \<Rightarrow> lease_registry \<Rightarrow> (lease_error + active_lease) \<times> lease_registry"
where
  "lease_activate t k R =
     (case position (\<lambda>l. lease_token l = t) (leases R) of
        None \<Rightarrow> (Inl (UnknownLease t), R)
      | Some i \<Rightarrow>
          if lease_phase (leases R ! i) \<noteq> Reserved then (Inl (AlreadyActivated t), R)
          else (Inr \<lparr>active_token = t, active_kernel_id = k, active_connectors = lease_connectors (leases R ! i)\<rparr>,
                R\<lparr>leases := (leases R)[i := (leases R ! i)\<lparr>lease_phase := Active k\<rparr>]\<rparr>))"

section \<open>The registry invariant\<close>

definition record_ids :: "connector_record list \<Rightarrow> connector_id list" where
  "record_ids recs = map (\<lambda>c. lc_id (descriptor c)) recs"

text \<open>Connectors and leases agree on who owns what.\<close>

definition owners_agree :: "connector_record list \<Rightarrow> lease_record list \<Rightarrow> bool" where
  "owners_agree recs ls \<longleftrightarrow>
     (\<forall>l \<in> set ls. \<forall>i \<in> set (lease_connectors l).
        \<exists>c \<in> set recs. lc_id (descriptor c) = i \<and> owner c = Some (lease_token l)) \<and>
     (\<forall>c \<in> set recs. \<forall>t. owner c = Some t \<longrightarrow>
        (\<exists>l \<in> set ls. lease_token l = t \<and> lc_id (descriptor c) \<in> set (lease_connectors l)))"

definition lease_ok :: "lease_record \<Rightarrow> bool" where
  "lease_ok l \<longleftrightarrow> lease_connectors l \<noteq> [] \<and> distinct (lease_connectors l) \<and>
     length (lease_connectors l) \<le> MAX_CONNECTORS_PER_LEASE"

definition lease_inv :: "lease_registry \<Rightarrow> bool" where
  "lease_inv R \<longleftrightarrow>
     distinct (record_ids (connectors R)) \<and> length (connectors R) \<le> MAX_LEASE_CONNECTORS \<and>
     distinct (map lease_token (leases R)) \<and> length (leases R) \<le> MAX_ACTIVE_LEASES \<and>
     (\<forall>l \<in> set (leases R). 0 < lease_token l \<and> lease_token l < next_token R \<and> lease_ok l) \<and>
     owners_agree (connectors R) (leases R) \<and> (\<not> session_active R \<longrightarrow> leases R = [])"

section \<open>Revocation\<close>

definition revocation_of :: "lease_record \<Rightarrow> lease_revocation" where
  "revocation_of l = \<lparr>revocation_token = lease_token l,
     revocation_kernel_id = (case lease_phase l of Reserved \<Rightarrow> None | Active k \<Rightarrow> Some k)\<rparr>"

definition clear_owner :: "lease_token set \<Rightarrow> connector_record \<Rightarrow> connector_record" where
  "clear_owner ts c = (if \<exists>t \<in> ts. owner c = Some t then c\<lparr>owner := None\<rparr> else c)"

lemma clear_owner_descriptor [simp]: "descriptor (clear_owner ts c) = descriptor c"
  by (simp add: clear_owner_def)

lemma clear_owner_Some: "owner (clear_owner ts c) = Some t \<longleftrightarrow> owner c = Some t \<and> t \<notin> ts"
  by (auto simp: clear_owner_def)

lemma clear_owner_insert: "clear_owner ts (clear_owner {t} c) = clear_owner (insert t ts) c"
  by (auto simp: clear_owner_def)

lemma record_ids_clear [simp]: "record_ids (map (clear_owner ts) recs) = record_ids recs"
  by (simp add: record_ids_def)

lemma distinct_map_mset_subset:
  assumes "mset ys + {#x#} = mset xs" "distinct (map f xs)"
  shows "distinct (map f ys) \<and> f x \<notin> f ` set ys"
proof -
  have "mset (map f (x # ys)) = image_mset f (mset ys + {#x#})" by simp
  also have "\<dots> = mset (map f xs)" by (simp only: assms(1) mset_map)
  finally have "mset (map f (x # ys)) = mset (map f xs)" .
  then have "distinct (map f (x # ys))" using mset_eq_imp_distinct_iff assms(2) by blast
  then show ?thesis by simp
qed

lemma owners_agree_leaseD:
  assumes "owners_agree recs ls" "l \<in> set ls" "i \<in> set (lease_connectors l)"
  obtains c where "c \<in> set recs" "lc_id (descriptor c) = i" "owner c = Some (lease_token l)"
  using assms unfolding owners_agree_def by blast

lemma owners_agree_ownerD:
  assumes "owners_agree recs ls" "c \<in> set recs" "owner c = Some t"
  obtains l where "l \<in> set ls" "lease_token l = t" "lc_id (descriptor c) \<in> set (lease_connectors l)"
  using assms unfolding owners_agree_def by blast

lemma owners_agree_clear:
  assumes "owners_agree recs ls" "set ls' = {l \<in> set ls. lease_token l \<notin> ts}"
  shows "owners_agree (map (clear_owner ts) recs) ls'"
  unfolding owners_agree_def
proof (intro conjI ballI allI impI)
  fix l i assume l: "l \<in> set ls'" "i \<in> set (lease_connectors l)"
  then have ls: "l \<in> set ls" using assms(2) by simp
  obtain c where c: "c \<in> set recs" "lc_id (descriptor c) = i" "owner c = Some (lease_token l)"
    using owners_agree_leaseD[OF assms(1) ls l(2)] .
  then have "owner (clear_owner ts c) = Some (lease_token l)" using l(1) assms(2) by (simp add: clear_owner_Some)
  with c show "\<exists>c \<in> set (map (clear_owner ts) recs). lc_id (descriptor c) = i \<and> owner c = Some (lease_token l)"
    by auto
next
  fix c t assume "c \<in> set (map (clear_owner ts) recs)" "owner c = Some t"
  then obtain c0 where c0: "c0 \<in> set recs" "c = clear_owner ts c0" "owner c0 = Some t" "t \<notin> ts"
    by (auto simp: clear_owner_Some)
  obtain l where "l \<in> set ls" "lease_token l = t" "lc_id (descriptor c0) \<in> set (lease_connectors l)"
    using owners_agree_ownerD[OF assms(1) c0(1,3)] .
  with c0 show "\<exists>l \<in> set ls'. lease_token l = t \<and> lc_id (descriptor c) \<in> set (lease_connectors l)"
    using assms(2) by auto
qed

text \<open>What revoking a token does; nothing happens for a token that is not leased.\<close>

lemma lease_revoke_effect:
  assumes "lease_inv R"
  shows "lease_inv (snd (lease_revoke t R))"
    and "set (leases (snd (lease_revoke t R))) = {l \<in> set (leases R). lease_token l \<notin> {t}}"
    and "connectors (snd (lease_revoke t R)) = map (clear_owner {t}) (connectors R)"
    and "session_active (snd (lease_revoke t R)) = session_active R"
    and "next_token (snd (lease_revoke t R)) = next_token R"
    and "l \<in> set (leases R) \<Longrightarrow> lease_token l = t \<Longrightarrow> fst (lease_revoke t R) = Some (revocation_of l)"
proof -
  have inv: "distinct (map lease_token (leases R))" "owners_agree (connectors R) (leases R)"
    using assms by (simp_all add: lease_inv_def)
  define R' where "R' = snd (lease_revoke t R)"
  have main: "set (leases R') = {l \<in> set (leases R). lease_token l \<notin> {t}} \<and>
      connectors R' = map (clear_owner {t}) (connectors R) \<and> distinct (map lease_token (leases R')) \<and>
      length (leases R') \<le> length (leases R) \<and> session_active R' = session_active R \<and> next_token R' = next_token R"
  proof (cases "position (\<lambda>l. lease_token l = t) (leases R)")
    case None
    then have none: "\<forall>l \<in> set (leases R). lease_token l \<noteq> t" by (simp add: position_None_iff)
    then have "\<forall>c \<in> set (connectors R). owner c \<noteq> Some t" using inv(2) by (auto simp: owners_agree_def)
    then have "map (clear_owner {t}) (connectors R) = connectors R" by (intro map_idI) (auto simp: clear_owner_def)
    with None none inv(1) show ?thesis by (auto simp: R'_def lease_revoke_def)
  next
    case (Some i)
    then have i: "i < length (leases R)" "lease_token (leases R ! i) = t" by (simp_all add: position_Some_iff)
    note m = mset_swap_remove[OF i(1)]
    note d = distinct_map_mset_subset[OF m inv(1)]
    have "set (swap_remove i (leases R)) = {l \<in> set (leases R). lease_token l \<noteq> t}"
      using d i(2) unfolding set_swap_remove[OF i(1), symmetric] by (auto simp: image_iff)
    moreover have "length (swap_remove i (leases R)) \<le> length (leases R)" by (simp add: swap_remove_def)
    ultimately show ?thesis
      using Some d by (simp add: R'_def lease_revoke_def clear_owner_def)
  qed
  then have "owners_agree (connectors R') (leases R')" using owners_agree_clear[OF inv(2)] by metis
  then show "lease_inv (snd (lease_revoke t R))"
    using main assms unfolding R'_def[symmetric] lease_inv_def by auto
  show "set (leases (snd (lease_revoke t R))) = {l \<in> set (leases R). lease_token l \<notin> {t}}"
    "connectors (snd (lease_revoke t R)) = map (clear_owner {t}) (connectors R)"
    "session_active (snd (lease_revoke t R)) = session_active R"
    "next_token (snd (lease_revoke t R)) = next_token R"
    using main by (simp_all add: R'_def)
  show "fst (lease_revoke t R) = Some (revocation_of l)" if l: "l \<in> set (leases R)" "lease_token l = t"
  proof (cases "position (\<lambda>l. lease_token l = t) (leases R)")
    case None
    then show ?thesis using l by (auto simp: position_None_iff)
  next
    case (Some i)
    then have i: "i < length (leases R)" "lease_token (leases R ! i) = t" by (simp_all add: position_Some_iff)
    then have "leases R ! i = l" using inv(1) l by (auto simp: distinct_map dest: inj_onD)
    then show ?thesis using Some i by (auto simp: lease_revoke_def revocation_of_def)
  qed
qed

lemma revoke_all_effect:
  assumes "lease_inv R"
  shows "lease_inv (snd (revoke_all ts R)) \<and>
    set (leases (snd (revoke_all ts R))) = {l \<in> set (leases R). lease_token l \<notin> set ts} \<and>
    connectors (snd (revoke_all ts R)) = map (clear_owner (set ts)) (connectors R) \<and>
    session_active (snd (revoke_all ts R)) = session_active R \<and> next_token (snd (revoke_all ts R)) = next_token R"
  using assms
proof (induction ts arbitrary: R)
  case Nil
  have "map (clear_owner {}) cs = cs" for cs by (intro map_idI) (simp add: clear_owner_def)
  with Nil show ?case by simp
next
  case (Cons t ts)
  note e = lease_revoke_effect[OF Cons.prems, where t = t]
  have "snd (revoke_all (t # ts) R) = snd (revoke_all ts (snd (lease_revoke t R)))"
    by (auto simp: case_prod_beta split: option.splits prod.splits)
  with Cons.IH[OF e(1)] e show ?case by (auto simp: clear_owner_insert)
qed

lemma revoke_all_revocations:
  assumes "lease_inv R" "distinct (map lease_token ls)" "set ls \<subseteq> set (leases R)"
  shows "fst (revoke_all (map lease_token ls) R) = map revocation_of ls"
  using assms
proof (induction ls arbitrary: R)
  case (Cons l ls)
  note e = lease_revoke_effect[OF Cons.prems(1), where t = "lease_token l"]
  have "fst (lease_revoke (lease_token l) R) = Some (revocation_of l)" using e(6)[of l] Cons.prems(3) by simp
  moreover have "set ls \<subseteq> set (leases (snd (lease_revoke (lease_token l) R)))"
    using Cons.prems(2,3) unfolding e(2) by (auto simp: image_iff)
  ultimately show ?case
    using Cons.IH[OF e(1)] Cons.prems(2) by (cases "lease_revoke (lease_token l) R") (simp add: case_prod_beta)
qed simp

section \<open>Reservation\<close>

definition claim_owner :: "lease_token \<Rightarrow> connector_id list \<Rightarrow> connector_record \<Rightarrow> connector_record" where
  "claim_owner t ids c = (if lc_id (descriptor c) \<in> set ids then c\<lparr>owner := Some t\<rparr> else c)"

lemma claim_owner_descriptor [simp]: "descriptor (claim_owner t ids c) = descriptor c"
  by (simp add: claim_owner_def)

lemma record_ids_claim [simp]: "record_ids (map (claim_owner t ids) recs) = record_ids recs"
  by (simp add: record_ids_def)

lemma validate_request_None:
  "validate_request dev recs seen ids = None \<longleftrightarrow>
     (\<forall>i \<in> set ids. device_id i = dev \<and> i \<notin> set seen \<and>
        (\<exists>r. find (\<lambda>r. lc_id (descriptor r) = i) recs = Some r \<and> owner r = None)) \<and> distinct ids"
  by (induction ids arbitrary: seen) (auto split: option.splits)

lemma find_record:
  assumes "distinct (record_ids recs)"
  shows "find (\<lambda>r. lc_id (descriptor r) = i) recs = Some r \<longleftrightarrow> r \<in> set recs \<and> lc_id (descriptor r) = i"
  using assms by (induction recs) (auto simp: record_ids_def)

lemma set_owner_claim:
  assumes "distinct (record_ids recs)" "i \<in> set (record_ids recs)"
  shows "\<exists>d. set_owner i t recs = Some (d, map (claim_owner t [i]) recs) \<and> lc_id d = i \<and> d \<in> descriptor ` set recs"
  using assms
proof (induction recs)
  case (Cons r recs)
  show ?case
  proof (cases "lc_id (descriptor r) = i")
    case True
    then have "map (claim_owner t [i]) recs = recs"
      using Cons.prems(1) by (intro map_idI) (auto simp: claim_owner_def record_ids_def image_iff)
    with True show ?thesis by (simp add: claim_owner_def[of t "[i]" r])
  next
    case False
    then show ?thesis using Cons by (auto simp: record_ids_def claim_owner_def)
  qed
qed (simp add: record_ids_def)

lemma reserve_loop_claim:
  assumes "distinct (record_ids recs)" "set ids \<subseteq> set (record_ids recs)"
  shows "\<exists>ds. reserve_loop t ids recs = Inr (ds, map (claim_owner t ids) recs) \<and> map lc_id ds = ids \<and>
     set ds \<subseteq> descriptor ` set recs"
  using assms
proof (induction ids arbitrary: recs)
  case Nil
  have "map (claim_owner t []) recs = recs" by (intro map_idI) (simp add: claim_owner_def)
  then show ?case by simp
next
  case (Cons i ids)
  then obtain d where d: "set_owner i t recs = Some (d, map (claim_owner t [i]) recs)" "lc_id d = i"
    "d \<in> descriptor ` set recs" using set_owner_claim[of recs i t] by auto
  have "\<exists>ds. reserve_loop t ids (map (claim_owner t [i]) recs) =
      Inr (ds, map (claim_owner t ids) (map (claim_owner t [i]) recs)) \<and> map lc_id ds = ids \<and>
      set ds \<subseteq> descriptor ` set (map (claim_owner t [i]) recs)"
    using Cons.prems by (intro Cons.IH) simp_all
  moreover have "map (claim_owner t ids) (map (claim_owner t [i]) recs) = map (claim_owner t (i # ids)) recs"
    by (auto simp: claim_owner_def)
  ultimately show ?case using d by (auto simp: image_image)
qed

text \<open>The request is granted: the checks of \<open>reserve\<close>, stated on the catalog.\<close>

definition grantable :: "u64 \<Rightarrow> connector_id list \<Rightarrow> lease_registry \<Rightarrow> bool" where
  "grantable dev ids R \<longleftrightarrow>
     session_active R \<and> ids \<noteq> [] \<and> length ids \<le> MAX_CONNECTORS_PER_LEASE \<and> length (leases R) < MAX_ACTIVE_LEASES \<and>
     distinct ids \<and> (\<forall>i \<in> set ids. device_id i = dev \<and> i \<in> lc_id ` set (available R))"

definition new_lease :: "connector_id list \<Rightarrow> lease_registry \<Rightarrow> lease_record" where
  "new_lease ids R = \<lparr>lease_token = next_token R, lease_connectors = ids, lease_phase = Reserved\<rparr>"

lemma grantable_iff:
  assumes "lease_inv R"
  shows "grantable dev ids R \<longleftrightarrow>
    session_active R \<and> ids \<noteq> [] \<and> length ids \<le> MAX_CONNECTORS_PER_LEASE \<and> length (leases R) \<noteq> MAX_ACTIVE_LEASES \<and>
    validate_request dev (connectors R) [] ids = None"
proof -
  have d: "distinct (record_ids (connectors R))" and "length (leases R) \<le> MAX_ACTIVE_LEASES"
    using assms by (simp_all add: lease_inv_def)
  then show ?thesis
    by (auto simp: grantable_def validate_request_None find_record[OF d] available_def image_iff)
qed

lemma owners_agree_claim:
  assumes "owners_agree recs ls" "distinct (record_ids recs)" "set (lease_connectors l) \<subseteq> set (record_ids recs)"
    and free: "\<forall>c \<in> set recs. lc_id (descriptor c) \<in> set (lease_connectors l) \<longrightarrow> owner c = None"
  shows "owners_agree (map (claim_owner (lease_token l) (lease_connectors l)) recs) (ls @ [l])"
  unfolding owners_agree_def
proof (intro conjI ballI allI impI)
  fix m i assume m: "m \<in> set (ls @ [l])" "i \<in> set (lease_connectors m)"
  show "\<exists>c \<in> set (map (claim_owner (lease_token l) (lease_connectors l)) recs).
      lc_id (descriptor c) = i \<and> owner c = Some (lease_token m)"
  proof (cases "m = l")
    case True
    with m(2) assms(3) obtain c where "c \<in> set recs" "lc_id (descriptor c) = i" by (auto simp: record_ids_def)
    with m(2) True show ?thesis
      by (intro bexI[of _ "claim_owner (lease_token l) (lease_connectors l) c"]) (simp_all add: claim_owner_def)
  next
    case False
    then have "m \<in> set ls" using m(1) by simp
    from owners_agree_leaseD[OF assms(1) this m(2)] obtain c where
      c: "c \<in> set recs" "lc_id (descriptor c) = i" "owner c = Some (lease_token m)" .
    then have "claim_owner (lease_token l) (lease_connectors l) c = c" using free by (auto simp: claim_owner_def)
    with c show ?thesis by (metis imageI set_map)
  qed
next
  fix c t
  assume "c \<in> set (map (claim_owner (lease_token l) (lease_connectors l)) recs)" and t: "owner c = Some t"
  then obtain c0 where c0: "c0 \<in> set recs" "c = claim_owner (lease_token l) (lease_connectors l) c0" by auto
  show "\<exists>m \<in> set (ls @ [l]). lease_token m = t \<and> lc_id (descriptor c) \<in> set (lease_connectors m)"
  proof (cases "lc_id (descriptor c0) \<in> set (lease_connectors l)")
    case True
    then show ?thesis using c0 t by (simp add: claim_owner_def)
  next
    case False
    then have "owner c0 = Some t" using c0(2) t by (simp add: claim_owner_def)
    from owners_agree_ownerD[OF assms(1) c0(1) this] obtain m where
      "m \<in> set ls" "lease_token m = t" "lc_id (descriptor c0) \<in> set (lease_connectors m)" .
    with c0(2) show ?thesis by auto
  qed
qed

lemma lease_reserve_effect:
  assumes "lease_inv R"
  shows "\<not> grantable dev ids R \<Longrightarrow> snd (lease_reserve dev ids R) = R \<and> (\<exists>e. fst (lease_reserve dev ids R) = Inl e)"
    and "grantable dev ids R \<Longrightarrow>
      (\<exists>ds. lease_reserve dev ids R =
         (Inr \<lparr>reservation_token = next_token R, reservation_connectors = ds\<rparr>,
          R\<lparr>next_token := token_succ (next_token R), leases := leases R @ [new_lease ids R],
            connectors := map (claim_owner (next_token R) ids) (connectors R)\<rparr>) \<and>
       map lc_id ds = ids \<and> set ds \<subseteq> set (available R))"
proof -
  show "snd (lease_reserve dev ids R) = R \<and> (\<exists>e. fst (lease_reserve dev ids R) = Inl e)" if "\<not> grantable dev ids R"
    using that unfolding grantable_iff[OF assms]
    by (auto simp: lease_reserve_def split: option.splits)
  assume g: "grantable dev ids R"
  have d: "distinct (record_ids (connectors R))" using assms by (simp add: lease_inv_def)
  have ids: "set ids \<subseteq> set (record_ids (connectors R))" "\<forall>i \<in> set ids. i \<in> lc_id ` set (available R)"
    using g by (auto simp: grantable_def available_def record_ids_def)
  obtain ds where ds: "reserve_loop (next_token R) ids (connectors R) =
      Inr (ds, map (claim_owner (next_token R) ids) (connectors R))" "map lc_id ds = ids"
      "set ds \<subseteq> descriptor ` set (connectors R)"
    using reserve_loop_claim[OF d ids(1)] by blast
  have "x \<in> set (available R)" if x: "x \<in> set ds" for x
  proof -
    obtain c where c: "c \<in> set (connectors R)" "x = descriptor c" using x ds(3) by auto
    have "lc_id x \<in> lc_id ` set (available R)" using x ds(2) ids(2) by (metis imageI set_map)
    then obtain c' where c': "c' \<in> set (connectors R)" "lc_id (descriptor c') = lc_id x" "owner c' = None"
      "session_active R" by (auto simp: available_def)
    then have "c' = c" using find_record[OF d, of "lc_id x"] c by (metis option.inject)
    then show ?thesis using c c' by (auto simp: available_def)
  qed
  then have "set ds \<subseteq> set (available R)" by blast
  with g ds show "\<exists>ds. lease_reserve dev ids R =
         (Inr \<lparr>reservation_token = next_token R, reservation_connectors = ds\<rparr>,
          R\<lparr>next_token := token_succ (next_token R), leases := leases R @ [new_lease ids R],
            connectors := map (claim_owner (next_token R) ids) (connectors R)\<rparr>) \<and>
       map lc_id ds = ids \<and> set ds \<subseteq> set (available R)"
    unfolding grantable_iff[OF assms] by (auto simp: lease_reserve_def Let_def new_lease_def)
qed

lemma lease_inv_reserve:
  assumes "lease_inv R" "0 < next_token R" "next_token R < U64_MAX"
  shows "lease_inv (snd (lease_reserve dev ids R))" "0 < next_token (snd (lease_reserve dev ids R))"
proof -
  have "lease_inv (snd (lease_reserve dev ids R)) \<and> 0 < next_token (snd (lease_reserve dev ids R))"
  proof (cases "grantable dev ids R")
    case False
    then show ?thesis using lease_reserve_effect(1)[OF assms(1) False] assms by simp
  next
    case True
    have succ: "token_succ (next_token R) = next_token R + 1" using assms(2,3) by (simp add: token_succ_def Let_def)
    have ids: "set ids \<subseteq> set (record_ids (connectors R))" "ids \<noteq> []" "distinct ids"
      "length ids \<le> MAX_CONNECTORS_PER_LEASE" "length (leases R) < MAX_ACTIVE_LEASES" "session_active R"
      using True by (auto simp: grantable_def available_def record_ids_def)
    have d: "distinct (record_ids (connectors R))" "owners_agree (connectors R) (leases R)"
      using assms(1) by (simp_all add: lease_inv_def)
    have "\<forall>c \<in> set (connectors R). lc_id (descriptor c) \<in> set ids \<longrightarrow> owner c = None"
    proof (intro ballI impI)
      fix c assume c: "c \<in> set (connectors R)" "lc_id (descriptor c) \<in> set ids"
      then have "lc_id (descriptor c) \<in> lc_id ` set (available R)" using True by (simp add: grantable_def)
      then obtain c' where "c' \<in> set (connectors R)" "lc_id (descriptor c') = lc_id (descriptor c)" "owner c' = None"
        by (auto simp: available_def)
      then show "owner c = None" using find_record[OF d(1), of "lc_id (descriptor c)"] c by (metis option.inject)
    qed
    then have agree: "owners_agree (map (claim_owner (next_token R) ids) (connectors R)) (leases R @ [new_lease ids R])"
      using owners_agree_claim[OF d(2,1), of "new_lease ids R"] ids(1) by (simp add: new_lease_def)
    have fresh: "\<forall>l \<in> set (leases R). lease_token l < next_token R" using assms(1) by (simp add: lease_inv_def)
    obtain ds where "lease_reserve dev ids R = (Inr \<lparr>reservation_token = next_token R, reservation_connectors = ds\<rparr>,
        R\<lparr>next_token := token_succ (next_token R), leases := leases R @ [new_lease ids R],
          connectors := map (claim_owner (next_token R) ids) (connectors R)\<rparr>)"
      using lease_reserve_effect(2)[OF assms(1) True] by blast
    then show ?thesis
      using assms ids agree fresh d(1)
      by (auto simp: lease_inv_def succ lease_ok_def new_lease_def)
  qed
  then show "lease_inv (snd (lease_reserve dev ids R))" "0 < next_token (snd (lease_reserve dev ids R))" by blast+
qed

section \<open>Hotplug\<close>

lemma find_duplicate_None:
  "find_duplicate seen cs = None \<longleftrightarrow> distinct (map lc_id cs) \<and> set seen \<inter> lc_id ` set cs = {}"
  by (induction cs arbitrary: seen) auto

lemma validate_catalog_iff:
  "validate_connector_catalog cs = Inr () \<longleftrightarrow> length cs \<le> MAX_LEASE_CONNECTORS \<and> distinct (map lc_id cs)"
  using find_duplicate_None[of "[]" cs] by (auto simp: validate_connector_catalog_def split: option.splits)

lemma old_owner_Some:
  assumes "distinct (record_ids recs)"
  shows "old_owner recs i = Some t \<longleftrightarrow> (\<exists>c \<in> set recs. lc_id (descriptor c) = i \<and> owner c = Some t)"
  using assms
proof (induction recs)
  case (Cons c recs)
  have old: "old_owner (c # recs) i =
      (if lc_id (descriptor c) = i \<and> owner c \<noteq> None then owner c else old_owner recs i)"
    by (cases "owner c") (auto simp: old_owner_def map_filter_simps)
  show ?case
  proof (cases "lc_id (descriptor c) = i")
    case True
    then have "\<not> (\<exists>c \<in> set recs. lc_id (descriptor c) = i)"
      using Cons.prems by (auto simp: record_ids_def image_iff)
    then show ?thesis using Cons True unfolding old by (auto simp: record_ids_def)
  next
    case False
    then show ?thesis using Cons unfolding old by (simp add: record_ids_def)
  qed
qed (simp add: old_owner_def map_filter_simps)

text \<open>The connectors whose descriptor the new catalog no longer has, and the leases that hold one.\<close>

definition changed_connectors :: "lease_connector list \<Rightarrow> lease_registry \<Rightarrow> connector_id set" where
  "changed_connectors new R = {i. \<exists>c \<in> set (connectors R). descriptor c \<notin> set new \<and> lc_id (descriptor c) = i}"

definition affected_leases :: "lease_connector list \<Rightarrow> lease_registry \<Rightarrow> lease_record list" where
  "affected_leases new R = filter (\<lambda>l. \<exists>i \<in> set (lease_connectors l). i \<in> changed_connectors new R) (leases R)"

definition catalog_order :: "lease_connector list \<Rightarrow> lease_connector list" where
  "catalog_order new = sort_key (\<lambda>c. connector_key (lc_id c)) new"

definition reconciled :: "lease_connector list \<Rightarrow> lease_registry \<Rightarrow> lease_registry" where
  "reconciled new R =
     (let R1 = snd (revoke_all (map lease_token (affected_leases new R)) R)
      in R1\<lparr>connectors := map (\<lambda>d. \<lparr>descriptor = d, owner = old_owner (connectors R1) (lc_id d)\<rparr>) (catalog_order new)\<rparr>)"

lemma reconcile_effect:
  assumes "lease_inv R" "validate_connector_catalog new = Inr ()"
  shows "reconcile_connectors new R =
    (Inr \<lparr>offered = filter (\<lambda>d. d \<notin> set (available R)) (available (reconciled new R)),
          withdrawn = map lc_id (filter (\<lambda>d. d \<notin> set (available (reconciled new R))) (available R)),
          revoked = map revocation_of (affected_leases new R)\<rparr>, reconciled new R)"
proof -
  have A: "distinct (map lease_token (affected_leases new R))" "set (affected_leases new R) \<subseteq> set (leases R)"
    using assms(1) by (auto simp: affected_leases_def lease_inv_def distinct_map_filter)
  have eq: "filter (\<lambda>l. list_ex (\<lambda>c. c \<in> set (map (\<lambda>old. lc_id (descriptor old))
      (filter (\<lambda>old. descriptor old \<notin> set (catalog_order new)) (connectors R)))) (lease_connectors l)) (leases R) =
      affected_leases new R"
    unfolding affected_leases_def
    by (rule filter_cong[OF refl]) (auto simp: list_ex_iff changed_connectors_def catalog_order_def)
  show ?thesis
    unfolding reconcile_connectors_def assms(2) sum.case Let_def case_prod_beta catalog_order_def[symmetric] eq
      revoke_all_revocations[OF assms(1) A] reconciled_def ..
qed

lemma lease_inv_reconcile:
  assumes "lease_inv R"
  shows "lease_inv (snd (reconcile_connectors new R))"
proof (cases "validate_connector_catalog new")
  case (Inl e)
  then show ?thesis using assms by (simp add: reconcile_connectors_def)
next
  case (Inr u)
  then have v: "validate_connector_catalog new = Inr ()" by simp
  then have new: "length new \<le> MAX_LEASE_CONNECTORS" "distinct (map lc_id new)" by (simp_all add: validate_catalog_iff)
  define A where "A = affected_leases new R"
  define R1 where "R1 = snd (revoke_all (map lease_token A) R)"
  define R2 where "R2 = reconciled new R"
  have R2: "R2 = R1\<lparr>connectors := map (\<lambda>d. \<lparr>descriptor = d, owner = old_owner (connectors R1) (lc_id d)\<rparr>) (catalog_order new)\<rparr>"
    by (simp add: R2_def reconciled_def Let_def R1_def A_def)
  have snd: "snd (reconcile_connectors new R) = R2" by (simp add: reconcile_effect[OF assms v] R2_def)
  note e = revoke_all_effect[OF assms, of "map lease_token A", folded R1_def]
  have inv1: "lease_inv R1" using e by simp
  have set_cat: "set (catalog_order new) = set new" by (simp add: catalog_order_def)
  have "mset (map lc_id (catalog_order new)) = mset (map lc_id new)" by (simp add: catalog_order_def)
  then have dist: "distinct (map lc_id (catalog_order new))" using new(2) mset_eq_imp_distinct_iff by blast
  have d1: "distinct (record_ids (connectors R1))" and agree1: "owners_agree (connectors R1) (leases R1)"
    using inv1 by (simp_all add: lease_inv_def)
  have "owners_agree (connectors R2) (leases R1)"
    unfolding owners_agree_def
  proof (intro conjI ballI allI impI)
    fix l i assume l: "l \<in> set (leases R1)" "i \<in> set (lease_connectors l)"
    obtain c where c: "c \<in> set (connectors R1)" "lc_id (descriptor c) = i" "owner c = Some (lease_token l)"
      using owners_agree_leaseD[OF agree1 l] .
    then obtain c0 where c0: "c0 \<in> set (connectors R)" "descriptor c0 = descriptor c" using e by auto
    have "l \<notin> set A" using l(1) e by auto
    then have "i \<notin> changed_connectors new R" using l e by (auto simp: A_def affected_leases_def)
    then have "descriptor c \<in> set (catalog_order new)" using c0 c(2) set_cat by (auto simp: changed_connectors_def)
    then show "\<exists>c \<in> set (connectors R2). lc_id (descriptor c) = i \<and> owner c = Some (lease_token l)"
      using c old_owner_Some[OF d1, of i "lease_token l"] by (auto simp: R2 intro!: bexI[of _ "descriptor c"])
  next
    fix c t assume "c \<in> set (connectors R2)" "owner c = Some t"
    then obtain c1 where "c1 \<in> set (connectors R1)" "lc_id (descriptor c1) = lc_id (descriptor c)" "owner c1 = Some t"
      using old_owner_Some[OF d1] by (auto simp: R2)
    then show "\<exists>l \<in> set (leases R1). lease_token l = t \<and> lc_id (descriptor c) \<in> set (lease_connectors l)"
      using owners_agree_ownerD[OF agree1, of c1 t] by metis
  qed
  then show ?thesis
    using inv1 dist new(1) unfolding snd lease_inv_def
    by (simp add: R2 record_ids_def comp_def catalog_order_def)
qed

lemma lease_inv_session:
  assumes "lease_inv R"
  shows "lease_inv (snd (set_session_active active R))"
    and "next_token (snd (set_session_active active R)) = next_token R"
proof -
  define R1 where "R1 = R\<lparr>session_active := True\<rparr>"
  have inv1: "lease_inv R1" using assms by (simp add: lease_inv_def R1_def)
  have flip: "snd (revoke_all ts (R\<lparr>session_active := b\<rparr>)) = (snd (revoke_all ts R1))\<lparr>session_active := b\<rparr>" for ts b
  proof -
    have "snd (lease_revoke t (Q\<lparr>session_active := b\<rparr>)) = (snd (lease_revoke t Q))\<lparr>session_active := b\<rparr>" for t Q
      by (simp add: lease_revoke_def split: option.splits)
    moreover have "snd (revoke_all (t # ts) Q) = snd (revoke_all ts (snd (lease_revoke t Q)))" for t ts Q
      by (auto simp: case_prod_beta split: option.splits prod.splits)
    ultimately have "snd (revoke_all ts (Q\<lparr>session_active := b\<rparr>)) = (snd (revoke_all ts Q))\<lparr>session_active := b\<rparr>" for Q
      by (induction ts arbitrary: Q) (simp_all del: revoke_all.simps(2))
    from this[of R1] show ?thesis by (simp add: R1_def)
  qed
  note e = revoke_all_effect[OF inv1, of "map lease_token (leases R)"]
  define S where "S = snd (revoke_all (map lease_token (leases R)) R1)"
  have "lease_inv S" "set (leases S) = {l \<in> set (leases R). lease_token l \<notin> lease_token ` set (leases R)}"
    using e by (simp_all add: S_def) (simp add: R1_def)
  moreover have "{l \<in> set (leases R). lease_token l \<notin> lease_token ` set (leases R)} = {}" by blast
  ultimately have S: "lease_inv S" "leases S = []" by simp_all
  have off: "lease_inv (snd (revoke_all (map lease_token (leases R)) (R\<lparr>session_active := False\<rparr>)))"
    unfolding flip S_def[symmetric] using S by (simp add: lease_inv_def)
  show "lease_inv (snd (set_session_active active R))"
    using assms off inv1 by (auto simp: set_session_active_def Let_def case_prod_beta R1_def)
  show "next_token (snd (set_session_active active R)) = next_token R"
    using e flip[of "map lease_token (leases R)" False]
    by (auto simp: set_session_active_def Let_def case_prod_beta R1_def)
qed

lemma lease_inv_activate:
  assumes "lease_inv R"
  shows "lease_inv (snd (lease_activate t k R))"
proof (cases "position (\<lambda>l. lease_token l = t) (leases R)")
  case (Some i)
  then have i: "i < length (leases R)" by (simp add: position_Some_iff)
  define l where "l = (leases R ! i)\<lparr>lease_phase := Active k\<rparr>"
  have same: "map lease_token ((leases R)[i := l]) = map lease_token (leases R)"
    and same2: "map (\<lambda>l. (lease_token l, lease_connectors l)) ((leases R)[i := l]) =
      map (\<lambda>l. (lease_token l, lease_connectors l)) (leases R)"
    using i by (simp_all add: map_update l_def list_update_same_conv)
  have pairs: "(\<lambda>l. (lease_token l, lease_connectors l)) ` set ((leases R)[i := l]) =
      (\<lambda>l. (lease_token l, lease_connectors l)) ` set (leases R)"
    using arg_cong[OF same2, of set] by simp
  have agree: "owners_agree recs ls \<longleftrightarrow>
      (\<forall>(t, cs) \<in> (\<lambda>l. (lease_token l, lease_connectors l)) ` set ls. \<forall>i \<in> set cs.
         \<exists>c \<in> set recs. lc_id (descriptor c) = i \<and> owner c = Some t) \<and>
      (\<forall>c \<in> set recs. \<forall>t. owner c = Some t \<longrightarrow>
         (\<exists>(t', cs) \<in> (\<lambda>l. (lease_token l, lease_connectors l)) ` set ls. t' = t \<and> lc_id (descriptor c) \<in> set cs))" for recs ls
    by (simp add: owners_agree_def)
  have ok: "(\<forall>l \<in> set ls. 0 < lease_token l \<and> lease_token l < n \<and> lease_ok l) \<longleftrightarrow>
      (\<forall>(t, cs) \<in> (\<lambda>l. (lease_token l, lease_connectors l)) ` set ls. 0 < t \<and> t < n \<and>
        cs \<noteq> [] \<and> distinct cs \<and> length cs \<le> MAX_CONNECTORS_PER_LEASE)" for ls n
    by (simp add: lease_ok_def)
  have "lease_inv (R\<lparr>leases := (leases R)[i := l]\<rparr>)"
    using assms same i unfolding lease_inv_def agree ok
    by (simp add: pairs[unfolded set_map] del: map_update)
  with Some assms show ?thesis by (simp add: lease_activate_def l_def)
qed (use assms in \<open>simp add: lease_activate_def\<close>)

section \<open>Reachable registries\<close>

text \<open>The operations of the registry, with fewer than \<open>2 ^ 64 - 1\<close> reservations made: the token counter
  has not wrapped.\<close>

inductive lease_reachable :: "lease_registry \<Rightarrow> bool" where
  new: "lease_reachable lease_registry_new"
| reconcile: "lease_reachable R \<Longrightarrow> lease_reachable (snd (reconcile_connectors cs R))"
| session: "lease_reachable R \<Longrightarrow> lease_reachable (snd (set_session_active b R))"
| reserve: "lease_reachable R \<Longrightarrow> next_token R < 18446744073709551615 \<Longrightarrow>
    lease_reachable (snd (lease_reserve dev ids R))"
| activate: "lease_reachable R \<Longrightarrow> lease_reachable (snd (lease_activate t k R))"
| revoke: "lease_reachable R \<Longrightarrow> lease_reachable (snd (lease_revoke t R))"

lemma next_token_reconcile:
  assumes "lease_inv R"
  shows "next_token (snd (reconcile_connectors cs R)) = next_token R"
proof (cases "validate_connector_catalog cs")
  case (Inr u)
  then have v: "validate_connector_catalog cs = Inr ()" by simp
  show ?thesis
    using revoke_all_effect[OF assms, of "map lease_token (affected_leases cs R)"]
    by (simp add: reconcile_effect[OF assms v] reconciled_def Let_def)
qed (simp add: reconcile_connectors_def)

lemma lease_reachable_inv: "lease_reachable R \<Longrightarrow> lease_inv R \<and> 0 < next_token R"
proof (induction rule: lease_reachable.induct)
  case new
  then show ?case by (simp add: lease_registry_new_def lease_inv_def record_ids_def owners_agree_def)
next
  case (reconcile R cs)
  then show ?case using lease_inv_reconcile next_token_reconcile by simp
next
  case (session R b)
  then show ?case using lease_inv_session by simp
next
  case (reserve R dev ids)
  then show ?case using lease_inv_reserve by blast
next
  case (activate R t k)
  moreover have "next_token (snd (lease_activate t k R)) = next_token R"
    by (simp add: lease_activate_def split: option.splits)
  ultimately show ?case using lease_inv_activate by simp
next
  case (revoke R t)
  then show ?case using lease_revoke_effect(1,5) by simp
qed

section \<open>Properties\<close>


definition hmd :: lease_connector where
  "hmd = \<lparr>lc_id = hdmi, lc_name = ''HDMI-1'', lc_description = ''headset'', lc_crtc_id = 101, lc_primary_plane_id = 201\<rparr>"

definition hmd_registry :: lease_registry where
  "hmd_registry = snd (reconcile_connectors [hmd] lease_registry_new)"

lemma hmd_registry_eq:
  "hmd_registry = \<lparr>session_active = True, connectors = [\<lparr>descriptor = hmd, owner = None\<rparr>], leases = [], next_token = 1\<rparr>"
  by (simp add: hmd_registry_def reconcile_connectors_def validate_connector_catalog_def MAX_LEASE_CONNECTORS_def
      lease_registry_new_def Let_def available_def old_owner_def map_filter_simps)

lemma hmd_registry_reachable: "lease_reachable hmd_registry"
  unfolding hmd_registry_def by (intro lease_reachable.intros)

definition leased_registry :: lease_registry where
  "leased_registry = snd (lease_reserve 7 [hdmi] hmd_registry)"

lemma leased_registry_eq:
  "leased_registry = \<lparr>session_active = True, connectors = [\<lparr>descriptor = hmd, owner = Some 1\<rparr>],
     leases = [\<lparr>lease_token = 1, lease_connectors = [hdmi], lease_phase = Reserved\<rparr>], next_token = 2\<rparr>"
  by (simp add: leased_registry_def hmd_registry_eq lease_reserve_def hmd_def hdmi_def
      MAX_CONNECTORS_PER_LEASE_def MAX_ACTIVE_LEASES_def token_succ_def Let_def)

lemma leased_registry_reachable: "lease_reachable leased_registry"
  unfolding leased_registry_def
  by (intro lease_reachable.intros hmd_registry_reachable) (simp add: hmd_registry_eq)


text \<open>C32. A reservation is atomic: it is granted exactly when the session is active, the capacity allows it
  and every requested connector is distinct, on the device and offered; then it takes exactly these
  connectors under a fresh token. Otherwise the registry is unchanged and an error other than the
  \<open>expect\<close> of the claiming loop is reported: that panic is unreachable.\<close>

theorem lease_reserve_atomic:
  assumes "lease_reachable R"
  shows "if grantable dev ids R
         then \<exists>ds. fst (lease_reserve dev ids R) = Inr \<lparr>reservation_token = next_token R, reservation_connectors = ds\<rparr> \<and>
                map lc_id ds = ids \<and> set ds \<subseteq> set (available R) \<and>
                set (available (snd (lease_reserve dev ids R))) = {d \<in> set (available R). lc_id d \<notin> set ids} \<and>
                next_token R \<notin> lease_token ` set (leases R)
         else snd (lease_reserve dev ids R) = R \<and>
              (\<exists>e. fst (lease_reserve dev ids R) = Inl e \<and> (\<forall>i. e \<noteq> ExpectedConnector i))"
proof (cases "grantable dev ids R")
  case True
  have inv: "lease_inv R" using lease_reachable_inv[OF assms] by simp
  have fresh: "next_token R \<notin> lease_token ` set (leases R)" using inv by (auto simp: lease_inv_def)
  obtain ds where ds: "lease_reserve dev ids R =
      (Inr \<lparr>reservation_token = next_token R, reservation_connectors = ds\<rparr>,
       R\<lparr>next_token := token_succ (next_token R), leases := leases R @ [new_lease ids R],
         connectors := map (claim_owner (next_token R) ids) (connectors R)\<rparr>)"
    "map lc_id ds = ids" "set ds \<subseteq> set (available R)"
    using lease_reserve_effect(2)[OF inv True] by blast
  have "set (available (snd (lease_reserve dev ids R))) = {d \<in> set (available R). lc_id d \<notin> set ids}"
    by (auto simp: ds(1) available_def claim_owner_def)
  with True ds fresh show ?thesis by simp
next
  case False
  have inv: "lease_inv R" using lease_reachable_inv[OF assms] by simp
  have vr: "validate_request dev recs seen js \<noteq> Some (ExpectedConnector i)" for recs seen js i
    by (induction js arbitrary: seen) (auto split: option.splits)
  have "fst (lease_reserve dev ids R) \<noteq> Inl (ExpectedConnector i)" for i
    using False vr unfolding grantable_iff[OF inv] by (auto simp: lease_reserve_def split: option.splits)
  with False lease_reserve_effect(1)[OF inv False] show ?thesis by force
qed

theorem lease_reserve_atomic_witness:
  "fst (lease_reserve 7 [hdmi] hmd_registry) = Inr \<lparr>reservation_token = 1, reservation_connectors = [hmd]\<rparr> \<and>
   set (available leased_registry) = {}"
proof -
  have g: "grantable 7 [hdmi] hmd_registry"
    by (simp add: grantable_def hmd_registry_eq MAX_CONNECTORS_PER_LEASE_def MAX_ACTIVE_LEASES_def available_def hmd_def hdmi_def)
  have av: "available hmd_registry = [hmd]" by (simp add: available_def hmd_registry_eq)
  obtain ds where "fst (lease_reserve 7 [hdmi] hmd_registry) = Inr \<lparr>reservation_token = 1, reservation_connectors = ds\<rparr>"
    "map lc_id ds = [hdmi]" "set ds \<subseteq> {hmd}" "set (available leased_registry) = {d \<in> {hmd}. lc_id d \<notin> {hdmi}}"
    using lease_reserve_atomic[OF hmd_registry_reachable, of 7 "[hdmi]"] g
    by (auto simp: av leased_registry_def) (simp add: hmd_registry_eq)
  then show ?thesis by (cases ds) (auto simp: hmd_def)
qed

text \<open>C33. A hotplug revokes exactly the leases it affects: after a valid new catalog, the revoked leases are
  those that held a connector whose descriptor disappeared or changed, reported in order with the
  kernel lease of an active one; every other lease survives unchanged, and the catalog is the new
  one in connector order.\<close>

theorem lease_hotplug_exact:
  assumes "lease_reachable R" "validate_connector_catalog new = Inr ()"
  shows "\<exists>ch. fst (reconcile_connectors new R) = Inr ch \<and>
    revoked ch = map revocation_of (affected_leases new R) \<and>
    set (leases (snd (reconcile_connectors new R))) = set (leases R) - set (affected_leases new R) \<and>
    catalog (snd (reconcile_connectors new R)) = catalog_order new"
proof -
  have inv: "lease_inv R" using lease_reachable_inv[OF assms(1)] by simp
  have d: "distinct (map lease_token (leases R))" using inv by (simp add: lease_inv_def)
  note e = revoke_all_effect[OF inv, of "map lease_token (affected_leases new R)"]
  have "{l \<in> set (leases R). lease_token l \<notin> lease_token ` set (affected_leases new R)} =
      set (leases R) - set (affected_leases new R)"
    using d by (auto simp: affected_leases_def distinct_map dest: inj_onD)
  then have "set (leases (reconciled new R)) = set (leases R) - set (affected_leases new R)"
    using e by (simp add: reconciled_def Let_def)
  moreover have "catalog (reconciled new R) = catalog_order new"
    by (simp add: catalog_def reconciled_def Let_def comp_def)
  ultimately show ?thesis by (simp add: reconcile_effect[OF inv assms(2)])
qed

theorem lease_hotplug_exact_witness:
  "\<exists>ch. fst (reconcile_connectors [] leased_registry) = Inr ch \<and>
     revoked ch = [\<lparr>revocation_token = 1, revocation_kernel_id = None\<rparr>] \<and>
     leases (snd (reconcile_connectors [] leased_registry)) = []"
proof -
  have "validate_connector_catalog [] = Inr ()" by (simp add: validate_catalog_iff)
  moreover have "affected_leases [] leased_registry = leases leased_registry"
    by (simp add: affected_leases_def changed_connectors_def leased_registry_eq hmd_def)
  ultimately show ?thesis
    using lease_hotplug_exact[OF leased_registry_reachable, of "[]"]
    by (auto simp: leased_registry_eq revocation_of_def)
qed

end
