(* ===== verification/Output_Scale.thy ===== *)
theory Output_Scale
  imports Geometry
begin

text \<open>
  Fractional output scale, \<^verbatim>\<open>crates/tensor-util/src/scale.rs\<close>: a scale is a number of
  120ths, and every conversion between the logical and the physical grid is integer arithmetic.
  The conversions to and from \<open>f64\<close> are not modelled.

  \<open>map_rect\<close> takes two edge maps as closures. The locale \<open>edge_map\<close> states what it needs
  of them (monotone, ordered, in range); its extension \<open>shared_edge_map\<close> adds that both edges
  use the same map, which is what keeps adjacent rectangles adjacent. Both are interpreted on
  the rounding maps of the source, for every scale.
\<close>

section \<open>Model\<close>

text \<open>The units of a scale, a \<open>u32\<close>.\<close>

type_synonym output_scale = nat

abbreviation (input) DENOMINATOR :: int where "DENOMINATOR \<equiv> 120"
abbreviation (input) MIN_UNITS :: nat where "MIN_UNITS \<equiv> 12"
abbreviation (input) MAX_UNITS :: nat where "MAX_UNITS \<equiv> 1200"

definition scale_one :: output_scale where
  "scale_one = 120"

definition from_units :: "nat \<Rightarrow> output_scale option" where
  "from_units units = (if MIN_UNITS \<le> units \<and> units \<le> MAX_UNITS then Some units else None)"

definition physical_length_round :: "output_scale \<Rightarrow> u32 \<Rightarrow> u32" where
  "physical_length_round s logical =
     (let numerator = logical * int s;
          rounded = (numerator + DENOMINATOR div 2) div DENOMINATOR
      in u32_try_or_max rounded)"

definition logical_length_ceil :: "output_scale \<Rightarrow> u32 \<Rightarrow> u32" where
  "logical_length_ceil s physical =
     (let numerator = physical * DENOMINATOR in u32_try_or_max (div_ceil numerator (int s)))"

definition logical_size_ceil :: "output_scale \<Rightarrow> size2 \<Rightarrow> size2" where
  "logical_size_ceil s physical =
     Size (logical_length_ceil s (size_width physical)) (logical_length_ceil s (size_height physical))"

definition round_ratio :: "i32 \<Rightarrow> output_scale \<Rightarrow> i32" where
  "round_ratio v units =
     (let numerator = v * int units;
          rounded = (if 0 \<le> numerator then (numerator + DENOMINATOR div 2) div DENOMINATOR
                     else - ((- numerator + DENOMINATOR div 2) div DENOMINATOR))
      in sat_i32 rounded)"

definition floor_ratio :: "i32 \<Rightarrow> output_scale \<Rightarrow> i32" where
  "floor_ratio v units = sat_i32 ((v * int units) div DENOMINATOR)"

definition ceil_ratio :: "i32 \<Rightarrow> output_scale \<Rightarrow> i32" where
  "ceil_ratio v units = sat_i32 (- ((- (v * int units)) div DENOMINATOR))"

definition map_rect :: "rect \<Rightarrow> (i32 \<Rightarrow> i32) \<Rightarrow> (i32 \<Rightarrow> i32) \<Rightarrow> rect" where
  "map_rect logical lower upper =
     (let left = lower (rect_x logical);
          top = lower (rect_y logical);
          right = (if rect_width logical = 0 then left else upper (rect_right logical));
          bottom = (if rect_height logical = 0 then top else upper (rect_bottom logical))
      in Rect left top (u32_try_or_max (sat_i32 (right - left)))
              (u32_try_or_max (sat_i32 (bottom - top))))"

definition physical_rect_round :: "output_scale \<Rightarrow> rect \<Rightarrow> rect" where
  "physical_rect_round s logical =
     map_rect logical (\<lambda>edge. round_ratio edge s) (\<lambda>edge. round_ratio edge s)"

definition physical_rect_cover :: "output_scale \<Rightarrow> rect \<Rightarrow> rect" where
  "physical_rect_cover s logical =
     map_rect logical (\<lambda>edge. floor_ratio edge s) (\<lambda>edge. ceil_ratio edge s)"

text \<open>What \<open>from_units\<close> guarantees of a scale.\<close>

definition scale_ok :: "output_scale \<Rightarrow> bool" where
  "scale_ok s \<longleftrightarrow> MIN_UNITS \<le> s \<and> s \<le> MAX_UNITS"

lemma from_units_ok: "from_units u = Some s \<Longrightarrow> s = u \<and> scale_ok s"
  by (auto simp: from_units_def scale_ok_def split: if_splits)

section \<open>Edge maps\<close>

locale edge_map =
  fixes lower upper :: "i32 \<Rightarrow> i32"
  assumes lower_mono: "a \<le> b \<Longrightarrow> lower a \<le> lower b"
    and upper_mono: "a \<le> b \<Longrightarrow> upper a \<le> upper b"
    and lower_le_upper: "lower a \<le> upper a"
    and lower_i32: "is_i32 (lower a)"
    and upper_i32: "is_i32 (upper a)"
begin

text \<open>The mapped extent of a rectangle fits in an \<open>i32\<close>.\<close>

definition fits :: "rect \<Rightarrow> bool" where
  "fits r \<longleftrightarrow> upper (rect_right r) - lower (rect_x r) \<le> I32_MAX \<and>
              upper (rect_bottom r) - lower (rect_y r) \<le> I32_MAX"

lemma map_rect_edges:
  assumes "rect_ok r" "fits r" "0 < rect_width r" "0 < rect_height r"
  shows "rect_x (map_rect r lower upper) = lower (rect_x r)"
    and "rect_y (map_rect r lower upper) = lower (rect_y r)"
    and "rect_right (map_rect r lower upper) = upper (rect_right r)"
    and "rect_bottom (map_rect r lower upper) = upper (rect_bottom r)"
    and "rect_ok (map_rect r lower upper)"
proof -
  have le: "lower (rect_x r) \<le> upper (rect_right r)" "lower (rect_y r) \<le> upper (rect_bottom r)"
    using rect_right_bounds(1)[OF assms(1)] rect_bottom_bounds(1)[OF assms(1)]
    by (meson lower_le_upper upper_mono order_trans)+
  have eq: "map_rect r lower upper = Rect (lower (rect_x r)) (lower (rect_y r))
      (upper (rect_right r) - lower (rect_x r)) (upper (rect_bottom r) - lower (rect_y r))"
    using assms le by (simp add: map_rect_def fits_def u32_try_sat_exact Let_def)
  have ext: "upper (rect_right r) - lower (rect_x r) \<le> I32_MAX"
    "upper (rect_bottom r) - lower (rect_y r) \<le> I32_MAX"
    using assms by (simp_all add: fits_def)
  note edges = rect_of_edges[OF lower_i32 lower_i32 upper_i32 upper_i32 le ext]
  show "rect_x (map_rect r lower upper) = lower (rect_x r)"
    "rect_y (map_rect r lower upper) = lower (rect_y r)"
    "rect_right (map_rect r lower upper) = upper (rect_right r)"
    "rect_bottom (map_rect r lower upper) = upper (rect_bottom r)"
    "rect_ok (map_rect r lower upper)"
    using edges by (simp_all add: eq)
qed

lemma map_rect_contains:
  assumes "rect_ok a" "rect_ok b" "fits a" "fits b"
    and "0 < rect_width a" "0 < rect_height a" "0 < rect_width b" "0 < rect_height b"
    and "rect_contains_rect a b"
  shows "rect_contains_rect (map_rect a lower upper) (map_rect b lower upper)"
  using assms(9) lower_mono upper_mono
  by (simp add: rect_contains_rect_def map_rect_edges[OF assms(1,3,5,6)]
      map_rect_edges[OF assms(2,4,7,8)])

end

locale shared_edge_map = edge_map +
  assumes same_map: "upper = lower"
begin

lemma map_rect_shared_vertical_edge:
  assumes "rect_ok a" "rect_ok b" "fits a" "fits b"
    and "0 < rect_width a" "0 < rect_height a" "0 < rect_width b" "0 < rect_height b"
    and "rect_right a = rect_x b"
  shows "rect_right (map_rect a lower upper) = rect_x (map_rect b lower upper)"
  using assms(9) map_rect_edges(3)[OF assms(1,3,5,6)] map_rect_edges(1)[OF assms(2,4,7,8)]
  by (simp add: same_map)

lemma map_rect_shared_horizontal_edge:
  assumes "rect_ok a" "rect_ok b" "fits a" "fits b"
    and "0 < rect_width a" "0 < rect_height a" "0 < rect_width b" "0 < rect_height b"
    and "rect_bottom a = rect_y b"
  shows "rect_bottom (map_rect a lower upper) = rect_y (map_rect b lower upper)"
  using assms(9) map_rect_edges(4)[OF assms(1,3,5,6)] map_rect_edges(2)[OF assms(2,4,7,8)]
  by (simp add: same_map)

end

section \<open>The rounding maps\<close>

lemma scaled_mono: "a \<le> b \<Longrightarrow> a * int s \<le> b * int s"
  by (simp add: mult_right_mono)

lemma floor_ratio_mono: "a \<le> b \<Longrightarrow> floor_ratio a s \<le> floor_ratio b s"
  unfolding floor_ratio_def by (intro sat_i32_mono zdiv_mono1 scaled_mono) simp_all

lemma ceil_ratio_mono: "a \<le> b \<Longrightarrow> ceil_ratio a s \<le> ceil_ratio b s"
  unfolding ceil_ratio_def
  by (intro sat_i32_mono le_imp_neg_le zdiv_mono1) (simp_all add: scaled_mono)

text \<open>The unsaturated value of \<open>round_ratio\<close>: half away from zero.\<close>

definition round_div :: "int \<Rightarrow> int" where
  "round_div n = (if 0 \<le> n then (n + 60) div 120 else - ((- n + 60) div 120))"

lemma round_ratio_eq: "round_ratio v s = sat_i32 (round_div (v * int s))"
  by (simp add: round_ratio_def round_div_def Let_def)

lemma div120: "120 * (n div 120) \<le> n" "n < 120 * (n div 120) + (120 :: int)"
proof -
  have "120 * (n div 120) + n mod 120 = n" by simp
  moreover have "0 \<le> n mod 120" "n mod 120 < 120" by simp_all
  ultimately show "120 * (n div 120) \<le> n" "n < 120 * (n div 120) + 120" by linarith+
qed

lemma round_div_bounds: "n - 60 \<le> 120 * round_div n" "120 * round_div n \<le> n + 60"
  using div120[of "n + 60"] div120[of "- n + 60"] by (auto simp: round_div_def)

lemma round_div_mono:
  assumes "a \<le> b"
  shows "round_div a \<le> round_div b"
proof -
  have "(a + 60) div 120 \<le> (b + 60) div 120" "(- b + 60) div 120 \<le> (- a + 60) div 120"
    using assms by (simp_all add: zdiv_mono1)
  moreover have "0 \<le> b \<Longrightarrow> 0 \<le> (b + 60) div 120" "a < 0 \<Longrightarrow> 0 \<le> (- a + 60) div 120"
    by simp_all
  ultimately show ?thesis using assms by (auto simp: round_div_def)
qed

lemma round_ratio_mono: "a \<le> b \<Longrightarrow> round_ratio a s \<le> round_ratio b s"
  by (simp add: round_ratio_eq sat_i32_mono round_div_mono scaled_mono)

lemma floor_le_round_div: "n div 120 \<le> round_div n"
  using div120[of n] round_div_bounds[of n] by linarith

lemma round_div_le_ceil: "round_div n \<le> - (- n div 120)"
  using div120[of "- n"] round_div_bounds[of n] by linarith

lemma floor_le_round: "floor_ratio a s \<le> round_ratio a s"
  by (simp add: floor_ratio_def round_ratio_eq sat_i32_mono floor_le_round_div)

lemma round_le_ceil: "round_ratio a s \<le> ceil_ratio a s"
  by (simp only: ceil_ratio_def round_ratio_eq sat_i32_mono round_div_le_ceil)

lemma ratio_i32 [simp]: "is_i32 (floor_ratio a s)" "is_i32 (ceil_ratio a s)" "is_i32 (round_ratio a s)"
  by (simp_all add: floor_ratio_def ceil_ratio_def round_ratio_eq)

interpretation cover: edge_map "\<lambda>edge. floor_ratio edge s" "\<lambda>edge. ceil_ratio edge s" for s
proof unfold_locales
  show "floor_ratio a s \<le> ceil_ratio a s" for a
    by (rule order_trans[OF floor_le_round round_le_ceil])
qed (simp_all add: floor_ratio_mono ceil_ratio_mono)

interpretation rounding: shared_edge_map "\<lambda>edge. round_ratio edge s" "\<lambda>edge. round_ratio edge s"
  for s
  by unfold_locales (simp_all add: round_ratio_mono)

section \<open>Properties of the conversions\<close>

text \<open>A non-empty rectangle whose edges lie within a hundred million logical pixels of the origin. At
  the largest scale, ten, its physical edges and extents still fit in an \<open>i32\<close>.\<close>

definition desktop_rect :: "rect \<Rightarrow> bool" where
  "desktop_rect r \<longleftrightarrow> rect_ok r \<and> 0 < rect_width r \<and> 0 < rect_height r \<and>
     - 100000000 \<le> rect_x r \<and> rect_right r \<le> 100000000 \<and>
     - 100000000 \<le> rect_y r \<and> rect_bottom r \<le> 100000000"

lemma scaled_edge_bounds:
  assumes "scale_ok s" "- 100000000 \<le> e" "e \<le> 100000000"
  shows "- 120000000000 \<le> e * int s" "e * int s \<le> 120000000000"
proof -
  have s: "0 \<le> int s" "int s \<le> 1200" using assms(1) by (simp_all add: scale_ok_def)
  have "\<bar>e * int s\<bar> \<le> 100000000 * 1200"
    unfolding abs_mult using assms s by (intro mult_mono) auto
  then show "- 120000000000 \<le> e * int s" "e * int s \<le> 120000000000" by linarith+
qed

lemma ratio_exact:
  assumes "scale_ok s" "- 100000000 \<le> e" "e \<le> 100000000"
  shows "floor_ratio e s = e * int s div 120" "ceil_ratio e s = - (- (e * int s) div 120)"
    "round_ratio e s = round_div (e * int s)"
    "- 1000000000 \<le> floor_ratio e s" "ceil_ratio e s \<le> 1000000000"
    "- 1000000001 \<le> round_ratio e s" "round_ratio e s \<le> 1000000001"
proof -
  note b = scaled_edge_bounds[OF assms]
  have f: "- 1000000000 \<le> e * int s div 120" "e * int s div 120 \<le> 1000000000"
    and c: "- 1000000000 \<le> - (- (e * int s) div 120)" "- (- (e * int s) div 120) \<le> 1000000000"
    and r: "- 1000000001 \<le> round_div (e * int s)" "round_div (e * int s) \<le> 1000000001"
    using b div120[of "e * int s"] div120[of "- (e * int s)"] round_div_bounds[of "e * int s"]
    by linarith+
  show "floor_ratio e s = e * int s div 120" "ceil_ratio e s = - (- (e * int s) div 120)"
    "round_ratio e s = round_div (e * int s)"
    unfolding floor_ratio_def ceil_ratio_def round_ratio_eq
    using f c r by (intro sat_i32_exact; simp add: is_i32_def)+
  with f c r show "- 1000000000 \<le> floor_ratio e s" "ceil_ratio e s \<le> 1000000000"
    "- 1000000001 \<le> round_ratio e s" "round_ratio e s \<le> 1000000001" by simp_all
qed

lemma desktop_rect_edges:
  assumes "desktop_rect r"
  shows "- 100000000 \<le> rect_x r" "rect_x r \<le> 100000000"
    "- 100000000 \<le> rect_right r" "rect_right r \<le> 100000000"
    "- 100000000 \<le> rect_y r" "rect_y r \<le> 100000000"
    "- 100000000 \<le> rect_bottom r" "rect_bottom r \<le> 100000000"
  using assms rect_right_bounds(1)[of r] rect_bottom_bounds(1)[of r]
  by (auto simp: desktop_rect_def)

lemma desktop_fits:
  assumes "scale_ok s" "desktop_rect r"
  shows "cover.fits s r" "rounding.fits s r"
proof -
  note e = desktop_rect_edges[OF assms(2)]
  show "cover.fits s r"
    using ratio_exact(5)[OF assms(1) e(3,4)] ratio_exact(5)[OF assms(1) e(7,8)]
      ratio_exact(4)[OF assms(1) e(1,2)] ratio_exact(4)[OF assms(1) e(5,6)]
    unfolding cover.fits_def by linarith
  show "rounding.fits s r"
    using ratio_exact(7)[OF assms(1) e(3,4)] ratio_exact(7)[OF assms(1) e(7,8)]
      ratio_exact(6)[OF assms(1) e(1,2)] ratio_exact(6)[OF assms(1) e(5,6)]
    unfolding rounding.fits_def by linarith
qed

lemma physical_rect_cover_edges:
  assumes "scale_ok s" "desktop_rect r"
  shows "rect_x (physical_rect_cover s r) = rect_x r * int s div 120"
    "rect_y (physical_rect_cover s r) = rect_y r * int s div 120"
    "rect_right (physical_rect_cover s r) = - (- (rect_right r * int s) div 120)"
    "rect_bottom (physical_rect_cover s r) = - (- (rect_bottom r * int s) div 120)"
    "rect_ok (physical_rect_cover s r)"
proof -
  note e = desktop_rect_edges[OF assms(2)]
  have r: "rect_ok r" "0 < rect_width r" "0 < rect_height r"
    using assms(2) by (simp_all add: desktop_rect_def)
  note m = cover.map_rect_edges[OF r(1) desktop_fits(1)[OF assms] r(2,3),
      folded physical_rect_cover_def]
  show "rect_x (physical_rect_cover s r) = rect_x r * int s div 120"
    by (simp only: m(1) ratio_exact(1)[OF assms(1) e(1,2)])
  show "rect_y (physical_rect_cover s r) = rect_y r * int s div 120"
    by (simp only: m(2) ratio_exact(1)[OF assms(1) e(5,6)])
  show "rect_right (physical_rect_cover s r) = - (- (rect_right r * int s) div 120)"
    by (simp only: m(3) ratio_exact(2)[OF assms(1) e(3,4)])
  show "rect_bottom (physical_rect_cover s r) = - (- (rect_bottom r * int s) div 120)"
    by (simp only: m(4) ratio_exact(2)[OF assms(1) e(7,8)])
  show "rect_ok (physical_rect_cover s r)" by (rule m(5))
qed

lemma physical_rect_cover_mem:
  assumes "scale_ok s" "desktop_rect r"
  shows "(px, py) \<in> pixel_set (physical_rect_cover s r) \<longleftrightarrow>
     rect_x r * int s < 120 * (px + 1) \<and> 120 * px < rect_right r * int s \<and>
     rect_y r * int s < 120 * (py + 1) \<and> 120 * py < rect_bottom r * int s"
proof -
  have aux: "q \<le> p \<longleftrightarrow> e < 120 * (p + 1)" if "120 * q \<le> e" "e < 120 * q + 120" for e q p :: int
    using that by auto
  have low: "e div 120 \<le> p \<longleftrightarrow> e < 120 * (p + 1)" for e p :: int
    by (rule aux[OF div120])
  have aux': "p < - q \<longleftrightarrow> 120 * p < e" if "120 * q \<le> - e" "- e < 120 * q + 120" for e q p :: int
    using that by auto
  have high: "p < - (- e div 120) \<longleftrightarrow> 120 * p < e" for e p :: int
    by (rule aux'[OF div120])
  show ?thesis
    by (simp add: mem_pixel_set physical_rect_cover_edges[OF assms] low high)
qed

text \<open>Rounding keeps shared edges: two logical rectangles that meet in a vertical or in a
  horizontal edge are mapped by \<open>physical_rect_round\<close> to physical rectangles that meet in that
  edge, at every output scale.\<close>

lemma physical_rect_round_shared_edges:
  assumes "scale_ok s" "desktop_rect a" "desktop_rect b"
  shows "(rect_right a = rect_x b \<longrightarrow>
            rect_right (physical_rect_round s a) = rect_x (physical_rect_round s b)) \<and>
         (rect_bottom a = rect_y b \<longrightarrow>
            rect_bottom (physical_rect_round s a) = rect_y (physical_rect_round s b))"
  unfolding physical_rect_round_def
  using assms desktop_fits(2)[OF assms(1,2)] desktop_fits(2)[OF assms(1,3)]
  by (auto simp: desktop_rect_def intro!: rounding.map_rect_shared_vertical_edge
      rounding.map_rect_shared_horizontal_edge)

text \<open>\<open>physical_rect_cover\<close> loses no partially covered pixel and adds at most one: a physical
  pixel belongs to the covering rectangle exactly when its unit square meets the interior of the
  scaled logical rectangle.\<close>

lemma physical_rect_cover_exact:
  assumes "scale_ok s" "desktop_rect r"
  shows "(px, py) \<in> pixel_set (physical_rect_cover s r) \<longleftrightarrow>
     rect_x r * int s < 120 * (px + 1) \<and> 120 * px < rect_right r * int s \<and>
     rect_y r * int s < 120 * (py + 1) \<and> 120 * py < rect_bottom r * int s"
  by (rule physical_rect_cover_mem[OF assms])

text \<open>\<open>logical_length_ceil\<close> is the least logical length whose scaled extent reaches the
  physical length, and scaling it back with \<open>physical_length_round\<close> never falls short of it.\<close>

lemma logical_length_ceil_least:
  assumes "scale_ok s" "0 \<le> p" "p \<le> 100000000"
  shows "(\<forall>l. p * 120 \<le> l * int s \<longleftrightarrow> logical_length_ceil s p \<le> l) \<and>
         p \<le> physical_length_round s (logical_length_ceil s p)"
proof -
  have s: "12 \<le> int s" "int s \<le> 1200" using assms(1) by (simp_all add: scale_ok_def)
  define l where "l = div_ceil (p * 120) (int s)"
  have b: "p * 120 \<le> int s * l" "int s * l < p * 120 + int s"
    using div_ceil_bounds[of "int s" "p * 120"] s by (simp_all add: l_def)
  have lr: "0 \<le> l" "l \<le> 2000000000"
  proof -
    have "0 \<le> int s * l" using b(1) assms(2) by linarith
    then show "0 \<le> l" using s by (simp add: zero_le_mult_iff)
    then have "12 * l \<le> int s * l" using s by (intro mult_right_mono) simp_all
    then show "l \<le> 2000000000" using b(2) assms(3) s by linarith
  qed
  have eq: "logical_length_ceil s p = l"
    using lr by (simp add: logical_length_ceil_def Let_def u32_try_or_max_def flip: l_def)
  have least: "p * 120 \<le> m * int s \<longleftrightarrow> l \<le> m" for m
  proof
    assume "p * 120 \<le> m * int s"
    then have "int s * l < int s * (m + 1)" using b(2) by (simp add: algebra_simps)
    then show "l \<le> m" using s by (simp add: mult_less_cancel_left_pos)
  next
    assume "l \<le> m"
    then have "int s * l \<le> int s * m" using s by (simp add: mult_left_mono)
    then show "p * 120 \<le> m * int s" using b(1) by (simp add: algebra_simps)
  qed
  have "p \<le> (l * int s + 60) div 120"
    using div120[of "l * int s + 60"] b(1) by (simp add: algebra_simps)
  moreover have "(l * int s + 60) div 120 \<le> 4294967295"
    using div120[of "l * int s + 60"] b(2) assms(3) s by (simp add: algebra_simps)
  ultimately have "p \<le> physical_length_round s l"
    using assms(2) by (simp add: physical_length_round_def Let_def u32_try_or_max_def)
  then show ?thesis using least by (simp add: eq)
qed

end
