(* ===== verification/Output_Plan.thy ===== *)
theory Output_Plan
  imports Drm_Lease Output_Scale "HOL-Library.Monad_Syntax"
begin

text \<open>
  Which connectors become outputs, \<^verbatim>\<open>crates/tensor-drm/src/plan.rs\<close>, \<^verbatim>\<open>policy.rs\<close> and
  \<^verbatim>\<open>snapshot.rs\<close>, with the display modes of \<^verbatim>\<open>crates/tensor-host/src/mode.rs\<close>: the rules of the
  configuration, the choice of a mode, the plan as a map ordered by connector identity, and the
  difference of two plans as a list of topology events.

  A \<open>BTreeMap\<close> is an association list in key order. The locale \<open>ordered_map\<close> holds the laws of its
  operations for any injective sort key and is interpreted on connector identities.

  \<open>guess_monitor_scale\<close>, which chooses a scale by floating-point arithmetic, is the argument \<open>guess\<close>
  of the plan: the rules use its result unread.
\<close>

section \<open>Modes and rules\<close>

record physical_mode =
  mode_width :: i32
  mode_height :: i32
  mode_refresh :: i32

definition mode_size :: "physical_mode \<Rightarrow> i32 \<times> i32" where
  "mode_size m = (mode_width m, mode_height m)"

definition is_usable :: "physical_mode \<Rightarrow> bool" where
  "is_usable m \<longleftrightarrow> 0 < mode_width m \<and> 0 < mode_height m \<and> 0 < mode_refresh m"

record output_mode_request =
  request_width :: u32
  request_height :: u32
  request_refresh :: "u32 option"

record output_rule =
  rule_scale :: "output_scale option"
  rule_mode :: "output_mode_request option"
  rule_position :: "(i32 \<times> i32) option"
  rule_enabled :: bool
  rule_max_refresh :: "u32 option"

definition default_output_rule :: output_rule where
  "default_output_rule =
     \<lparr>rule_scale = None, rule_mode = None, rule_position = None, rule_enabled = True, rule_max_refresh = None\<rparr>"

text \<open>The rule table, a map from connector names.\<close>

type_synonym output_rule_table = "string \<rightharpoonup> output_rule"

definition rule_upsert :: "string \<Rightarrow> output_rule \<Rightarrow> output_rule_table \<Rightarrow> output_rule_table" where
  "rule_upsert name rule rules = rules(name \<mapsto> rule)"

text \<open>\<open>i32::try_from\<close> of an unsigned value and \<open>u32::try_from\<close> of a signed one.\<close>

definition i32_try :: "u32 \<Rightarrow> i32 option" where
  "i32_try v = (if v \<le> I32_MAX then Some v else None)"

definition u32_try :: "i32 \<Rightarrow> u32 option" where
  "u32_try v = (if 0 \<le> v then Some v else None)"

definition select_requested_mode :: "physical_mode list \<Rightarrow> output_mode_request \<Rightarrow> physical_mode option" where
  "select_requested_mode modes requested =
     do {
       width \<leftarrow> i32_try (request_width requested);
       height \<leftarrow> i32_try (request_height requested);
       let matching = filter (\<lambda>m. mode_width m = width \<and> mode_height m = height) modes;
       case request_refresh requested of
         Some refresh \<Rightarrow> do { r \<leftarrow> i32_try refresh; find (\<lambda>m. mode_refresh m = r) matching }
       | None \<Rightarrow> max_by_key mode_refresh matching
     }"

definition highest_refresh_at_size ::
  "physical_mode list \<Rightarrow> i32 \<times> i32 \<Rightarrow> u32 option \<Rightarrow> physical_mode option" where
  "highest_refresh_at_size modes sz max_refresh =
     (let cap = Option.bind max_refresh i32_try
      in max_by_key mode_refresh
           (filter (\<lambda>m. case cap of None \<Rightarrow> True | Some c \<Rightarrow> mode_refresh m \<le> c)
             (filter (\<lambda>m. mode_size m = sz) modes)))"

text \<open>\<open>Option::or\<close>.\<close>

fun option_or :: "'a option \<Rightarrow> 'a option \<Rightarrow> 'a option" where
  "option_or (Some x) _ = Some x"
| "option_or None y = y"

definition select_mode ::
  "physical_mode list \<Rightarrow> physical_mode \<Rightarrow> output_rule option \<Rightarrow> physical_mode option" where
  "select_mode modes preferred rule =
     (case Option.bind (Option.bind rule rule_mode) (select_requested_mode modes) of
        Some m \<Rightarrow> Some m
      | None \<Rightarrow>
          let selected = option_or (highest_refresh_at_size modes (mode_size preferred) None) (Some preferred)
          in case Option.bind rule rule_max_refresh of
               None \<Rightarrow> selected
             | Some cap \<Rightarrow>
                 option_or (highest_refresh_at_size modes (mode_size preferred) (Some cap)) selected)"

section \<open>Plans\<close>

datatype connector_state = State_Connected | State_Disconnected | State_Unknown

datatype subpixel_layout =
  Subpixel_Unknown | Subpixel_None | HorizontalRgb | HorizontalBgr | VerticalRgb | VerticalBgr

record connector_snapshot =
  snap_id :: connector_id
  snap_name :: string
  snap_state :: connector_state
  snap_non_desktop :: bool
  snap_physical_size_mm :: "i32 \<times> i32"
  snap_subpixel :: subpixel_layout
  snap_modes :: "physical_mode list"
  snap_preferred_mode :: "physical_mode option"
  snap_mapped_crtc :: "u32 option"
  snap_has_native_format :: bool

record output_descriptor =
  out_id :: connector_id
  out_name :: string
  out_physical_size_mm :: "i32 \<times> i32"
  out_subpixel :: subpixel_layout
  out_modes :: "physical_mode list"
  out_mode :: physical_mode
  out_crtc :: u32
  out_scale :: output_scale
  out_position :: "(i32 \<times> i32) option"
  out_has_native_format :: bool

type_synonym scale_guess = "i32 \<times> i32 \<Rightarrow> size2 \<Rightarrow> output_scale"

definition plan_one ::
  "scale_guess \<Rightarrow> output_rule_table \<Rightarrow> connector_snapshot \<Rightarrow> output_descriptor option" where
  "plan_one guess rules c =
     (if snap_state c \<noteq> State_Connected \<or> snap_non_desktop c then None
      else let rule = rules (snap_name c) in
      if (case rule of Some r \<Rightarrow> \<not> rule_enabled r | None \<Rightarrow> False) then None
      else if \<not> snap_has_native_format c then None
      else do {
        preferred \<leftarrow> snap_preferred_mode c;
        mode \<leftarrow> select_mode (snap_modes c) preferred rule;
        width \<leftarrow> u32_try (mode_width mode);
        height \<leftarrow> u32_try (mode_height mode);
        let scale = (case Option.bind rule rule_scale of Some s \<Rightarrow> s
                     | None \<Rightarrow> guess (snap_physical_size_mm c) (Size width height));
        crtc \<leftarrow> snap_mapped_crtc c;
        Some \<lparr>out_id = snap_id c, out_name = snap_name c, out_physical_size_mm = snap_physical_size_mm c,
              out_subpixel = snap_subpixel c, out_modes = snap_modes c, out_mode = mode, out_crtc = crtc,
              out_scale = scale, out_position = Option.bind rule rule_position, out_has_native_format = True\<rparr>
      })"

text \<open>\<open>BTreeMap::insert\<close> on the entries in key order.\<close>

fun btree_insert :: "('k \<Rightarrow> 'o::linorder) \<Rightarrow> 'k \<Rightarrow> 'v \<Rightarrow> ('k \<times> 'v) list \<Rightarrow> ('k \<times> 'v) list" where
  "btree_insert key k v [] = [(k, v)]"
| "btree_insert key k v ((k', v') # es) =
     (if key k < key k' then (k, v) # (k', v') # es
      else if k = k' then (k, v) # es
      else (k', v') # btree_insert key k v es)"

type_synonym output_plan = "(connector_id \<times> output_descriptor) list"

definition plan_insert :: "output_descriptor \<Rightarrow> output_plan \<Rightarrow> output_plan" where
  "plan_insert d = btree_insert connector_key (out_id d) d"

definition plan_outputs :: "scale_guess \<Rightarrow> output_rule_table \<Rightarrow> connector_snapshot list \<Rightarrow> output_plan" where
  "plan_outputs guess rules cs =
     fold (\<lambda>c plan. case plan_one guess rules c of Some d \<Rightarrow> plan_insert d plan | None \<Rightarrow> plan) cs []"

datatype plan_event =
    Plan_Connected output_descriptor
  | Plan_Changed output_descriptor
  | Plan_Disconnected connector_id

definition activation :: "output_plan \<Rightarrow> connector_id \<times> output_descriptor \<Rightarrow> plan_event option" where
  "activation previous e =
     (case map_of previous (fst e) of
        None \<Rightarrow> Some (Plan_Connected (snd e))
      | Some old \<Rightarrow> if old \<noteq> snd e then Some (Plan_Changed (snd e)) else None)"

definition diff_plans :: "output_plan \<Rightarrow> output_plan \<Rightarrow> plan_event list" where
  "diff_plans previous current =
     map Plan_Disconnected (filter (\<lambda>i. map_of current i = None) (map fst previous)) @
     List.map_filter (activation previous) current"

section \<open>Ordered maps\<close>

locale ordered_map =
  fixes key :: "'k \<Rightarrow> 'o::linorder"
  assumes key_inject: "key k = key k' \<longleftrightarrow> k = k'"
begin

definition ordered :: "('k \<times> 'v) list \<Rightarrow> bool" where
  "ordered es \<longleftrightarrow> sorted_wrt (<) (map (key \<circ> fst) es)"

lemma ordered_distinct: "ordered es \<Longrightarrow> distinct (map fst es)"
  by (induction es) (auto simp: ordered_def)

lemma map_of_insert: "map_of (btree_insert key k v es) = (map_of es)(k \<mapsto> v)"
  by (induction es) (auto simp: fun_eq_iff)

lemma keys_insert: "fst ` set (btree_insert key k v es) = insert k (fst ` set es)"
proof (induction es)
  case (Cons e es)
  then show ?case by (cases e) (simp add: insert_commute)
qed simp

lemma ordered_insert: "ordered es \<Longrightarrow> ordered (btree_insert key k v es)"
proof (induction es)
  case (Cons e es)
  obtain k' v' where e: "e = (k', v')" by (cases e)
  consider (less) "key k < key k'" | (same) "k = k'" | (greater) "key k' < key k" "k \<noteq> k'"
    using key_inject[of k k'] by (meson neqE)
  then show ?case
  proof cases
    case less
    then show ?thesis using Cons.prems e by (auto simp: ordered_def)
  next
    case same
    then show ?thesis using Cons.prems e by (auto simp: ordered_def)
  next
    case greater
    have "ordered (btree_insert key k v es)" using Cons by (simp add: ordered_def)
    moreover have "\<forall>j \<in> fst ` set (btree_insert key k v es). key k' < key j"
      using greater Cons.prems e unfolding keys_insert by (auto simp: ordered_def)
    moreover have "btree_insert key k v (e # es) = (k', v') # btree_insert key k v es"
      using greater e by simp
    ultimately show ?thesis by (simp add: ordered_def)
  qed
qed (simp add: ordered_def)

lemma ordered_filter: "ordered es \<Longrightarrow> ordered (filter P es)"
  by (induction es) (auto simp: ordered_def)

text \<open>An ordered list is determined by its lookups.\<close>

lemma ordered_unique:
  assumes "ordered es" "ordered fs" "map_of es = map_of fs"
  shows "es = fs"
proof -
  have "set es = set fs"
    using assms(3) ordered_distinct[OF assms(1)] ordered_distinct[OF assms(2)]
    by (metis (no_types, opaque_lifting) map_of_eq_Some_iff subrelI subset_antisym)
  moreover have "inj_on (key \<circ> fst) (set fs)"
    using ordered_distinct[OF assms(2)] by (auto simp: key_inject distinct_map inj_on_def)
  ultimately show ?thesis
    using assms(1,2) unfolding ordered_def
    by (intro map_sorted_distinct_set_unique[of "key \<circ> fst"]) (auto simp: strict_sorted_iff)
qed

end

lemma connector_key_inject: "connector_key c = connector_key d \<longleftrightarrow> c = d"
  by (cases c, cases d) (simp add: connector_key_def)

interpretation plan_map: ordered_map connector_key
  by unfold_locales (rule connector_key_inject)

lemma ordered_plan_insert: "plan_map.ordered p \<Longrightarrow> plan_map.ordered (plan_insert d p)"
  by (simp add: plan_insert_def plan_map.ordered_insert)

lemma map_of_plan_insert: "map_of (plan_insert d p) = (map_of p)(out_id d \<mapsto> d)"
  by (simp add: plan_insert_def plan_map.map_of_insert)

section \<open>What a plan holds\<close>

text \<open>A connector is ready for scanout when it is connected, a desktop head, not disabled by a rule,
  has a native format, a preferred mode and a display controller, and the mode it gets has an extent.\<close>

definition scanout_ready :: "output_rule_table \<Rightarrow> connector_snapshot \<Rightarrow> bool" where
  "scanout_ready rules c \<longleftrightarrow>
     snap_state c = State_Connected \<and> \<not> snap_non_desktop c \<and> snap_has_native_format c \<and>
     (case rules (snap_name c) of Some r \<Rightarrow> rule_enabled r | None \<Rightarrow> True) \<and> snap_mapped_crtc c \<noteq> None \<and>
     (case snap_preferred_mode c of None \<Rightarrow> False
      | Some preferred \<Rightarrow>
          (case select_mode (snap_modes c) preferred (rules (snap_name c)) of None \<Rightarrow> False
           | Some m \<Rightarrow> 0 \<le> mode_width m \<and> 0 \<le> mode_height m))"

lemma plan_one_None_iff: "plan_one guess rules c = None \<longleftrightarrow> \<not> scanout_ready rules c"
  by (auto simp: plan_one_def scanout_ready_def Let_def u32_try_def bind_eq_None_conv
      split: option.splits if_splits)

definition add_connector ::
  "scale_guess \<Rightarrow> output_rule_table \<Rightarrow> connector_snapshot \<Rightarrow> output_plan \<Rightarrow> output_plan" where
  "add_connector guess rules c plan =
     (case plan_one guess rules c of Some d \<Rightarrow> plan_insert d plan | None \<Rightarrow> plan)"

lemma plan_outputs_fold: "plan_outputs guess rules cs = fold (add_connector guess rules) cs []"
  unfolding plan_outputs_def add_connector_def ..

lemma plan_outputs_snoc:
  "plan_outputs guess rules (cs @ [c]) = add_connector guess rules c (plan_outputs guess rules cs)"
  by (simp add: plan_outputs_fold)

lemma plan_one_id: "plan_one guess rules c = Some d \<Longrightarrow> out_id d = snap_id c"
  by (auto simp: plan_one_def Let_def bind_eq_Some_conv split: if_splits)

text \<open>A plan is ordered, and every entry is filed under the identity of its descriptor.\<close>

definition plan_ok :: "output_plan \<Rightarrow> bool" where
  "plan_ok p \<longleftrightarrow> plan_map.ordered p \<and> (\<forall>i d. map_of p i = Some d \<longrightarrow> out_id d = i)"

lemma plan_ok_Nil: "plan_ok []"
  by (simp add: plan_ok_def plan_map.ordered_def)

lemma plan_ok_insert: "plan_ok p \<Longrightarrow> plan_ok (plan_insert d p)"
  by (auto simp: plan_ok_def ordered_plan_insert map_of_plan_insert split: if_splits)

lemma plan_ok_outputs: "plan_ok (plan_outputs guess rules cs)"
  by (induction cs rule: rev_induct)
    (auto simp: plan_outputs_snoc add_connector_def plan_ok_insert plan_ok_Nil plan_outputs_def
      split: option.splits)

text \<open>The connectors that compete for an identity; the last one of the scan decides.\<close>

definition deciding :: "output_rule_table \<Rightarrow> connector_snapshot list \<Rightarrow> connector_id \<Rightarrow> connector_snapshot list" where
  "deciding rules cs i = filter (\<lambda>c. snap_id c = i \<and> scanout_ready rules c) cs"

lemma lookup_plan_outputs:
  "map_of (plan_outputs guess rules cs) i =
    (case deciding rules cs i of [] \<Rightarrow> None | c # rest \<Rightarrow> plan_one guess rules (last (c # rest)))"
proof (induction cs rule: rev_induct)
  case (snoc c cs)
  show ?case
  proof (cases "plan_one guess rules c")
    case None
    then have "\<not> scanout_ready rules c" using plan_one_None_iff by blast
    then show ?thesis using snoc None by (simp add: plan_outputs_snoc add_connector_def deciding_def)
  next
    case (Some d)
    then have "scanout_ready rules c" using plan_one_None_iff[of guess rules c] by simp
    then show ?thesis using snoc Some plan_one_id[OF Some]
      by (auto simp: plan_outputs_snoc add_connector_def map_of_plan_insert deciding_def split: list.splits)
  qed
qed (simp add: plan_outputs_def deciding_def)

section \<open>The chosen mode\<close>

definition mode_typed :: "physical_mode \<Rightarrow> bool" where
  "mode_typed m \<longleftrightarrow> is_i32 (mode_width m) \<and> is_i32 (mode_height m) \<and> is_i32 (mode_refresh m)"

text \<open>A mode is what a rule asks for, or of the preferred size and within the cap of a rule.\<close>

definition requested_by :: "output_mode_request \<Rightarrow> physical_mode \<Rightarrow> bool" where
  "requested_by q m \<longleftrightarrow> mode_size m = (request_width q, request_height q) \<and>
     (case request_refresh q of None \<Rightarrow> True | Some r \<Rightarrow> mode_refresh m = r)"

definition within_cap :: "u32 option \<Rightarrow> physical_mode \<Rightarrow> bool" where
  "within_cap cap m \<longleftrightarrow> (case cap of None \<Rightarrow> True | Some c \<Rightarrow> mode_refresh m \<le> c)"

text \<open>The fastest listed mode with a property.\<close>

definition fastest :: "physical_mode list \<Rightarrow> (physical_mode \<Rightarrow> bool) \<Rightarrow> physical_mode \<Rightarrow> bool" where
  "fastest modes P m \<longleftrightarrow> m \<in> set modes \<and> P m \<and> (\<forall>n \<in> set modes. P n \<longrightarrow> mode_refresh n \<le> mode_refresh m)"

text \<open>Specification of the choice: the request when some mode meets it, else the fastest mode of the
  preferred size within the cap, else the fastest of that size, else the preferred mode itself.\<close>

definition mode_choice ::
  "physical_mode list \<Rightarrow> physical_mode \<Rightarrow> output_mode_request option \<Rightarrow> u32 option \<Rightarrow> physical_mode \<Rightarrow> bool" where
  "mode_choice modes preferred request cap m =
     (let requested = (\<lambda>n. case request of None \<Rightarrow> False | Some q \<Rightarrow> requested_by q n);
          sized = (\<lambda>n. mode_size n = mode_size preferred);
          capped = (\<lambda>n. sized n \<and> within_cap cap n)
      in if list_ex requested modes then fastest modes requested m
         else if list_ex capped modes then fastest modes capped m
         else if list_ex sized modes then fastest modes sized m
         else m = preferred)"

lemma fastest_max_by_key:
  "max_by_key mode_refresh (filter P modes) = Some m \<Longrightarrow> fastest modes P m"
  using max_by_key_Some[of mode_refresh "filter P modes" m] by (auto simp: fastest_def)

lemma max_by_key_filter_None: "max_by_key f (filter P xs) = None \<longleftrightarrow> \<not> list_ex P xs"
  by (auto simp: filter_empty_conv list_ex_iff)

lemma requested_mode_typed:
  assumes "\<forall>m \<in> set modes. mode_typed m"
  shows "case select_requested_mode modes q of
      None \<Rightarrow> \<not> list_ex (requested_by q) modes
    | Some m \<Rightarrow> list_ex (requested_by q) modes \<and> fastest modes (requested_by q) m"
proof -
  have big: "\<not> list_ex (requested_by q) modes"
    if "I32_MAX < request_width q \<or> I32_MAX < request_height q \<or> (\<exists>r. request_refresh q = Some r \<and> I32_MAX < r)"
    using assms that by (fastforce simp: list_ex_iff requested_by_def mode_size_def mode_typed_def is_i32_def)
  show ?thesis
  proof (cases "I32_MAX < request_width q \<or> I32_MAX < request_height q")
    case True
    then show ?thesis using big by (auto simp: select_requested_mode_def i32_try_def Let_def)
  next
    case small: False
    let ?M = "filter (\<lambda>m. mode_width m = request_width q \<and> mode_height m = request_height q) modes"
    show ?thesis
    proof (cases "request_refresh q")
      case None
      have P: "requested_by q = (\<lambda>m. mode_width m = request_width q \<and> mode_height m = request_height q)"
        using None by (auto simp: requested_by_def mode_size_def)
      have "select_requested_mode modes q = max_by_key mode_refresh (filter (requested_by q) modes)"
        using small None unfolding P by (simp add: select_requested_mode_def i32_try_def)
      then show ?thesis
        using fastest_max_by_key max_by_key_filter_None[of mode_refresh "requested_by q" modes]
        by (fastforce split: option.splits)
    next
      case (Some r)
      show ?thesis
      proof (cases "I32_MAX < r")
        case True
        then show ?thesis using small big Some by (auto simp: select_requested_mode_def i32_try_def Let_def)
      next
        case False
        have "select_requested_mode modes q = find (\<lambda>m. mode_refresh m = r) ?M"
          using small False Some by (simp add: select_requested_mode_def i32_try_def)
        moreover have "fastest modes (requested_by q) m" if "find (\<lambda>m. mode_refresh m = r) ?M = Some m" for m
          using find_Some_mem[OF that] Some by (auto simp: fastest_def requested_by_def mode_size_def)
        moreover have "find (\<lambda>m. mode_refresh m = r) ?M = None \<longleftrightarrow> \<not> list_ex (requested_by q) modes"
          using Some by (auto simp: find_None_iff list_ex_iff requested_by_def mode_size_def)
        ultimately show ?thesis by (auto split: option.splits)
      qed
    qed
  qed
qed

lemma highest_refresh_typed:
  assumes "\<forall>m \<in> set modes. mode_typed m"
  shows "highest_refresh_at_size modes sz cap =
    max_by_key mode_refresh (filter (\<lambda>n. mode_size n = sz \<and> within_cap cap n) modes)"
proof -
  have "(case Option.bind cap i32_try of None \<Rightarrow> True | Some c \<Rightarrow> mode_refresh m \<le> c) = within_cap cap m"
    if "m \<in> set modes" for m
  proof -
    have "mode_typed m" using assms that by blast
    then show ?thesis by (cases cap) (auto simp: within_cap_def i32_try_def mode_typed_def is_i32_def)
  qed
  then have "filter (\<lambda>m. case Option.bind cap i32_try of None \<Rightarrow> True | Some c \<Rightarrow> mode_refresh m \<le> c)
      (filter (\<lambda>m. mode_size m = sz) modes) = filter (\<lambda>n. mode_size n = sz \<and> within_cap cap n) modes"
    unfolding filter_filter by (intro filter_cong) auto
  then show ?thesis by (simp only: highest_refresh_at_size_def Let_def)
qed

lemma select_mode_typed:
  assumes "\<forall>m \<in> set modes. mode_typed m"
  shows "\<exists>m. select_mode modes preferred rule = Some m \<and>
    mode_choice modes preferred (Option.bind rule rule_mode) (Option.bind rule rule_max_refresh) m"
proof -
  let ?request = "Option.bind rule rule_mode"
  let ?requested = "\<lambda>n. case ?request of None \<Rightarrow> False | Some q \<Rightarrow> requested_by q n"
  let ?sized = "\<lambda>cap n. mode_size n = mode_size preferred \<and> within_cap cap n"
  let ?pick = "Option.bind ?request (select_requested_mode modes)"
  have fallback: "\<exists>m. highest_refresh_at_size modes (mode_size preferred) cap = Some m \<and> fastest modes (?sized cap) m"
    if "list_ex (?sized cap) modes" for cap
    using that fastest_max_by_key max_by_key_filter_None[of mode_refresh "?sized cap" modes]
    unfolding highest_refresh_typed[OF assms] by (metis option.exhaust)
  have none: "highest_refresh_at_size modes (mode_size preferred) cap = None" if "\<not> list_ex (?sized cap) modes" for cap
    using that unfolding highest_refresh_typed[OF assms] max_by_key_filter_None .
  have uncapped: "?sized None = (\<lambda>n. mode_size n = mode_size preferred)" by (simp add: within_cap_def)
  show ?thesis
  proof (cases ?pick)
    case (Some m)
    then obtain q where q: "?request = Some q" "select_requested_mode modes q = Some m"
      by (auto simp: bind_eq_Some_conv)
    then have "?requested = requested_by q" by (simp add: fun_eq_iff)
    then show ?thesis
      using Some q requested_mode_typed[OF assms, of q] by (simp add: select_mode_def mode_choice_def Let_def)
  next
    case None
    have unmet: "\<not> list_ex ?requested modes"
    proof (cases ?request)
      case (Some q)
      then show ?thesis using None requested_mode_typed[OF assms, of q] by simp
    qed (simp add: list_ex_iff)
    let ?cap = "Option.bind rule rule_max_refresh"
    show ?thesis
      using None unmet fallback[of ?cap] fallback[of None] none[of ?cap] none[of None]
      unfolding select_mode_def mode_choice_def Let_def uncapped
      by (cases "list_ex (?sized ?cap) modes"; cases "list_ex (?sized None) modes"; cases ?cap)
        (auto simp: within_cap_def)
  qed
qed

section \<open>Differences replayed\<close>

text \<open>What an event does to the outputs of a consumer.\<close>

fun event_connector :: "plan_event \<Rightarrow> connector_id" where
  "event_connector (Plan_Connected d) = out_id d"
| "event_connector (Plan_Changed d) = out_id d"
| "event_connector (Plan_Disconnected i) = i"

fun apply_event :: "plan_event \<Rightarrow> output_plan \<Rightarrow> output_plan" where
  "apply_event (Plan_Connected d) p = plan_insert d p"
| "apply_event (Plan_Changed d) p = plan_insert d p"
| "apply_event (Plan_Disconnected i) p = filter (\<lambda>e. fst e \<noteq> i) p"

fun is_disconnect :: "plan_event \<Rightarrow> bool" where
  "is_disconnect (Plan_Disconnected i) = True"
| "is_disconnect _ = False"

fun event_result :: "plan_event \<Rightarrow> output_descriptor option" where
  "event_result (Plan_Disconnected i) = None"
| "event_result (Plan_Connected d) = Some d"
| "event_result (Plan_Changed d) = Some d"

lemma map_of_filter_neq: "map_of (filter (\<lambda>e. fst e \<noteq> i) p) = (map_of p)(i := None)"
  by (induction p) (auto simp: fun_eq_iff)

lemma map_of_apply_event: "map_of (apply_event e p) = (map_of p)(event_connector e := event_result e)"
  by (cases e) (simp_all add: map_of_plan_insert map_of_filter_neq)

lemma ordered_apply_event: "plan_map.ordered p \<Longrightarrow> plan_map.ordered (apply_event e p)"
  by (cases e) (simp_all add: ordered_plan_insert plan_map.ordered_filter)

lemma ordered_replay: "plan_map.ordered p \<Longrightarrow> plan_map.ordered (fold apply_event es p)"
  by (induction es arbitrary: p) (simp_all add: ordered_apply_event)

text \<open>When no connector has two events, each event decides its own connector.\<close>

lemma map_of_replay:
  assumes "distinct (map event_connector es)"
  shows "map_of (fold apply_event es p) i =
    (case find (\<lambda>e. event_connector e = i) es of None \<Rightarrow> map_of p i | Some e \<Rightarrow> event_result e)"
  using assms
proof (induction es arbitrary: p)
  case (Cons e es)
  have "find (\<lambda>x. event_connector x = event_connector e) es = None"
    using Cons.prems by (auto simp: find_None_iff image_iff)
  then show ?case using Cons by (auto simp: map_of_apply_event split: option.splits)
qed simp

lemma map_of_in_set: "plan_ok p \<Longrightarrow> (i, d) \<in> set p \<longleftrightarrow> map_of p i = Some d"
  using plan_map.ordered_distinct[of p] by (simp add: plan_ok_def)

lemma map_filter_set: "set (List.map_filter f xs) = {y. \<exists>x \<in> set xs. f x = Some y}"
  by (induction xs) (auto simp: map_filter_simps split: option.splits)

text \<open>The activations of a plan, by connector and descriptor.\<close>

lemma activation_connector:
  assumes "plan_ok c" "e \<in> set c" "activation p e = Some ev"
  shows "event_connector ev = fst e" "event_result ev = Some (snd e)" "\<not> is_disconnect ev"
proof -
  have "out_id (snd e) = fst e"
    using assms(1,2) map_of_in_set[OF assms(1), of "fst e" "snd e"] by (auto simp: plan_ok_def)
  then show "event_connector ev = fst e" "event_result ev = Some (snd e)" "\<not> is_disconnect ev"
    using assms(3) by (auto simp: activation_def split: option.splits if_splits)
qed

lemma activations_connectors:
  assumes "plan_ok c" "set es \<subseteq> set c"
  shows "map event_connector (List.map_filter (activation p) es) =
    map fst (filter (\<lambda>e. map_of p (fst e) \<noteq> Some (snd e)) es)"
  using assms(2)
proof (induction es)
  case (Cons e es)
  then show ?case
    using activation_connector(1)[OF assms(1), of e p]
    by (cases "activation p e") (auto simp: map_filter_simps activation_def split: option.splits if_splits)
qed (simp add: map_filter_simps)

text \<open>The connectors with an event are those whose entry differs.\<close>

lemma diff_connectors:
  assumes "plan_ok p" "plan_ok c"
  shows "distinct (map event_connector (diff_plans p c))"
    and "event_connector ` set (diff_plans p c) = {i. map_of p i \<noteq> map_of c i}"
proof -
  let ?gone = "filter (\<lambda>i. map_of c i = None) (map fst p)"
  let ?new = "map fst (filter (\<lambda>e. map_of p (fst e) \<noteq> Some (snd e)) c)"
  have con: "map event_connector (diff_plans p c) = ?gone @ ?new"
    using activations_connectors[OF assms(2) subset_refl, of p] by (simp add: diff_plans_def comp_def)
  have dist: "distinct (map fst p)" "distinct (map fst c)"
    using assms plan_map.ordered_distinct by (auto simp: plan_ok_def)
  have new: "i \<in> set ?new \<longleftrightarrow> map_of c i \<noteq> None \<and> map_of p i \<noteq> map_of c i" for i
    using map_of_in_set[OF assms(2)] by (force simp: image_iff)
  have gone: "i \<in> set ?gone \<longleftrightarrow> map_of c i = None \<and> map_of p i \<noteq> map_of c i" for i
    using map_of_eq_None_iff[of p i] by auto
  have "distinct ?new" using dist(2) by (simp add: distinct_map_filter)
  moreover have "distinct ?gone" using dist(1) by simp
  moreover have "set ?gone \<inter> set ?new = {}" using gone new by blast
  ultimately show "distinct (map event_connector (diff_plans p c))" unfolding con distinct_append by blast
  have "event_connector ` set (diff_plans p c) = set ?gone \<union> set ?new"
    using arg_cong[OF con, of set] by (simp only: set_map set_append)
  then show "event_connector ` set (diff_plans p c) = {i. map_of p i \<noteq> map_of c i}"
    using gone new by blast
qed

lemma diff_result:
  assumes "plan_ok p" "plan_ok c" "ev \<in> set (diff_plans p c)"
  shows "event_result ev = map_of c (event_connector ev)"
proof -
  consider i where "ev = Plan_Disconnected i" "map_of c i = None"
    | e where "e \<in> set c" "activation p e = Some ev"
    using assms(3) by (auto simp: diff_plans_def map_filter_set)
  then show ?thesis
  proof cases
    case 2
    then show ?thesis
      using activation_connector[OF assms(2) 2] map_of_in_set[OF assms(2), of "fst e" "snd e"] by simp
  qed simp
qed

lemma replay_diff:
  assumes "plan_ok p" "plan_ok c"
  shows "fold apply_event (diff_plans p c) p = c"
proof (rule plan_map.ordered_unique)
  show "plan_map.ordered (fold apply_event (diff_plans p c) p)" "plan_map.ordered c"
    using assms ordered_replay by (auto simp: plan_ok_def)
  show "map_of (fold apply_event (diff_plans p c) p) = map_of c"
  proof
    fix i
    show "map_of (fold apply_event (diff_plans p c) p) i = map_of c i"
    proof (cases "find (\<lambda>e. event_connector e = i) (diff_plans p c)")
      case None
      then have "i \<notin> event_connector ` set (diff_plans p c)" by (auto simp: find_None_iff)
      then show ?thesis
        using None diff_connectors[OF assms] map_of_replay[OF diff_connectors(1)[OF assms]] by simp
    next
      case (Some e)
      then show ?thesis
        using find_Some_mem[OF Some] diff_result[OF assms] map_of_replay[OF diff_connectors(1)[OF assms]] by auto
    qed
  qed
qed

lemma diff_disconnects_first:
  assumes "plan_ok c"
  shows "sorted (map (\<lambda>e. \<not> is_disconnect e) (diff_plans p c))"
proof -
  define new where "new = List.map_filter (activation p) c"
  have "\<not> is_disconnect e" if "e \<in> set new" for e
    using that activation_connector(3)[OF assms] by (auto simp: new_def map_filter_set)
  then have "sorted (map (\<lambda>e. \<not> is_disconnect e) new)" by (auto simp: sorted_iff_nth_mono)
  moreover have "sorted (map (\<lambda>x. False) xs)" for xs :: "'x list" by (induction xs) auto
  ultimately show ?thesis unfolding diff_plans_def new_def[symmetric] by (simp add: comp_def sorted_append)
qed

section \<open>Properties\<close>

text \<open>C19. The plan of a scan is exact. Its entries are in strict order of the connector identity, and looking
  up an identity gives the descriptor of the last connector of the scan with that identity that is
  ready for scanout: connected, a desktop head, not disabled by a rule, with a native format, a
  preferred mode and a display controller, and with a chosen mode of non-negative extent. Without such
  a connector the identity is not in the plan.\<close>

theorem output_plan_exact:
  "sorted_wrt (<) (map (\<lambda>e. connector_key (fst e)) (plan_outputs guess rules cs)) \<and>
   map_of (plan_outputs guess rules cs) i =
     (case filter (\<lambda>c. snap_id c = i \<and> scanout_ready rules c) cs of
        [] \<Rightarrow> None | c # rest \<Rightarrow> plan_one guess rules (last (c # rest)))"
  using lookup_plan_outputs[of guess rules cs i] plan_ok_outputs[of guess rules cs]
  by (simp add: deciding_def plan_ok_def plan_map.ordered_def comp_def)

text \<open>C21. A mode is always chosen, and the choice is the best one the rule allows: if the rule requests a mode
  and some listed mode meets the request, the fastest of those; otherwise the fastest listed mode of
  the preferred size within the refresh cap of the rule; otherwise, when the cap excludes them all, the
  fastest of that size; otherwise the preferred mode, listed or not.\<close>

theorem select_mode_best:
  assumes "\<forall>m \<in> set modes. mode_typed m"
  shows "\<exists>m. select_mode modes preferred rule = Some m \<and>
    mode_choice modes preferred (Option.bind rule rule_mode) (Option.bind rule rule_max_refresh) m"
  using select_mode_typed[OF assms] .

text \<open>C20. The difference of two plans is complete and minimal: replaying its events on the outputs of the
  first plan gives exactly the second plan, in its order; the connectors with an event are exactly
  those whose entry differs, each has one event only, and every disconnection comes before every
  connection or change.\<close>

theorem diff_plans_replays:
  "let previous = plan_outputs guess rules cs; current = plan_outputs guess' rules' cs';
       events = diff_plans previous current
   in fold apply_event events previous = current \<and>
      event_connector ` set events = {i. map_of previous i \<noteq> map_of current i} \<and>
      distinct (map event_connector events) \<and>
      sorted (map (\<lambda>e. \<not> is_disconnect e) events)"
  unfolding Let_def
  by (intro conjI replay_diff diff_connectors diff_disconnects_first plan_ok_outputs)

section \<open>Example\<close>

definition panel_modes :: "physical_mode list" where
  "panel_modes = [\<lparr>mode_width = 1920, mode_height = 1080, mode_refresh = 60000\<rparr>,
     \<lparr>mode_width = 1920, mode_height = 1080, mode_refresh = 144000\<rparr>,
     \<lparr>mode_width = 2560, mode_height = 1440, mode_refresh = 60000\<rparr>]"

definition capped_rule :: output_rule where
  "capped_rule = default_output_rule\<lparr>rule_max_refresh := Some 75000\<rparr>"

lemmas panel_defs = panel_modes_def capped_rule_def default_output_rule_def

lemma panel_modes_typed: "\<forall>m \<in> set panel_modes. mode_typed m"
  by (simp add: panel_modes_def mode_typed_def is_i32_def)

text \<open>With a cap of 75 Hz the panel runs at 60 Hz.\<close>

theorem select_mode_best_witness:
  "select_mode panel_modes (panel_modes ! 1) (Some capped_rule) = Some (panel_modes ! 0) \<and>
   mode_choice panel_modes (panel_modes ! 1) None (Some 75000) (panel_modes ! 0)"
proof -
  have "select_mode panel_modes (panel_modes ! 1) (Some capped_rule) = Some (panel_modes ! 0)"
    by (simp add: select_mode_def highest_refresh_at_size_def mode_size_def i32_try_def panel_defs)
  then show ?thesis
    using select_mode_best[OF panel_modes_typed, of "panel_modes ! 1" "Some capped_rule"]
    by (simp add: capped_rule_def default_output_rule_def)
qed

end
