(* ===== verification/Byte_Order.thy ===== *)
theory Byte_Order
  imports Prelude "HOL-Library.Word" "HOL-Library.Sublist"
begin

text \<open>
  Bytes and the byte order of 32-bit integers, as \<open>u32::to_le_bytes\<close>, \<open>u32::from_le_bytes\<close> and
  \<open>u32::from_be_bytes\<close> of the standard library, shared by the IPC frames, the D-Bus wire format and the
  format codes.
\<close>

type_synonym byte = "8 word"

definition to_le_bytes :: "u32 \<Rightarrow> byte list" where
  "to_le_bytes v = [word_of_int v, word_of_int (v div 256), word_of_int (v div 65536), word_of_int (v div 16777216)]"

definition from_le_bytes :: "byte list \<Rightarrow> u32" where
  "from_le_bytes bs = foldr (\<lambda>b acc. uint b + 256 * acc) bs 0"

definition from_be_bytes :: "byte list \<Rightarrow> u32" where
  "from_be_bytes bs = from_le_bytes (rev bs)"

text \<open>The bytes of a literal such as \<open>b"XR24"\<close>.\<close>

definition bytes_of :: "string \<Rightarrow> byte list" where
  "bytes_of s = map of_char s"

lemma length_to_le_bytes [simp]: "length (to_le_bytes v) = 4"
  by (simp add: to_le_bytes_def)

lemma from_le_bytes_simps [simp]:
  "from_le_bytes [] = 0" "from_le_bytes (b # bs) = uint b + 256 * from_le_bytes bs"
  by (simp_all add: from_le_bytes_def)

lemma uint_byte: "uint (word_of_int v :: byte) = v mod 256"
  by (simp add: uint_word_of_int)

text \<open>Writing an unsigned 32-bit integer and reading it back gives the integer.\<close>

lemma from_le_bytes_to_le_bytes [simp]:
  assumes "is_u32 v"
  shows "from_le_bytes (to_le_bytes v) = v"
proof -
  define a b c where "a = v div 256" and "b = a div 256" and "c = b div 256"
  have divs: "v div 65536 = b" "v div 16777216 = c"
    by (simp_all add: a_def b_def c_def zdiv_zmult2_eq[symmetric])
  have "0 \<le> c" "c < 256" using assms unfolding divs(2)[symmetric] is_u32_def by auto
  then have "c mod 256 = c" by simp
  then have "from_le_bytes (to_le_bytes v) = v mod 256 + 256 * (a mod 256 + 256 * (b mod 256 + 256 * c))"
    by (simp add: to_le_bytes_def uint_byte divs a_def[symmetric])
  also have "b mod 256 + 256 * c = b" unfolding c_def by simp
  also have "a mod 256 + 256 * b = a" unfolding b_def by simp
  also have "v mod 256 + 256 * a = v" unfolding a_def by simp
  finally show ?thesis .
qed

lemma from_le_bytes_nonneg: "0 \<le> from_le_bytes bs"
  by (induction bs) auto

end
