(* ===== verification/Scanout_Format.thy ===== *)
theory Scanout_Format
  imports Byte_Order "HOL-Library.Product_Lexorder"
begin

text \<open>
  Negotiation of scanout formats, \<^verbatim>\<open>crates/tensor-host/src/format.rs\<close>: the renderer, the plane and
  the buffer allocator each list what they can do, and the negotiation keeps the formats all three
  agree on, best first, without duplicates.

  The sources remove duplicates with \<open>dedup_by_key\<close>, which only looks at neighbours. That is enough
  because the preference key separates any two candidates of different formats, so equal formats are
  neighbours after the sort.
\<close>

section \<open>Formats\<close>

type_synonym fourcc = u32
type_synonym modifier = u64

definition XRGB8888 :: fourcc where "XRGB8888 = from_le_bytes (bytes_of ''XR24'')"
definition ARGB8888 :: fourcc where "ARGB8888 = from_le_bytes (bytes_of ''AR24'')"
definition XBGR8888 :: fourcc where "XBGR8888 = from_le_bytes (bytes_of ''XB24'')"
definition ABGR8888 :: fourcc where "ABGR8888 = from_le_bytes (bytes_of ''AB24'')"
definition XRGB2101010 :: fourcc where "XRGB2101010 = from_le_bytes (bytes_of ''XR30'')"
definition ARGB2101010 :: fourcc where "ARGB2101010 = from_le_bytes (bytes_of ''AR30'')"
definition XBGR2101010 :: fourcc where "XBGR2101010 = from_le_bytes (bytes_of ''XB30'')"
definition ABGR2101010 :: fourcc where "ABGR2101010 = from_le_bytes (bytes_of ''AB30'')"
definition NV12 :: fourcc where "NV12 = from_le_bytes (bytes_of ''NV12'')"

definition MOD_LINEAR :: modifier where "MOD_LINEAR = 0"
definition MOD_INVALID :: modifier where "MOD_INVALID = U64_MAX"

definition is_linear :: "modifier \<Rightarrow> bool" where "is_linear m \<longleftrightarrow> m = 0"
definition is_invalid :: "modifier \<Rightarrow> bool" where "is_invalid m \<longleftrightarrow> m = U64_MAX"

record drm_format =
  format_code :: fourcc
  format_modifier :: modifier

record format_capability =
  cap_format :: drm_format
  cap_plane_count :: u32
  cap_renderable :: bool
  cap_importable :: bool
  cap_exportable :: bool

definition supports_client_import :: "format_capability \<Rightarrow> bool" where
  "supports_client_import c \<longleftrightarrow> cap_renderable c \<and> cap_importable c"

definition supports_output_export :: "format_capability \<Rightarrow> bool" where
  "supports_output_export c \<longleftrightarrow> cap_renderable c \<and> cap_exportable c"

record gbm_capability =
  gbm_format :: drm_format
  gbm_scanout :: bool
  gbm_plane_count :: "u32 option"

record output_format =
  of_format :: drm_format
  of_plane_count :: u32

datatype format_error = NoCompatibleOutputFormat

section \<open>Negotiation\<close>

definition output_format_rank :: "fourcc \<Rightarrow> int option" where
  "output_format_rank f =
     (if f = XRGB8888 then Some 0 else if f = ARGB8888 then Some 1
      else if f = XBGR8888 then Some 2 else if f = ABGR8888 then Some 3
      else if f = XRGB2101010 then Some 4 else if f = ARGB2101010 then Some 5
      else if f = XBGR2101010 then Some 6 else if f = ABGR2101010 then Some 7 else None)"

definition preference_key :: "drm_format \<Rightarrow> int \<times> int \<times> u64" where
  "preference_key f =
     ((case output_format_rank (format_code f) of Some r \<Rightarrow> r | None \<Rightarrow> 255),
      (if is_linear (format_modifier f) then 1 else if is_invalid (format_modifier f) then 2 else 0),
      format_modifier f)"

text \<open>\<open>Vec::dedup_by_key\<close>: of a run of neighbours with the same key the first is kept.\<close>

fun dedup_by_key :: "('a \<Rightarrow> 'k) \<Rightarrow> 'a list \<Rightarrow> 'a list" where
  "dedup_by_key k (x # y # xs) =
     (if k x = k y then dedup_by_key k (x # xs) else x # dedup_by_key k (y # xs))"
| "dedup_by_key k [x] = [x]"
| "dedup_by_key k [] = []"

definition format_candidate ::
  "drm_format list \<Rightarrow> gbm_capability list \<Rightarrow> format_capability \<Rightarrow> bool" where
  "format_candidate kms_scanout gbm c \<longleftrightarrow>
     supports_output_export c \<and> cap_plane_count c > 0 \<and> \<not> is_invalid (format_modifier (cap_format c)) \<and>
     output_format_rank (format_code (cap_format c)) \<noteq> None \<and> cap_format c \<in> set kms_scanout \<and>
     list_ex (\<lambda>g. gbm_format g = cap_format c \<and> gbm_scanout g \<and> gbm_plane_count g = Some (cap_plane_count c)) gbm"

definition negotiate_output_formats ::
  "format_capability list \<Rightarrow> drm_format list \<Rightarrow> gbm_capability list \<Rightarrow> format_error + output_format list" where
  "negotiate_output_formats vulkan kms_scanout gbm =
     (let candidates = map (\<lambda>c. \<lparr>of_format = cap_format c, of_plane_count = cap_plane_count c\<rparr>)
                         (filter (format_candidate kms_scanout gbm) vulkan);
          sorted_candidates = sort_key (\<lambda>c. preference_key (of_format c)) candidates;
          result = dedup_by_key (\<lambda>c. (format_code (of_format c), format_modifier (of_format c))) sorted_candidates
      in if result = [] then Inl NoCompatibleOutputFormat else Inr result)"

section \<open>Duplicates are neighbours\<close>

lemma dedup_by_key_subset: "set (dedup_by_key k xs) \<subseteq> set xs"
  by (induction k xs rule: dedup_by_key.induct) auto

lemma dedup_by_key_keys: "k ` set (dedup_by_key k xs) = k ` set xs"
  by (induction k xs rule: dedup_by_key.induct) (auto split: if_splits)

lemma dedup_by_key_Nil [simp]: "dedup_by_key k xs = [] \<longleftrightarrow> xs = []"
  by (induction k xs rule: dedup_by_key.induct) auto

lemma dedup_by_key_hd: "xs \<noteq> [] \<Longrightarrow> hd (dedup_by_key k xs) = hd xs"
  by (induction k xs rule: dedup_by_key.induct) auto

text \<open>On a list sorted by a key that distinguishes what the comparison key does, the result is
  strictly sorted.\<close>

lemma dedup_by_key_strict:
  assumes "sorted (map p xs)" "\<forall>x \<in> set xs. \<forall>y \<in> set xs. p x = p y \<longleftrightarrow> k x = k y"
  shows "sorted_wrt (<) (map (p :: 'a \<Rightarrow> 'b::linorder) (dedup_by_key k xs))"
  using assms
proof (induction k xs rule: dedup_by_key.induct)
  case (1 k x y xs)
  show ?case
  proof (cases "k x = k y")
    case True
    have "sorted (map p (x # xs))" using "1.prems"(1) by simp
    from "1.IH"(1)[OF True this] "1.prems"(2) True show ?thesis by simp
  next
    case False
    have "p x \<le> p y" "p x \<noteq> p y" using "1.prems" False by auto
    then have lt: "p x < p y" by simp
    have ge: "p y \<le> p z" if "z \<in> set (y # xs)" for z using "1.prems"(1) that by auto
    have "sorted_wrt (<) (map p (dedup_by_key k (y # xs)))"
      using "1.IH"(2)[OF False] "1.prems" by simp
    moreover have "p x < p z" if "z \<in> set (dedup_by_key k (y # xs))" for z
      using lt ge[of z] dedup_by_key_subset[of k "y # xs"] that by (meson less_le_trans subsetD)
    ultimately show ?thesis using False by simp
  qed
qed simp_all

lemmas fourcc_defs = XRGB8888_def ARGB8888_def XBGR8888_def ABGR8888_def XRGB2101010_def ARGB2101010_def
  XBGR2101010_def ABGR2101010_def NV12_def bytes_of_def

lemma fourcc_values:
  "XRGB8888 = 875713112" "ARGB8888 = 875713089" "XBGR8888 = 875709016" "ABGR8888 = 875708993"
  "XRGB2101010 = 808669784" "ARGB2101010 = 808669761" "XBGR2101010 = 808665688" "ABGR2101010 = 808665665"
  "NV12 = 842094158"
  by (simp_all add: fourcc_defs)

text \<open>The rank is injective on the supported codes.\<close>

lemma rank_inject:
  "output_format_rank f = Some r \<Longrightarrow> output_format_rank f' = Some r \<Longrightarrow> f = f'"
  by (auto simp: output_format_rank_def split: if_splits)

lemma preference_key_inject:
  assumes "output_format_rank (format_code f) \<noteq> None" "output_format_rank (format_code f') \<noteq> None"
  shows "preference_key f = preference_key f' \<longleftrightarrow>
    (format_code f, format_modifier f) = (format_code f', format_modifier f')"
  using assms rank_inject by (auto simp: preference_key_def)

section \<open>Properties\<close>


end
