(* ===== verification/Ipc_Codec.thy ===== *)
theory Ipc_Codec
  imports Byte_Order
begin

text \<open>
  Frames of the control socket, \<^verbatim>\<open>crates/tensor-ipc/src/land/codec.rs\<close>: a payload behind its length in
  four bytes, and the decoder that reassembles frames from reads of any size.

  The payload is JSON, written and read by the crate \<^verbatim>\<open>serde_json\<close>: \<open>ser\<close> and \<open>deser\<close> are arguments, and
  \<open>serde_roundtrip\<close> says that what was written is read back.
\<close>

section \<open>Model\<close>

definition MAX_FRAME_SIZE :: nat where "MAX_FRAME_SIZE = 1024 * 1024"
definition FRAME_HEADER_SIZE :: nat where "FRAME_HEADER_SIZE = 4"

datatype 'e codec_error = FrameTooLarge | Serialize 'e | Deserialize 'e

text \<open>\<open>encode_into\<close> returns its result and the frame buffer it leaves.\<close>

definition encode_into ::
  "('a \<Rightarrow> 'e + byte list) \<Rightarrow> 'a \<Rightarrow> byte list \<Rightarrow> ('e codec_error + unit) \<times> byte list" where
  "encode_into ser v frame =
     (case ser v of
        Inl e \<Rightarrow> (Inl (Serialize e), [])
      | Inr payload \<Rightarrow>
          let frame = replicate FRAME_HEADER_SIZE 0 @ payload;
              payload_len = length frame - FRAME_HEADER_SIZE
          in if payload_len > MAX_FRAME_SIZE then (Inl FrameTooLarge, [])
             else if U32_MAX < int payload_len then (Inl FrameTooLarge, frame)
             else (Inr (), to_le_bytes (int payload_len) @ drop FRAME_HEADER_SIZE frame))"

definition ipc_encode :: "('a \<Rightarrow> 'e + byte list) \<Rightarrow> 'a \<Rightarrow> 'e codec_error + byte list" where
  "ipc_encode ser v =
     (case encode_into ser v [] of (Inl e, frame) \<Rightarrow> Inl e | (Inr _, frame) \<Rightarrow> Inr frame)"

record frame_decoder =
  fd_buffer :: "byte list"

definition decoder_new :: frame_decoder where
  "decoder_new = \<lparr>fd_buffer = []\<rparr>"

text \<open>The loop of \<open>push_into\<close> over the unread part of the buffer: its result, the bytes consumed and the
  values pushed.\<close>

function decode_loop ::
  "(byte list \<Rightarrow> 'e + 'a) \<Rightarrow> byte list \<Rightarrow> nat \<Rightarrow> 'a list \<Rightarrow> ('e codec_error + unit) \<times> nat \<times> 'a list" where
  "decode_loop deser buffer consumed vals =
     (let remaining = drop consumed buffer in
      if length remaining < FRAME_HEADER_SIZE then (Inr (), consumed, vals)
      else
        let payload_len = nat (from_le_bytes (take FRAME_HEADER_SIZE remaining)) in
        if payload_len > MAX_FRAME_SIZE then (Inl FrameTooLarge, consumed, vals)
        else
          let frame_len = FRAME_HEADER_SIZE + payload_len in
          if length remaining < frame_len then (Inr (), consumed, vals)
          else case deser (drop FRAME_HEADER_SIZE (take frame_len remaining)) of
                 Inl e \<Rightarrow> (Inl (Deserialize e), consumed, vals)
               | Inr v \<Rightarrow> decode_loop deser buffer (consumed + frame_len) (vals @ [v]))"
  by pat_completeness auto
termination
  by (relation "measure (\<lambda>(deser, buffer, consumed, vals). length buffer - consumed)")
    (auto simp: FRAME_HEADER_SIZE_def)

declare decode_loop.simps [simp del]

definition push_into ::
  "(byte list \<Rightarrow> 'e + 'a) \<Rightarrow> byte list \<Rightarrow> frame_decoder \<Rightarrow> ('e codec_error + unit) \<times> 'a list \<times> frame_decoder" where
  "push_into deser bytes d =
     (let d = d\<lparr>fd_buffer := fd_buffer d @ bytes\<rparr> in
      case decode_loop deser (fd_buffer d) 0 [] of
        (Inl e, consumed, vals) \<Rightarrow> (Inl e, vals, d)
      | (Inr _, consumed, vals) \<Rightarrow>
          (Inr (), vals, if consumed \<noteq> 0 then d\<lparr>fd_buffer := drop consumed (fd_buffer d)\<rparr> else d))"

definition decoder_push ::
  "(byte list \<Rightarrow> 'e + 'a) \<Rightarrow> byte list \<Rightarrow> frame_decoder \<Rightarrow> ('e codec_error + 'a list) \<times> frame_decoder" where
  "decoder_push deser bytes d =
     (case push_into deser bytes d of
        (Inl e, vals, d') \<Rightarrow> (Inl e, d')
      | (Inr _, vals, d') \<Rightarrow> (Inr vals, d'))"

definition buffered_bytes :: "frame_decoder \<Rightarrow> nat" where
  "buffered_bytes d = length (fd_buffer d)"

text \<open>A connection pushes what it reads, until the first error.\<close>

fun push_reads ::
  "(byte list \<Rightarrow> 'e + 'a) \<Rightarrow> byte list list \<Rightarrow> frame_decoder \<Rightarrow> ('e codec_error + 'a list) \<times> frame_decoder" where
  "push_reads deser [] d = (Inr [], d)"
| "push_reads deser (bytes # reads) d =
     (case decoder_push deser bytes d of
        (Inl e, d') \<Rightarrow> (Inl e, d')
      | (Inr vals, d') \<Rightarrow>
          (case push_reads deser reads d' of
             (Inl e, d'') \<Rightarrow> (Inl e, d'')
           | (Inr later, d'') \<Rightarrow> (Inr (vals @ later), d'')))"

definition serde_roundtrip :: "('a \<Rightarrow> 'e + byte list) \<Rightarrow> (byte list \<Rightarrow> 'e + 'a) \<Rightarrow> bool" where
  "serde_roundtrip ser deser \<longleftrightarrow> (\<forall>v payload. ser v = Inr payload \<longrightarrow> deser payload = Inr v)"

section \<open>One frame\<close>

lemmas frame_sizes = MAX_FRAME_SIZE_def FRAME_HEADER_SIZE_def

lemma encode_into_cases:
  "encode_into ser v frame =
    (case ser v of Inl e \<Rightarrow> (Inl (Serialize e), [])
     | Inr payload \<Rightarrow> if length payload > MAX_FRAME_SIZE then (Inl FrameTooLarge, [])
                     else (Inr (), to_le_bytes (int (length payload)) @ payload))"
  by (auto simp: encode_into_def frame_sizes split: sum.splits)

lemma ipc_encode_Inr:
  "ipc_encode ser v = Inr f \<longleftrightarrow>
    (\<exists>payload. ser v = Inr payload \<and> length payload \<le> MAX_FRAME_SIZE \<and> f = to_le_bytes (int (length payload)) @ payload)"
  by (auto simp: ipc_encode_def encode_into_cases split: sum.splits prod.splits if_splits)

text \<open>What the loop needs of a frame: a header that announces the rest, and a payload that is read.\<close>

definition frame_of :: "(byte list \<Rightarrow> 'e + 'a) \<Rightarrow> 'a \<Rightarrow> byte list \<Rightarrow> bool" where
  "frame_of deser v f \<longleftrightarrow> (\<exists>payload. length payload \<le> MAX_FRAME_SIZE \<and> deser payload = Inr v \<and>
     f = to_le_bytes (int (length payload)) @ payload)"

lemma frame_of_encode: "serde_roundtrip ser deser \<Longrightarrow> ipc_encode ser v = Inr f \<Longrightarrow> frame_of deser v f"
  by (auto simp: ipc_encode_Inr frame_of_def serde_roundtrip_def)

lemma frame_header:
  assumes "length payload \<le> MAX_FRAME_SIZE"
  shows "nat (from_le_bytes (to_le_bytes (int (length payload)))) = length payload"
proof -
  have "is_u32 (int (length payload))" using assms by (simp add: is_u32_def frame_sizes)
  then show ?thesis by simp
qed

text \<open>A complete frame is consumed, an incomplete one leaves the loop.\<close>

lemma decode_loop_frame:
  assumes "frame_of deser v f" "drop consumed buffer = f @ rest"
  shows "decode_loop deser buffer consumed vals = decode_loop deser buffer (consumed + length f) (vals @ [v])"
proof -
  obtain payload where p: "length payload \<le> MAX_FRAME_SIZE" "deser payload = Inr v"
    "f = to_le_bytes (int (length payload)) @ payload"
    using assms(1) by (auto simp: frame_of_def)
  show ?thesis
    using p(1) by (subst decode_loop.simps) (simp add: assms(2) p(2,3) frame_header FRAME_HEADER_SIZE_def Let_def)
qed

lemma decode_loop_partial:
  assumes "frame_of deser v f" "strict_prefix (drop consumed buffer) f"
  shows "decode_loop deser buffer consumed vals = (Inr (), consumed, vals)"
proof -
  define r where "r = drop consumed buffer"
  obtain payload where p: "length payload \<le> MAX_FRAME_SIZE" "f = to_le_bytes (int (length payload)) @ payload"
    using assms(1) by (auto simp: frame_of_def)
  obtain q where q: "f = r @ q" "q \<noteq> []" using assms(2) by (auto simp: strict_prefix_def prefix_def r_def)
  have "take 4 r = to_le_bytes (int (length payload))" if "4 \<le> length r"
  proof -
    have "take 4 r = take 4 f" using that q(1) by simp
    also have "\<dots> = to_le_bytes (int (length payload))" by (simp add: p(2))
    finally show ?thesis .
  qed
  moreover have "length r < length f" using q by simp
  ultimately show ?thesis
    using p(1) by (subst decode_loop.simps) (auto simp: r_def[symmetric] frame_header FRAME_HEADER_SIZE_def p(2) Let_def)
qed

section \<open>Streams\<close>

text \<open>The frames of a list of values, and what may follow them: the start of one more frame.\<close>

definition frames_of :: "(byte list \<Rightarrow> 'e + 'a) \<Rightarrow> 'a list \<Rightarrow> byte list list \<Rightarrow> bool" where
  "frames_of deser vs fs \<longleftrightarrow> list_all2 (frame_of deser) vs fs"

definition partial_frame :: "(byte list \<Rightarrow> 'e + 'a) \<Rightarrow> byte list \<Rightarrow> bool" where
  "partial_frame deser tail \<longleftrightarrow> tail = [] \<or> (\<exists>v f. frame_of deser v f \<and> strict_prefix tail f)"

lemma partial_frame_prefix: "partial_frame deser tail \<Longrightarrow> prefix p tail \<Longrightarrow> partial_frame deser p"
  unfolding partial_frame_def by (metis prefix_Nil prefix_order.le_less_trans)

lemma decode_loop_stops:
  assumes "partial_frame deser (drop consumed buffer)"
  shows "decode_loop deser buffer consumed vals = (Inr (), consumed, vals)"
proof (cases "drop consumed buffer = []")
  case True
  then show ?thesis by (subst decode_loop.simps) (simp add: FRAME_HEADER_SIZE_def)
next
  case False
  then show ?thesis using assms decode_loop_partial by (auto simp: partial_frame_def)
qed

text \<open>On any prefix of a stream of frames the loop consumes the frames that are complete, and leaves a
  partial frame.\<close>

lemma decode_loop_stream:
  assumes "frames_of deser vs fs" "partial_frame deser tail" "drop consumed buffer @ unread = concat fs @ tail"
  shows "\<exists>vs1 vs2 fs2 rest. vs = vs1 @ vs2 \<and> frames_of deser vs2 fs2 \<and> partial_frame deser rest \<and>
    rest @ unread = concat fs2 @ tail \<and> (unread = [] \<longrightarrow> vs2 = [] \<and> rest = tail) \<and>
    (\<exists>n. decode_loop deser buffer consumed vals = (Inr (), n, vals @ vs1) \<and> drop n buffer = rest)"
  using assms
proof (induction fs arbitrary: vs consumed vals)
  case Nil
  then have "vs = []" "drop consumed buffer @ unread = tail" by (simp_all add: frames_of_def)
  moreover have "partial_frame deser (drop consumed buffer)"
    using Nil.prems(2) calculation(2) by (auto intro: partial_frame_prefix)
  ultimately show ?case
    using decode_loop_stops[of deser consumed buffer vals]
    by (intro exI[of _ "[]"] exI[of _ "drop consumed buffer"]) (auto simp: frames_of_def)
next
  case (Cons f fs)
  obtain v us where vs: "vs = v # us" "frame_of deser v f" "frames_of deser us fs"
    using Cons.prems(1) by (auto simp: frames_of_def list_all2_Cons2)
  show ?case
  proof (cases "prefix f (drop consumed buffer)")
    case True
    then obtain r where r: "drop consumed buffer = f @ r" by (auto simp: prefix_def)
    have "drop (length f) (drop consumed buffer) = r" by (simp add: r)
    then have d: "drop (consumed + length f) buffer = r" by (simp only: drop_drop add.commute)
    have "drop (consumed + length f) buffer @ unread = concat fs @ tail" using Cons.prems(3) r d by simp
    from Cons.IH[OF vs(3) Cons.prems(2) this, of "vals @ [v]"]
    obtain vs1 vs2 fs2 rest n where "us = vs1 @ vs2" "frames_of deser vs2 fs2" "partial_frame deser rest"
      "rest @ unread = concat fs2 @ tail" "unread = [] \<longrightarrow> vs2 = [] \<and> rest = tail"
      "decode_loop deser buffer (consumed + length f) (vals @ [v]) = (Inr (), n, (vals @ [v]) @ vs1)"
      "drop n buffer = rest"
      by blast
    then show ?thesis
      using decode_loop_frame[OF vs(2) r, of vals] vs(1)
      by (intro exI[of _ "v # vs1"] exI[of _ vs2] exI[of _ fs2] exI[of _ rest]) auto
  next
    case False
    have stream: "drop consumed buffer @ unread = f @ (concat fs @ tail)" using Cons.prems(3) by simp
    have strict: "strict_prefix (drop consumed buffer) f"
      using False prefixI[OF stream[symmetric]] prefix_same_cases[of "drop consumed buffer" "f @ concat fs @ tail" f]
      by (auto simp: strict_prefix_def)
    then have part: "partial_frame deser (drop consumed buffer)" using vs(2) by (auto simp: partial_frame_def)
    have "unread \<noteq> []"
      using strict stream by (auto simp: strict_prefix_def prefix_def)
    then show ?thesis
      using decode_loop_stops[OF part, of vals] Cons.prems part
      by (intro exI[of _ "[]"] exI[of _ vs] exI[of _ "f # fs"] exI[of _ "drop consumed buffer"]) auto
  qed
qed

lemma decoder_push_stream:
  assumes "frames_of deser vs fs" "partial_frame deser tail" "fd_buffer d @ bytes @ unread = concat fs @ tail"
  shows "\<exists>vs1 vs2 fs2 d'. decoder_push deser bytes d = (Inr vs1, d') \<and> vs = vs1 @ vs2 \<and> frames_of deser vs2 fs2 \<and>
    fd_buffer d' @ unread = concat fs2 @ tail \<and> (unread = [] \<longrightarrow> vs2 = [] \<and> fd_buffer d' = tail)"
proof -
  have "drop 0 (fd_buffer d @ bytes) @ unread = concat fs @ tail" using assms(3) by simp
  from decode_loop_stream[OF assms(1,2) this, of "[]"]
  obtain vs1 vs2 fs2 rest n where r: "vs = vs1 @ vs2" "frames_of deser vs2 fs2"
    "rest @ unread = concat fs2 @ tail" "unread = [] \<longrightarrow> vs2 = [] \<and> rest = tail"
    "decode_loop deser (fd_buffer d @ bytes) 0 [] = (Inr (), n, [] @ vs1)" "drop n (fd_buffer d @ bytes) = rest"
    by blast
  have "decoder_push deser bytes d = (Inr vs1, d\<lparr>fd_buffer := rest\<rparr>)"
    using r(5) unfolding r(6)[symmetric] by (simp add: decoder_push_def push_into_def Let_def)
  then show ?thesis using r(1-4) by (intro exI[of _ vs1] exI[of _ vs2] exI[of _ fs2] exI[of _ "d\<lparr>fd_buffer := rest\<rparr>"]) simp
qed

lemma push_reads_stream:
  assumes "frames_of deser vs fs" "partial_frame deser tail" "fd_buffer d @ concat reads = concat fs @ tail"
    and "reads = [] \<Longrightarrow> fs = []"
  shows "\<exists>d'. push_reads deser reads d = (Inr vs, d') \<and> fd_buffer d' = tail"
  using assms
proof (induction reads arbitrary: vs fs d)
  case Nil
  then show ?case by (simp add: frames_of_def)
next
  case (Cons bytes reads)
  have "fd_buffer d @ bytes @ concat reads = concat fs @ tail" using Cons.prems(3) by simp
  from decoder_push_stream[OF Cons.prems(1,2) this]
  obtain vs1 vs2 fs2 d1 where d: "decoder_push deser bytes d = (Inr vs1, d1)" "vs = vs1 @ vs2"
    "frames_of deser vs2 fs2" "fd_buffer d1 @ concat reads = concat fs2 @ tail"
    "concat reads = [] \<longrightarrow> vs2 = [] \<and> fd_buffer d1 = tail"
    by blast
  have "reads = [] \<Longrightarrow> fs2 = []" using d(3,5) by (simp add: frames_of_def)
  from Cons.IH[OF d(3) Cons.prems(2) d(4) this] d(1,2) show ?case by auto
qed

section \<open>Bounded memory\<close>

lemma decode_loop_left:
  assumes "decode_loop deser buffer consumed vals = (Inr (), n, vals')"
  shows "length (drop n buffer) < FRAME_HEADER_SIZE + MAX_FRAME_SIZE"
  using assms
proof (induction deser buffer consumed vals rule: decode_loop.induct)
  case (1 deser buffer consumed vals)
  define r where "r = drop consumed buffer"
  define l where "l = nat (from_le_bytes (take FRAME_HEADER_SIZE r))"
  consider (short) "length r < FRAME_HEADER_SIZE" | (long) "\<not> length r < FRAME_HEADER_SIZE" "l > MAX_FRAME_SIZE"
    | (part) "\<not> length r < FRAME_HEADER_SIZE" "l \<le> MAX_FRAME_SIZE" "length r < FRAME_HEADER_SIZE + l"
    | (full) "\<not> length r < FRAME_HEADER_SIZE" "l \<le> MAX_FRAME_SIZE" "\<not> length r < FRAME_HEADER_SIZE + l"
    by linarith
  then show ?case
  proof cases
    case full
    then obtain v where v: "deser (drop FRAME_HEADER_SIZE (take (FRAME_HEADER_SIZE + l) r)) = Inr v"
      "decode_loop deser buffer (consumed + (FRAME_HEADER_SIZE + l)) (vals @ [v]) = (Inr (), n, vals')"
      using "1.prems" by (subst (asm) decode_loop.simps) (auto simp: r_def l_def Let_def split: sum.splits)
    show ?thesis
      using "1.IH"[OF r_def full(1) l_def _ refl full(3) v] full(2) by simp
  next
    case short
    then show ?thesis using "1.prems" by (subst (asm) decode_loop.simps) (simp add: r_def)
  next
    case long
    then show ?thesis using "1.prems" by (subst (asm) decode_loop.simps) (simp add: r_def l_def)
  next
    case part
    then have "n = consumed" using "1.prems" by (subst (asm) decode_loop.simps) (simp add: r_def l_def Let_def)
    then show ?thesis using part(2,3) by (simp add: r_def)
  qed
qed

lemma decoder_push_bounded:
  assumes "decoder_push deser bytes d = (Inr vals, d')"
  shows "buffered_bytes d' < FRAME_HEADER_SIZE + MAX_FRAME_SIZE"
proof -
  obtain n where n: "decode_loop deser (fd_buffer d @ bytes) 0 [] = (Inr (), n, vals)"
    "fd_buffer d' = drop n (fd_buffer d @ bytes)"
    using assms by (auto simp: decoder_push_def push_into_def Let_def split: prod.splits sum.splits if_splits)
  then show ?thesis using decode_loop_left[OF n(1)] by (simp add: buffered_bytes_def)
qed

section \<open>Properties\<close>

text \<open>C8. Messages survive the socket however it cuts the stream: if the values vs were encoded to frames, and
  the bytes of these frames, followed by the beginning of one more frame, arrive in any reads at all, then
  no push fails, the values come out once each and in order, and what stays buffered is exactly the
  beginning of the last frame.\<close>

theorem ipc_frames_reassembled:
  assumes "serde_roundtrip ser deser" "list_all2 (\<lambda>v f. ipc_encode ser v = Inr f) vs fs"
    and "ipc_encode ser last_value = Inr last_frame" "strict_prefix tail last_frame"
    and "concat reads = concat fs @ tail" "reads \<noteq> []"
  shows "\<exists>d. push_reads deser reads decoder_new = (Inr vs, d) \<and> fd_buffer d = tail"
proof (rule push_reads_stream)
  show "frames_of deser vs fs"
    unfolding frames_of_def using assms(2) by (rule list_all2_mono) (rule frame_of_encode[OF assms(1)])
  show "partial_frame deser tail"
    using frame_of_encode[OF assms(1,3)] assms(4) by (auto simp: partial_frame_def)
qed (use assms in \<open>simp_all add: decoder_new_def\<close>)

text \<open>C23. A peer cannot make the decoder hoard memory: whatever bytes it sends, after a successful push fewer
  bytes than one maximal frame with its header stay buffered.\<close>

theorem ipc_decoder_bounded:
  assumes "decoder_push deser bytes d = (Inr vals, d')"
  shows "buffered_bytes d' < 4 + 1024 * 1024"
  using decoder_push_bounded[OF assms] by (simp add: frame_sizes)

section \<open>Witnesses\<close>

text \<open>A payload format that writes a list of bytes as it is.\<close>

definition raw_ser :: "byte list \<Rightarrow> unit + byte list" where "raw_ser v = Inr v"
definition raw_deser :: "byte list \<Rightarrow> unit + byte list" where "raw_deser p = Inr p"

lemma raw_roundtrip: "serde_roundtrip raw_ser raw_deser"
  by (simp add: serde_roundtrip_def raw_ser_def raw_deser_def)

lemma raw_encode:
  "ipc_encode raw_ser [7, 8] = Inr [2, 0, 0, 0, 7, 8]" "ipc_encode raw_ser [9] = Inr [1, 0, 0, 0, 9]"
  by (simp_all add: ipc_encode_def encode_into_cases raw_ser_def to_le_bytes_def MAX_FRAME_SIZE_def)

theorem ipc_frames_reassembled_witness:
  "\<exists>d. push_reads raw_deser [[1, 0], [0, 0, 9, 2, 0, 0], [0, 7]] decoder_new = (Inr [[9]], d) \<and>
    fd_buffer d = [2, 0, 0, 0, 7]"
  by (rule ipc_frames_reassembled[OF raw_roundtrip, where fs = "[[1, 0, 0, 0, 9]]" and last_value = "[7, 8]"
        and last_frame = "[2, 0, 0, 0, 7, 8]"])
    (simp_all add: raw_encode)

theorem ipc_decoder_bounded_witness:
  "buffered_bytes (snd (decoder_push raw_deser [1, 0, 0] decoder_new)) < 4 + 1024 * 1024"
proof -
  have "decoder_push raw_deser [1, 0, 0] decoder_new = (Inr [], \<lparr>fd_buffer = [1, 0, 0]\<rparr>)"
    by (simp add: decoder_push_def push_into_def decoder_new_def decode_loop.simps FRAME_HEADER_SIZE_def)
  from ipc_decoder_bounded[OF this] show ?thesis by (simp add: decoder_push_def push_into_def decoder_new_def
      decode_loop.simps FRAME_HEADER_SIZE_def)
qed

end
