(* ===== verification/Dbus_Name.thy ===== *)
theory Dbus_Name
  imports Byte_Order
begin

text \<open>
  Names and flags of the message bus, \<^verbatim>\<open>crates/tensor-dbus/src/name.rs\<close> and \<^verbatim>\<open>flags.rs\<close>, with the errors
  of \<^verbatim>\<open>error.rs\<close> that the wire format raises. A string slice is the list of its bytes. The text of an
  error is kept without the values the sources format into it.
\<close>

section \<open>Errors\<close>

datatype dbus_error =
    InvalidMessage string
  | MessageTooLarge nat
  | UnixFdLimit nat nat
  | InvalidName string "byte list"
  | BodyError string
  | Panic string

text \<open>\<open>Panic\<close> is not an error of the sources: it is a slice out of range or a failed \<open>expect\<close>, a value here so
  that its absence can be stated.\<close>

section \<open>UTF-8\<close>

text \<open>\<open>std::str::from_utf8\<close> accepts shortest forms of scalar values only.\<close>

definition utf8_tail :: "byte \<Rightarrow> bool" where
  "utf8_tail b \<longleftrightarrow> 128 \<le> b \<and> b \<le> 191"

fun valid_utf8 :: "byte list \<Rightarrow> bool" where
  "valid_utf8 [] = True"
| "valid_utf8 (a # bs) =
     (if a < 128 then valid_utf8 bs
      else case bs of
        [] \<Rightarrow> False
      | b # cs \<Rightarrow>
          if 194 \<le> a \<and> a \<le> 223 then utf8_tail b \<and> valid_utf8 cs
          else (case cs of
            [] \<Rightarrow> False
          | c # ds \<Rightarrow>
              if 224 \<le> a \<and> a \<le> 239 then
                (if a = 224 then 160 \<le> b \<and> b \<le> 191 else if a = 237 then 128 \<le> b \<and> b \<le> 159 else utf8_tail b) \<and>
                utf8_tail c \<and> valid_utf8 ds
              else (case ds of
                [] \<Rightarrow> False
              | d # es \<Rightarrow>
                  240 \<le> a \<and> a \<le> 244 \<and>
                  (if a = 240 then 144 \<le> b \<and> b \<le> 191 else if a = 244 then 128 \<le> b \<and> b \<le> 143 else utf8_tail b) \<and>
                  utf8_tail c \<and> utf8_tail d \<and> valid_utf8 es)))"

lemma valid_utf8_ascii: "list_all (\<lambda>b. b < 128) bs \<Longrightarrow> valid_utf8 bs"
  by (induction bs) auto

section \<open>Names\<close>

definition MAX_NAME_LEN :: nat where "MAX_NAME_LEN = 255"

definition is_ascii_alphabetic :: "byte \<Rightarrow> bool" where
  "is_ascii_alphabetic b \<longleftrightarrow> (65 \<le> b \<and> b \<le> 90) \<or> (97 \<le> b \<and> b \<le> 122)"

definition is_ascii_alphanumeric :: "byte \<Rightarrow> bool" where
  "is_ascii_alphanumeric b \<longleftrightarrow> is_ascii_alphabetic b \<or> (48 \<le> b \<and> b \<le> 57)"

text \<open>The underscore, the dash, the dot and the colon.\<close>

definition is_alpha_or_underscore :: "byte \<Rightarrow> bool" where
  "is_alpha_or_underscore b \<longleftrightarrow> is_ascii_alphabetic b \<or> b = 95"

definition is_bus_name_byte :: "byte \<Rightarrow> bool" where
  "is_bus_name_byte b \<longleftrightarrow> is_ascii_alphanumeric b \<or> b = 95 \<or> b = 45"

definition is_well_known_start :: "byte \<Rightarrow> bool" where
  "is_well_known_start b \<longleftrightarrow> is_alpha_or_underscore b \<or> b = 45"

text \<open>\<open>slice::split\<close>: the runs between the separators, at least one.\<close>

fun split_bytes :: "(byte \<Rightarrow> bool) \<Rightarrow> byte list \<Rightarrow> byte list list" where
  "split_bytes P [] = [[]]"
| "split_bytes P (b # bs) =
     (if P b then [] # split_bytes P bs
      else case split_bytes P bs of s # ss \<Rightarrow> (b # s) # ss | [] \<Rightarrow> [[b]])"

definition valid_element :: "(byte \<Rightarrow> bool) \<Rightarrow> (byte \<Rightarrow> bool) \<Rightarrow> byte list \<Rightarrow> bool" where
  "valid_element valid_start valid_byte element =
     (case element of [] \<Rightarrow> False | b # bs \<Rightarrow> valid_start b \<and> list_all valid_byte bs)"

definition validate_dotted :: "byte list \<Rightarrow> (byte \<Rightarrow> bool) \<Rightarrow> (byte \<Rightarrow> bool) \<Rightarrow> bool" where
  "validate_dotted bs valid_start valid_byte \<longleftrightarrow>
     List.member bs 46 \<and> list_all (valid_element valid_start valid_byte) (split_bytes (\<lambda>b. b = 46) bs)"

definition is_unique_name :: "byte list \<Rightarrow> bool" where
  "is_unique_name v \<longleftrightarrow> v = bytes_of ''org.freedesktop.DBus'' \<or>
     length v \<le> MAX_NAME_LEN \<and>
     (case v of [] \<Rightarrow> False | b # name \<Rightarrow> b = 58 \<and> validate_dotted name is_bus_name_byte is_bus_name_byte)"

definition is_well_known_name :: "byte list \<Rightarrow> bool" where
  "is_well_known_name v \<longleftrightarrow> length v \<le> MAX_NAME_LEN \<and> validate_dotted v is_well_known_start is_bus_name_byte"

definition is_interface_name :: "byte list \<Rightarrow> bool" where
  "is_interface_name v \<longleftrightarrow> length v \<le> MAX_NAME_LEN \<and>
     validate_dotted v is_alpha_or_underscore (\<lambda>b. is_ascii_alphanumeric b \<or> b = 95)"

definition is_member_name :: "byte list \<Rightarrow> bool" where
  "is_member_name v \<longleftrightarrow> length v \<le> MAX_NAME_LEN \<and>
     (case v of [] \<Rightarrow> False
      | b # bs \<Rightarrow> is_alpha_or_underscore b \<and> list_all (\<lambda>c. is_ascii_alphanumeric c \<or> c = 95) bs)"

definition check_name :: "bool \<Rightarrow> string \<Rightarrow> byte list \<Rightarrow> dbus_error + unit" where
  "check_name ok kind v = (if ok then Inr () else Inl (InvalidName kind v))"

definition validate_bus_name :: "byte list \<Rightarrow> string \<Rightarrow> dbus_error + unit" where
  "validate_bus_name v kind = check_name (is_unique_name v \<or> is_well_known_name v) kind v"

definition validate_unique_name :: "byte list \<Rightarrow> string \<Rightarrow> dbus_error + unit" where
  "validate_unique_name v kind = check_name (is_unique_name v) kind v"

definition validate_well_known_name :: "byte list \<Rightarrow> string \<Rightarrow> dbus_error + unit" where
  "validate_well_known_name v kind = check_name (is_well_known_name v) kind v"

definition validate_interface_name :: "byte list \<Rightarrow> string \<Rightarrow> dbus_error + unit" where
  "validate_interface_name v kind = check_name (is_interface_name v) kind v"

definition validate_error_name :: "byte list \<Rightarrow> string \<Rightarrow> dbus_error + unit" where
  "validate_error_name v kind = validate_interface_name v kind"

definition validate_member_name :: "byte list \<Rightarrow> string \<Rightarrow> dbus_error + unit" where
  "validate_member_name v kind = check_name (is_member_name v) kind v"

section \<open>Flags and replies\<close>

type_synonym method_call_flags = byte

definition KNOWN_BITS :: byte where "KNOWN_BITS = 7"
definition NO_REPLY_EXPECTED :: method_call_flags where "NO_REPLY_EXPECTED = 1"
definition NO_AUTO_START :: method_call_flags where "NO_AUTO_START = 2"
definition ALLOW_INTERACTIVE_AUTH :: method_call_flags where "ALLOW_INTERACTIVE_AUTH = 4"

definition flags_contains :: "method_call_flags \<Rightarrow> method_call_flags \<Rightarrow> bool" where
  "flags_contains f flag \<longleftrightarrow> and f flag = flag"

definition flags_without :: "method_call_flags \<Rightarrow> method_call_flags \<Rightarrow> method_call_flags" where
  "flags_without f flag = and f (not flag)"

definition from_bits_truncate :: "byte \<Rightarrow> method_call_flags" where
  "from_bits_truncate b = and b KNOWN_BITS"

datatype request_name_reply = PrimaryOwner | InQueue | Exists | AlreadyOwner

definition request_name_reply_of :: "u32 \<Rightarrow> dbus_error + request_name_reply" where
  "request_name_reply_of v =
     (if v = 1 then Inr PrimaryOwner else if v = 2 then Inr InQueue else if v = 3 then Inr Exists
      else if v = 4 then Inr AlreadyOwner else Inl (InvalidMessage ''unknown RequestName reply''))"

datatype release_name_reply = Released | NonExistent | NotOwner

definition release_name_reply_of :: "u32 \<Rightarrow> dbus_error + release_name_reply" where
  "release_name_reply_of v =
     (if v = 1 then Inr Released else if v = 2 then Inr NonExistent else if v = 3 then Inr NotOwner
      else Inl (InvalidMessage ''unknown ReleaseName reply''))"

section \<open>Names are ASCII\<close>

lemma check_name_Inr [simp]: "check_name ok kind v = Inr u \<longleftrightarrow> ok"
  by (simp add: check_name_def)

lemma set_split_bytes: "set bs \<subseteq> {b. P b} \<union> \<Union> (set ` set (split_bytes P bs))"
proof (induction bs)
  case (Cons b bs)
  then show ?case by (cases "split_bytes P bs") auto
qed simp

lemma alphanumeric_ascii: "is_ascii_alphanumeric b \<Longrightarrow> b < 128" "is_alpha_or_underscore b \<Longrightarrow> b < 128"
  "is_bus_name_byte b \<Longrightarrow> b < 128" "is_well_known_start b \<Longrightarrow> b < 128"
  by (auto simp: is_ascii_alphanumeric_def is_ascii_alphabetic_def is_alpha_or_underscore_def is_bus_name_byte_def
      is_well_known_start_def intro: le_less_trans)

lemma validate_dotted_ascii:
  assumes "validate_dotted bs p q" "\<And>b. p b \<Longrightarrow> b < 128" "\<And>b. q b \<Longrightarrow> b < 128"
  shows "list_all (\<lambda>b. b < 128) bs"
proof -
  have "b < 128" if "b \<in> set bs" for b
  proof -
    from that set_split_bytes[of bs "\<lambda>b. b = 46"]
    consider "b = 46" | e where "e \<in> set (split_bytes (\<lambda>b. b = 46) bs)" "b \<in> set e" by auto
    then show ?thesis
    proof cases
      case 2
      then have "valid_element p q e" using assms(1) by (simp add: validate_dotted_def list_all_iff)
      then show ?thesis using 2(2) assms(2,3) by (auto simp: valid_element_def list_all_iff split: list.splits)
    qed simp
  qed
  then show ?thesis by (simp add: list_all_iff)
qed

text \<open>So every valid name is UTF-8.\<close>

lemma interface_name_utf8: "is_interface_name v \<Longrightarrow> valid_utf8 v"
  unfolding is_interface_name_def
  by (intro valid_utf8_ascii validate_dotted_ascii[of v is_alpha_or_underscore "\<lambda>b. is_ascii_alphanumeric b \<or> b = 95"])
    (auto intro: alphanumeric_ascii)

lemma member_name_utf8: "is_member_name v \<Longrightarrow> valid_utf8 v"
  by (intro valid_utf8_ascii) (auto simp: is_member_name_def list_all_iff intro: alphanumeric_ascii split: list.splits)

lemma unique_name_utf8: "is_unique_name v \<Longrightarrow> valid_utf8 v"
proof -
  assume "is_unique_name v"
  then consider "v = bytes_of ''org.freedesktop.DBus''"
    | name where "v = 58 # name" "validate_dotted name is_bus_name_byte is_bus_name_byte"
    by (auto simp: is_unique_name_def split: list.splits)
  then show ?thesis
  proof cases
    case 1
    then show ?thesis by (simp add: bytes_of_def)
  next
    case 2
    then show ?thesis
      using validate_dotted_ascii[OF 2(2) alphanumeric_ascii(3) alphanumeric_ascii(3)] valid_utf8_ascii by simp
  qed
qed

lemma well_known_name_utf8: "is_well_known_name v \<Longrightarrow> valid_utf8 v"
  unfolding is_well_known_name_def
  by (intro valid_utf8_ascii validate_dotted_ascii[of v is_well_known_start is_bus_name_byte])
    (auto intro: alphanumeric_ascii)

lemmas name_utf8 = interface_name_utf8 member_name_utf8 unique_name_utf8 well_known_name_utf8

text \<open>Interface and error names are stricter than bus names.\<close>

lemma interface_name_is_bus_name: "is_interface_name v \<Longrightarrow> is_well_known_name v"
  unfolding is_interface_name_def is_well_known_name_def validate_dotted_def valid_element_def
  by (auto simp: list_all_iff is_well_known_start_def is_bus_name_byte_def split: list.splits)

end
