(* ===== verification/Dbus_Wire.thy ===== *)
theory Dbus_Wire
  imports Dbus_Name
begin

text \<open>
  The wire format of the message bus, \<^verbatim>\<open>crates/tensor-dbus/src/wire.rs\<close> and \<^verbatim>\<open>wire/message.rs\<close>: a fixed
  header of 16 bytes, header fields aligned to 8, zero padding and the body.

  Bodies, signatures and object paths belong to the crate \<^verbatim>\<open>zvariant\<close>: the record \<open>zvariant\<close> collects the
  calls the sources make as a parameter. Lengths are natural numbers; where the sources add with
  \<open>checked_add\<close> the bound of a 64-bit \<open>usize\<close> is written out.
\<close>

section \<open>Messages\<close>

definition FIXED_HEADER_LEN :: nat where "FIXED_HEADER_LEN = 16"
definition MAX_MESSAGE_SIZE :: nat where "MAX_MESSAGE_SIZE = 16 * 1024 * 1024"
definition MAX_UNIX_FDS :: nat where "MAX_UNIX_FDS = 64"
definition USIZE_MAX :: nat where "USIZE_MAX = 18446744073709551615"

datatype message_kind = MethodCall | MethodReturn | ErrorReply | Signal

definition kind_code :: "message_kind \<Rightarrow> byte" where
  "kind_code k = (case k of MethodCall \<Rightarrow> 1 | MethodReturn \<Rightarrow> 2 | ErrorReply \<Rightarrow> 3 | Signal \<Rightarrow> 4)"

definition kind_try_from :: "byte \<Rightarrow> dbus_error + message_kind" where
  "kind_try_from v =
     (if v = 1 then Inr MethodCall else if v = 2 then Inr MethodReturn else if v = 3 then Inr ErrorReply
      else if v = 4 then Inr Signal else Inl (InvalidMessage ''unknown message type''))"

datatype endian = Little | Big

record ('b, 'fd) zvariant =
  zv_signature :: "'b \<Rightarrow> byte list"
  zv_serialized_size :: "nat \<Rightarrow> 'b \<Rightarrow> dbus_error + nat \<times> nat"
  zv_to_writer :: "nat \<Rightarrow> 'b \<Rightarrow> dbus_error + byte list \<times> 'fd list"
  zv_signature_ok :: "byte list \<Rightarrow> bool"
  zv_signature_text :: "byte list \<Rightarrow> byte list"
  zv_object_path_ok :: "byte list \<Rightarrow> bool"
  zv_value_len :: "endian \<Rightarrow> nat \<Rightarrow> 'fd list \<Rightarrow> byte list \<Rightarrow> nat option"

record outgoing =
  og_kind :: message_kind
  og_flags :: byte
  og_serial :: u32
  og_reply_serial :: "u32 option"
  og_path :: "byte list option"
  og_interface :: "byte list option"
  og_member :: "byte list option"
  og_error_name :: "byte list option"
  og_destination :: "byte list option"

record method_call =
  mc_serial :: u32
  mc_flags :: method_call_flags
  mc_destination :: "byte list option"
  mc_path :: "byte list"
  mc_interface :: "byte list option"
  mc_member :: "byte list"

record 'fd encoded_message =
  em_bytes :: "byte list"
  em_unix_fds :: "'fd list"

type_synonym byte_range = "nat \<times> nat"

record 'fd message =
  msg_kind :: message_kind
  msg_flags :: byte
  msg_serial :: u32
  msg_reply_serial :: "u32 option"
  msg_path :: "byte_range option"
  msg_interface :: "byte_range option"
  msg_member :: "byte_range option"
  msg_error_name :: "byte_range option"
  msg_destination :: "byte_range option"
  msg_sender :: "byte_range option"
  msg_declared_unix_fds :: "u32 option"
  msg_signature :: "byte_range option"
  msg_frame :: "byte list"
  msg_body_range :: byte_range
  msg_unix_fds :: "'fd list"
  msg_body_position :: nat
  msg_endian :: endian

section \<open>Encoding\<close>

text \<open>Both alignments used are powers of two, so the mask of \<open>align\<close> rounds up to a multiple.\<close>

definition align :: "nat \<Rightarrow> nat \<Rightarrow> nat" where
  "align v alignment = (v + alignment - 1) div alignment * alignment"

definition align_vec :: "byte list \<Rightarrow> nat \<Rightarrow> nat \<Rightarrow> byte list" where
  "align_vec bs base alignment = bs @ replicate (align (base + length bs) alignment - base - length bs) 0"

definition push_u32_field_at :: "nat \<Rightarrow> byte \<Rightarrow> u32 \<Rightarrow> byte list \<Rightarrow> byte list" where
  "push_u32_field_at base code v fs =
     align_vec (align_vec fs base 8 @ [code] @ [1, of_char CHR ''u'', 0]) base 4 @ to_le_bytes v"

definition push_string_field_at :: "nat \<Rightarrow> byte \<Rightarrow> byte \<Rightarrow> byte list \<Rightarrow> byte list \<Rightarrow> dbus_error + byte list" where
  "push_string_field_at base code signature v fs =
     (if length fs + length v + 16 > MAX_MESSAGE_SIZE then Inl (MessageTooLarge MAX_MESSAGE_SIZE)
      else
        let fs = align_vec (align_vec fs base 8 @ [code] @ [1, signature, 0]) base 4
        in if U32_MAX < int (length v) then Inl (MessageTooLarge MAX_MESSAGE_SIZE)
           else Inr (fs @ to_le_bytes (int (length v)) @ v @ [0]))"

definition push_signature_field_at :: "nat \<Rightarrow> byte list \<Rightarrow> byte list \<Rightarrow> dbus_error + byte list" where
  "push_signature_field_at base v fs =
     (if 255 < length v then Inl (InvalidMessage ''body signature exceeds 255 bytes'')
      else Inr (align_vec fs base 8 @ [8] @ [1, of_char CHR ''g'', 0, of_nat (length v)] @ v @ [0]))"

definition push_optional :: "('a \<Rightarrow> byte list \<Rightarrow> dbus_error + byte list) \<Rightarrow> 'a option \<Rightarrow> byte list \<Rightarrow> dbus_error + byte list" where
  "push_optional push v fs = (case v of None \<Rightarrow> Inr fs | Some x \<Rightarrow> push x fs)"

abbreviation (input) "sig_s \<equiv> (115 :: byte)"
abbreviation (input) "sig_o \<equiv> (111 :: byte)"
abbreviation (input) "sig_g \<equiv> (103 :: byte)"
abbreviation (input) "sig_u \<equiv> (117 :: byte)"

definition encode_fields :: "outgoing \<Rightarrow> byte list \<Rightarrow> byte list \<Rightarrow> dbus_error + byte list" where
  "encode_fields og signature message =
     bind_ok (push_optional (push_string_field_at 0 1 sig_o) (og_path og) message) (\<lambda>message.
     bind_ok (push_optional (push_string_field_at 0 2 sig_s) (og_interface og) message) (\<lambda>message.
     bind_ok (push_optional (push_string_field_at 0 3 sig_s) (og_member og) message) (\<lambda>message.
     bind_ok (push_optional (push_string_field_at 0 4 sig_s) (og_error_name og) message) (\<lambda>message.
     bind_ok (push_optional (\<lambda>v m. Inr (push_u32_field_at 0 5 v m)) (og_reply_serial og) message) (\<lambda>message.
     bind_ok (push_optional (push_string_field_at 0 6 sig_s) (og_destination og) message) (\<lambda>message.
     if signature \<noteq> [] then push_signature_field_at 0 signature message else Inr message))))))"

text \<open>The fixed header is filled in and the header padded to its aligned length.\<close>

definition seal_header :: "outgoing \<Rightarrow> nat \<Rightarrow> nat \<Rightarrow> nat \<Rightarrow> byte list \<Rightarrow> byte list" where
  "seal_header og body_len fields_len header_len message =
     (let message = [of_char CHR ''l'', kind_code (og_kind og), og_flags og, 1] @ to_le_bytes (int body_len) @
                    to_le_bytes (og_serial og) @ to_le_bytes (int fields_len) @ drop FIXED_HEADER_LEN message
      in message @ replicate (header_len - length message) 0)"

definition encode_outgoing ::
  "('b, 'fd) zvariant \<Rightarrow> outgoing \<Rightarrow> 'b \<Rightarrow> dbus_error + 'fd encoded_message" where
  "encode_outgoing zv og body =
     bind_ok (encode_fields og (zv_signature zv body) (replicate FIXED_HEADER_LEN 0)) (\<lambda>message.
     bind_ok (zv_serialized_size zv 0 body) (\<lambda>(_, unix_fd_count).
     if unix_fd_count > MAX_UNIX_FDS then Inl (UnixFdLimit unix_fd_count MAX_UNIX_FDS)
     else
       let message = (if unix_fd_count \<noteq> 0 then push_u32_field_at 0 9 (int unix_fd_count) message else message);
           fields_len = length message - FIXED_HEADER_LEN;
           header_len = align (length message) 8
       in bind_ok (zv_serialized_size zv header_len body) (\<lambda>(body_len, body_fds).
          if body_fds \<noteq> unix_fd_count then Inl (Panic ''debug assertion failed'')
          else if header_len + body_len > USIZE_MAX \<or> header_len + body_len > MAX_MESSAGE_SIZE
          then Inl (MessageTooLarge MAX_MESSAGE_SIZE)
          else
            let total = header_len + body_len;
                message = seal_header og body_len fields_len header_len message
            in bind_ok (zv_to_writer zv header_len body) (\<lambda>(bytes, fds).
               let message = message @ bytes
               in if length fds \<noteq> unix_fd_count \<or> length message \<noteq> total
                  then Inl (InvalidMessage ''body changed while the D-Bus message was being serialized'')
                  else Inr \<lparr>em_bytes = message, em_unix_fds = fds\<rparr>))))"

definition encode_method_call ::
  "('b, 'fd) zvariant \<Rightarrow> method_call \<Rightarrow> 'b \<Rightarrow> dbus_error + 'fd encoded_message" where
  "encode_method_call zv c body =
     encode_outgoing zv
       \<lparr>og_kind = MethodCall, og_flags = mc_flags c, og_serial = mc_serial c, og_reply_serial = None,
        og_path = Some (mc_path c), og_interface = mc_interface c, og_member = Some (mc_member c),
        og_error_name = None, og_destination = mc_destination c\<rparr> body"

section \<open>Reading\<close>

text \<open>A slice expression panics out of range.\<close>

definition slice :: "byte list \<Rightarrow> nat \<Rightarrow> nat \<Rightarrow> dbus_error + byte list" where
  "slice bs a b = (if a \<le> b \<and> b \<le> length bs then Inr (drop a (take b bs)) else Inl (Panic ''slice out of range''))"

definition parse_endian :: "byte \<Rightarrow> dbus_error + endian" where
  "parse_endian b =
     (if b = of_char CHR ''l'' then Inr Little else if b = of_char CHR ''B'' then Inr Big
      else Inl (InvalidMessage ''invalid endian marker''))"

text \<open>Called on slices of four bytes only.\<close>

definition read_u32 :: "byte list \<Rightarrow> endian \<Rightarrow> u32" where
  "read_u32 bs e = (case e of Little \<Rightarrow> from_le_bytes bs | Big \<Rightarrow> from_be_bytes bs)"

definition take_bytes :: "byte list \<Rightarrow> nat \<Rightarrow> nat \<Rightarrow> nat \<Rightarrow> dbus_error + byte list \<times> nat" where
  "take_bytes bs pos len limit =
     (if pos + len > USIZE_MAX then Inl (InvalidMessage ''header field overflow'')
      else
        let next = pos + len
        in if next > limit \<or> next > length bs then Inl (InvalidMessage ''truncated header field'')
           else bind_ok (slice bs pos next) (\<lambda>v. Inr (v, next)))"

definition take_u8 :: "byte list \<Rightarrow> nat \<Rightarrow> nat \<Rightarrow> dbus_error + byte \<times> nat" where
  "take_u8 bs pos limit = bind_ok (take_bytes bs pos 1 limit) (\<lambda>(v, next). Inr (hd v, next))"

definition take_u32 :: "byte list \<Rightarrow> nat \<Rightarrow> nat \<Rightarrow> endian \<Rightarrow> dbus_error + u32 \<times> nat" where
  "take_u32 bs pos limit e = bind_ok (take_bytes bs pos 4 limit) (\<lambda>(v, next). Inr (read_u32 v e, next))"

definition take_string_range :: "byte list \<Rightarrow> nat \<Rightarrow> nat \<Rightarrow> nat \<Rightarrow> dbus_error + byte_range \<times> nat" where
  "take_string_range bs pos len limit =
     bind_ok (take_bytes bs pos len limit) (\<lambda>(v, next).
     bind_ok (take_u8 bs next limit) (\<lambda>(nul, next).
     if nul \<noteq> 0 then Inl (InvalidMessage ''header string is not NUL terminated'')
     else if \<not> valid_utf8 v then Inl (InvalidMessage ''header string is not UTF-8'')
     else Inr ((pos, pos + len), next)))"

definition validate_zero_padding :: "byte list \<Rightarrow> string \<Rightarrow> dbus_error + unit" where
  "validate_zero_padding bs kind =
     (if list_ex (\<lambda>b. b \<noteq> 0) bs then Inl (InvalidMessage (''nonzero '' @ kind @ '' padding'')) else Inr ())"

definition align_field_position :: "byte list \<Rightarrow> nat \<Rightarrow> nat \<Rightarrow> nat \<Rightarrow> dbus_error + nat" where
  "align_field_position bs pos limit alignment =
     bind_ok (take_bytes bs pos (align pos alignment - pos) limit) (\<lambda>(padding, next).
     bind_ok (validate_zero_padding padding ''header field'') (\<lambda>_. Inr next))"

definition known_field_signature :: "byte \<Rightarrow> byte list option" where
  "known_field_signature code =
     (if code = 1 then Some [sig_o] else if code = 2 \<or> code = 3 \<or> code = 4 \<or> code = 6 \<or> code = 7 then Some [sig_s]
      else if code = 5 \<or> code = 9 then Some [sig_u] else if code = 8 then Some [sig_g] else None)"

definition assign_string_field :: "byte \<Rightarrow> byte_range \<Rightarrow> 'fd message \<Rightarrow> 'fd message" where
  "assign_string_field code r m =
     (if code = 1 then m\<lparr>msg_path := Some r\<rparr> else if code = 2 then m\<lparr>msg_interface := Some r\<rparr>
      else if code = 3 then m\<lparr>msg_member := Some r\<rparr> else if code = 4 then m\<lparr>msg_error_name := Some r\<rparr>
      else if code = 6 then m\<lparr>msg_destination := Some r\<rparr> else if code = 7 then m\<lparr>msg_sender := Some r\<rparr> else m)"

definition skip_unknown_field ::
  "('b, 'fd) zvariant \<Rightarrow> byte list \<Rightarrow> nat \<Rightarrow> nat \<Rightarrow> endian \<Rightarrow> byte list \<Rightarrow> 'fd message \<Rightarrow> dbus_error + nat" where
  "skip_unknown_field zv bs variant_position fields_end e signature m =
     (if \<not> valid_utf8 signature then Inl (InvalidMessage ''header field signature is not UTF-8'')
      else if \<not> zv_signature_ok zv signature then Inl (InvalidMessage ''invalid header field signature'')
      else if signature = [] \<or> zv_signature_text zv signature \<noteq> signature
      then Inl (InvalidMessage ''header variant must contain exactly one complete type'')
      else bind_ok (slice bs variant_position fields_end) (\<lambda>data.
        case zv_value_len zv e variant_position (msg_unix_fds m) data of
          None \<Rightarrow> Inl (InvalidMessage ''invalid unknown header field'')
        | Some consumed \<Rightarrow>
            if variant_position + consumed > USIZE_MAX then Inl (InvalidMessage ''header field overflow'')
            else if variant_position + consumed > fields_end then Inl (InvalidMessage ''truncated header field'')
            else Inr (variant_position + consumed)))"

text \<open>The set of fields already seen is a bit mask.\<close>

definition check_known_field :: "byte \<Rightarrow> byte list \<Rightarrow> nat \<Rightarrow> dbus_error + nat" where
  "check_known_field code signature known =
     (case known_field_signature code of
        None \<Rightarrow> Inr known
      | Some expected \<Rightarrow>
          if bit known (unat code) then Inl (InvalidMessage ''duplicate header field'')
          else if signature \<noteq> expected then Inl (InvalidMessage ''header field has unexpected signature'')
          else Inr (set_bit (unat code) known))"

definition parse_field_value ::
  "('b, 'fd) zvariant \<Rightarrow> byte list \<Rightarrow> nat \<Rightarrow> nat \<Rightarrow> nat \<Rightarrow> endian \<Rightarrow> byte \<Rightarrow> byte list \<Rightarrow> 'fd message \<Rightarrow>
   dbus_error + nat \<times> 'fd message" where
  "parse_field_value zv bs pos variant_position fields_end e code signature m =
     (if signature = [sig_s] \<or> signature = [sig_o] then
        bind_ok (align_field_position bs pos fields_end 4) (\<lambda>pos.
        bind_ok (take_u32 bs pos fields_end e) (\<lambda>(len, pos).
        bind_ok (take_string_range bs pos (nat len) fields_end) (\<lambda>(v, pos).
        Inr (pos, assign_string_field code v m))))
      else if signature = [sig_g] then
        bind_ok (take_u8 bs pos fields_end) (\<lambda>(len, pos).
        bind_ok (take_string_range bs pos (unat len) fields_end) (\<lambda>(v, pos).
        Inr (pos, if code = 8 then m\<lparr>msg_signature := Some v\<rparr> else m)))
      else if signature = [sig_u] then
        bind_ok (align_field_position bs pos fields_end 4) (\<lambda>pos.
        bind_ok (take_u32 bs pos fields_end e) (\<lambda>(v, pos).
        Inr (pos, if code = 5 then m\<lparr>msg_reply_serial := Some v\<rparr>
                       else if code = 9 then m\<lparr>msg_declared_unix_fds := Some v\<rparr> else m)))
      else
        bind_ok (skip_unknown_field zv bs variant_position fields_end e signature m) (\<lambda>pos. Inr (pos, m)))"

text \<open>One turn of the loop of \<open>parse_fields\<close>: \<open>None\<close> is the \<open>break\<close> at the end of the fields.\<close>

definition parse_field ::
  "('b, 'fd) zvariant \<Rightarrow> byte list \<Rightarrow> nat \<Rightarrow> endian \<Rightarrow> nat \<Rightarrow> nat \<Rightarrow> 'fd message \<Rightarrow>
   dbus_error + (nat \<times> nat \<times> 'fd message) option" where
  "parse_field zv bs fields_end e pos known m =
     bind_ok (align_field_position bs pos fields_end 8) (\<lambda>pos.
     if pos = fields_end then Inr None else
     bind_ok (take_u8 bs pos fields_end) (\<lambda>(code, variant_position).
     if code = 0 then Inl (InvalidMessage ''header field code zero is reserved'') else
     bind_ok (take_u8 bs variant_position fields_end) (\<lambda>(signature_len, pos).
     bind_ok (take_bytes bs pos (unat signature_len) fields_end) (\<lambda>(signature, pos).
     bind_ok (take_u8 bs pos fields_end) (\<lambda>(nul, pos).
     if nul \<noteq> 0 then Inl (InvalidMessage ''header variant signature is not NUL terminated'') else
     bind_ok (check_known_field code signature known) (\<lambda>known.
     bind_ok (parse_field_value zv bs pos variant_position fields_end e code signature m) (\<lambda>(pos, m).
     Inr (Some (pos, known, m)))))))))"

section \<open>Every turn makes progress\<close>

lemma take_bytes_Inr:
  "take_bytes bs p len e = Inr (v, q) \<longleftrightarrow>
    q = p + len \<and> q \<le> USIZE_MAX \<and> q \<le> e \<and> q \<le> length bs \<and> v = drop p (take q bs)"
  by (auto simp: take_bytes_def slice_def Let_def)

lemma take_u8_Inr:
  "take_u8 bs p e = Inr (v, q) \<longleftrightarrow> q = Suc p \<and> q \<le> USIZE_MAX \<and> q \<le> e \<and> q \<le> length bs \<and> v = hd (drop p (take q bs))"
  by (auto simp: take_u8_def take_bytes_Inr bind_ok_eq_Inr)

lemma take_u32_Inr:
  "take_u32 bs p e en = Inr (v, q) \<longleftrightarrow>
    q = p + 4 \<and> q \<le> USIZE_MAX \<and> q \<le> e \<and> q \<le> length bs \<and> v = read_u32 (drop p (take q bs)) en"
  by (auto simp: take_u32_def take_bytes_Inr bind_ok_eq_Inr)

lemma take_string_range_Inr:
  "take_string_range bs p len e = Inr (r, q) \<longleftrightarrow>
    r = (p, p + len) \<and> q = Suc (p + len) \<and> q \<le> USIZE_MAX \<and> q \<le> e \<and> q \<le> length bs \<and>
    bs ! (p + len) = 0 \<and> valid_utf8 (drop p (take (p + len) bs))"
  by (auto simp: take_string_range_def take_bytes_Inr take_u8_Inr bind_ok_eq_Inr hd_drop_conv_nth)

lemma align_bounds:
  "p \<le> align p 8" "align p 8 < p + 8" "align p 8 mod 8 = 0" "p \<le> align p 4" "align p 4 < p + 4" "align p 4 mod 4 = 0"
  unfolding align_def by presburger+

lemma align_field_position_Inr:
  "align_field_position bs p e a = Inr q \<longleftrightarrow>
    q = p + (align p a - p) \<and> q \<le> USIZE_MAX \<and> q \<le> e \<and> q \<le> length bs \<and> list_all (\<lambda>b. b = 0) (drop p (take q bs))"
  by (auto simp: align_field_position_def validate_zero_padding_def take_bytes_Inr bind_ok_eq_Inr list_ex_iff list_all_iff)

lemmas reader_Inr = take_bytes_Inr take_u8_Inr take_u32_Inr take_string_range_Inr align_field_position_Inr bind_ok_eq_Inr

lemma skip_unknown_field_ge: "skip_unknown_field zv bs vp fe e sg m = Inr q \<Longrightarrow> vp \<le> q \<and> q \<le> fe"
  by (auto simp: skip_unknown_field_def bind_ok_eq_Inr split: if_splits option.splits)

lemma parse_field_value_ge:
  "parse_field_value zv bs p vp fe e code sg m = Inr (q, m') \<Longrightarrow> vp \<le> p \<Longrightarrow> vp \<le> q \<and> q \<le> fe"
  by (auto simp: parse_field_value_def reader_Inr dest: skip_unknown_field_ge split: if_splits)

lemma parse_field_SomeE:
  assumes "parse_field zv bs fe e p known m = Inr (Some (q, known', m'))"
  obtains p1 code vp sl p2 sg p3 p4 where "align_field_position bs p fe 8 = Inr p1" "p1 \<noteq> fe"
    "take_u8 bs p1 fe = Inr (code, vp)" "code \<noteq> 0" "take_u8 bs vp fe = Inr (sl, p2)"
    "take_bytes bs p2 (unat sl) fe = Inr (sg, p3)" "take_u8 bs p3 fe = Inr (0, p4)"
    "check_known_field code sg known = Inr known'" "parse_field_value zv bs p4 vp fe e code sg m = Inr (q, m')"
  using assms unfolding parse_field_def by (auto simp: bind_ok_eq_Inr split: if_splits)

lemma parse_field_progress:
  assumes "parse_field zv bs fe e p known m = Inr (Some (q, known', m'))"
  shows "p < q \<and> q \<le> fe"
proof -
  obtain p1 code vp sl p2 sg p3 p4 where r: "align_field_position bs p fe 8 = Inr p1"
    "take_u8 bs p1 fe = Inr (code, vp)" "take_u8 bs vp fe = Inr (sl, p2)"
    "take_bytes bs p2 (unat sl) fe = Inr (sg, p3)" "take_u8 bs p3 fe = Inr (0, p4)"
    "parse_field_value zv bs p4 vp fe e code sg m = Inr (q, m')"
    using parse_field_SomeE[OF assms] by metis
  have "p \<le> p1" "vp = Suc p1" "p2 = Suc vp" "p2 \<le> p3" "p4 = Suc p3"
    using r(1-5) by (simp_all only: reader_Inr)
  then show ?thesis using parse_field_value_ge[OF r(6)] by simp
qed

function parse_fields ::
  "('b, 'fd) zvariant \<Rightarrow> byte list \<Rightarrow> nat \<Rightarrow> endian \<Rightarrow> nat \<Rightarrow> nat \<Rightarrow> 'fd message \<Rightarrow> dbus_error + 'fd message" where
  "parse_fields zv bs fields_end e pos known m =
     (if pos < fields_end then
        case parse_field zv bs fields_end e pos known m of
          Inl err \<Rightarrow> Inl err
        | Inr None \<Rightarrow> Inr m
        | Inr (Some (pos', known', m')) \<Rightarrow> parse_fields zv bs fields_end e pos' known' m'
      else Inr m)"
  by pat_completeness auto
termination
  by (relation "measure (\<lambda>(zv, bs, fields_end, e, pos, known, m). fields_end - pos)")
    (auto dest: parse_field_progress)

declare parse_fields.simps [simp del]

section \<open>Decoding\<close>

definition frame_len :: "byte list \<Rightarrow> dbus_error + nat" where
  "frame_len fixed =
     bind_ok (parse_endian (fixed ! 0)) (\<lambda>e.
     if fixed ! 3 \<noteq> 1 then Inl (InvalidMessage ''unsupported protocol version'') else
     bind_ok (kind_try_from (fixed ! 1)) (\<lambda>_.
     let body_len = nat (read_u32 (drop 4 (take 8 fixed)) e);
         fields_len = nat (read_u32 (drop 12 (take 16 fixed)) e)
     in if FIXED_HEADER_LEN + fields_len > USIZE_MAX then Inl (MessageTooLarge MAX_MESSAGE_SIZE) else
        let header_len = align (FIXED_HEADER_LEN + fields_len) 8
        in if header_len + body_len > USIZE_MAX then Inl (MessageTooLarge MAX_MESSAGE_SIZE)
           else if header_len + body_len > MAX_MESSAGE_SIZE then Inl (MessageTooLarge MAX_MESSAGE_SIZE)
           else Inr (header_len + body_len)))"

text \<open>The header strings of a message; the sources expect them to be UTF-8.\<close>

definition msg_header :: "'fd message \<Rightarrow> byte_range option \<Rightarrow> dbus_error + byte list option" where
  "msg_header m r =
     (case r of
        None \<Rightarrow> Inr None
      | Some (a, b) \<Rightarrow>
          bind_ok (slice (msg_frame m) a b) (\<lambda>v.
          if valid_utf8 v then Inr (Some v) else Inl (Panic ''header strings are validated during decoding'')))"

definition message_signature :: "'fd message \<Rightarrow> dbus_error + byte list" where
  "message_signature m = bind_ok (msg_header m (msg_signature m)) (\<lambda>v. Inr (case v of None \<Rightarrow> [] | Some s \<Rightarrow> s))"

definition body_bytes :: "'fd message \<Rightarrow> dbus_error + byte list" where
  "body_bytes m = slice (msg_frame m) (fst (msg_body_range m)) (snd (msg_body_range m))"

definition expects_reply :: "'fd message \<Rightarrow> bool" where
  "expects_reply m \<longleftrightarrow> msg_kind m = MethodCall \<and> and (msg_flags m) 1 = 0"

definition message_method_call_flags :: "'fd message \<Rightarrow> method_call_flags option" where
  "message_method_call_flags m = (if msg_kind m = MethodCall then Some (from_bits_truncate (msg_flags m)) else None)"

definition validate_unix_fds :: "'fd message \<Rightarrow> dbus_error + unit" where
  "validate_unix_fds m =
     (let declared = nat (case msg_declared_unix_fds m of None \<Rightarrow> 0 | Some d \<Rightarrow> d) in
      if declared > MAX_UNIX_FDS then Inl (UnixFdLimit declared MAX_UNIX_FDS)
      else if declared \<noteq> length (msg_unix_fds m)
      then Inl (InvalidMessage ''header declares another number of Unix file descriptors than were received'')
      else Inr ())"

definition validate_required_fields :: "'fd message \<Rightarrow> dbus_error + unit" where
  "validate_required_fields m =
     (let missing =
        (case msg_kind m of
           MethodCall \<Rightarrow> if msg_path m = None then Some ''path'' else if msg_member m = None then Some ''member'' else None
         | MethodReturn \<Rightarrow> if msg_reply_serial m = None then Some ''reply serial'' else None
         | ErrorReply \<Rightarrow> if msg_reply_serial m = None then Some ''reply serial''
                        else if msg_error_name m = None then Some ''error name'' else None
         | Signal \<Rightarrow> if msg_path m = None then Some ''path'' else if msg_interface m = None then Some ''interface''
                    else if msg_member m = None then Some ''member'' else None)
      in case missing of Some field \<Rightarrow> Inl (InvalidMessage (''missing required '' @ field)) | None \<Rightarrow> Inr ())"

definition validate_field_semantics :: "'fd message \<Rightarrow> dbus_error + unit" where
  "validate_field_semantics m =
     (let invalid =
        (case msg_kind m of
           MethodCall \<Rightarrow> if msg_reply_serial m \<noteq> None then Some ''reply serial''
                         else if msg_error_name m \<noteq> None then Some ''error name'' else None
         | MethodReturn \<Rightarrow> if msg_path m \<noteq> None then Some ''path'' else if msg_interface m \<noteq> None then Some ''interface''
                          else if msg_member m \<noteq> None then Some ''member''
                          else if msg_error_name m \<noteq> None then Some ''error name'' else None
         | ErrorReply \<Rightarrow> if msg_path m \<noteq> None then Some ''path'' else if msg_interface m \<noteq> None then Some ''interface''
                        else if msg_member m \<noteq> None then Some ''member'' else None
         | Signal \<Rightarrow> if msg_reply_serial m \<noteq> None then Some ''reply serial''
                     else if msg_error_name m \<noteq> None then Some ''error name'' else None)
      in case invalid of Some field \<Rightarrow> Inl (InvalidMessage (field @ '' is invalid for this message'')) | None \<Rightarrow> Inr ())"

definition map_invalid_name :: "dbus_error + unit \<Rightarrow> dbus_error + unit" where
  "map_invalid_name r = (case r of Inl _ \<Rightarrow> Inl (InvalidMessage ''invalid name'') | Inr u \<Rightarrow> Inr u)"

definition check_header ::
  "'fd message \<Rightarrow> byte_range option \<Rightarrow> (byte list \<Rightarrow> dbus_error + unit) \<Rightarrow> dbus_error + unit" where
  "check_header m r check =
     bind_ok (msg_header m r) (\<lambda>v. case v of None \<Rightarrow> Inr () | Some s \<Rightarrow> check s)"

definition validate_object_path :: "('b, 'fd) zvariant \<Rightarrow> byte list \<Rightarrow> dbus_error + unit" where
  "validate_object_path zv v = (if zv_object_path_ok zv v then Inr () else Inl (InvalidMessage ''invalid object path''))"

definition validate_field_values :: "('b, 'fd) zvariant \<Rightarrow> 'fd message \<Rightarrow> dbus_error + unit" where
  "validate_field_values zv m =
     bind_ok (check_header m (msg_path m) (validate_object_path zv)) (\<lambda>_.
     bind_ok (check_header m (msg_interface m) (\<lambda>v. map_invalid_name (validate_interface_name v ''interface name''))) (\<lambda>_.
     bind_ok (check_header m (msg_member m) (\<lambda>v. map_invalid_name (validate_member_name v ''member name''))) (\<lambda>_.
     bind_ok (check_header m (msg_error_name m) (\<lambda>v. map_invalid_name (validate_error_name v ''error name''))) (\<lambda>_.
     bind_ok (check_header m (msg_destination m) (\<lambda>v. map_invalid_name (validate_bus_name v ''destination bus name''))) (\<lambda>_.
     bind_ok (check_header m (msg_sender m) (\<lambda>v. map_invalid_name (validate_unique_name v ''sender unique name''))) (\<lambda>_.
     if msg_reply_serial m = Some 0 then Inl (InvalidMessage ''reply serial is zero'') else Inr ()))))))"

definition validate_body_signature :: "('b, 'fd) zvariant \<Rightarrow> 'fd message \<Rightarrow> dbus_error + unit" where
  "validate_body_signature zv m =
     bind_ok (message_signature m) (\<lambda>signature.
     if \<not> zv_signature_ok zv signature then Inl (InvalidMessage ''invalid body signature'') else
     bind_ok (body_bytes m) (\<lambda>body.
     if (body = []) \<noteq> (signature = [])
     then Inl (InvalidMessage ''body length and signature presence are inconsistent'') else Inr ()))"

definition new_message :: "message_kind \<Rightarrow> byte \<Rightarrow> u32 \<Rightarrow> byte list \<Rightarrow> nat \<Rightarrow> nat \<Rightarrow> 'fd list \<Rightarrow> endian \<Rightarrow> 'fd message" where
  "new_message kind flgs serial frame body_position body_len fds e =
     \<lparr>msg_kind = kind, msg_flags = flgs, msg_serial = serial, msg_reply_serial = None,
      msg_path = None, msg_interface = None, msg_member = None, msg_error_name = None,
      msg_destination = None, msg_sender = None, msg_declared_unix_fds = None, msg_signature = None,
      msg_frame = frame, msg_body_range = (body_position, body_position + body_len),
      msg_unix_fds = fds, msg_body_position = body_position, msg_endian = e\<rparr>"

definition validate_message :: "('b, 'fd) zvariant \<Rightarrow> 'fd message \<Rightarrow> dbus_error + 'fd message" where
  "validate_message zv m =
     bind_ok (validate_unix_fds m) (\<lambda>_.
     bind_ok (validate_required_fields m) (\<lambda>_.
     bind_ok (validate_field_semantics m) (\<lambda>_.
     bind_ok (validate_field_values zv m) (\<lambda>_.
     bind_ok (validate_body_signature zv m) (\<lambda>_. Inr m)))))"

definition decode_message :: "('b, 'fd) zvariant \<Rightarrow> byte list \<Rightarrow> 'fd list \<Rightarrow> dbus_error + 'fd message" where
  "decode_message zv bs fds =
     (if length bs < FIXED_HEADER_LEN then Inl (InvalidMessage ''truncated fixed header'') else
      let fixed = take FIXED_HEADER_LEN bs in
      bind_ok (frame_len fixed) (\<lambda>total.
      if length bs \<noteq> total then Inl (InvalidMessage ''frame length mismatch'') else
      bind_ok (parse_endian (fixed ! 0)) (\<lambda>e.
      bind_ok (kind_try_from (fixed ! 1)) (\<lambda>kind.
      let serial = read_u32 (drop 8 (take 12 fixed)) e in
      if serial = 0 then Inl (InvalidMessage ''message serial is zero'') else
      let fields_len = nat (read_u32 (drop 12 (take 16 fixed)) e);
          fields_end = FIXED_HEADER_LEN + fields_len;
          body_position = align fields_end 8;
          body_len = nat (read_u32 (drop 4 (take 8 fixed)) e);
          m = new_message kind (fixed ! 2) serial bs body_position body_len fds e
      in bind_ok (parse_fields zv bs fields_end e FIXED_HEADER_LEN 0 m) (\<lambda>m.
         bind_ok (slice bs fields_end body_position) (\<lambda>padding.
         bind_ok (validate_zero_padding padding ''header'') (\<lambda>_. validate_message zv m)))))))"

text \<open>The reply a caller waits for, \<^verbatim>\<open>pending.rs\<close>.\<close>

definition reply_matches :: "u32 \<Rightarrow> 'fd message \<Rightarrow> bool" where
  "reply_matches serial m \<longleftrightarrow>
     (msg_kind m = MethodReturn \<or> msg_kind m = ErrorReply) \<and> msg_reply_serial m = Some serial"

text \<open>The text of an error reply, when its body starts with a string.\<close>

definition error_message :: "'fd message \<Rightarrow> dbus_error + byte list option" where
  "error_message m =
     bind_ok (message_signature m) (\<lambda>signature.
     if \<not> (case signature of [] \<Rightarrow> False | c # _ \<Rightarrow> c = sig_s) then Inr None else
     bind_ok (body_bytes m) (\<lambda>body.
     if length body < 4 then Inr None else
     let len = nat (read_u32 (take 4 body) (msg_endian m)) in
     if 4 + len > USIZE_MAX \<or> length body < 4 + len then Inr None
     else if length body \<le> 4 + len \<or> body ! (4 + len) \<noteq> 0 then Inr None
     else if valid_utf8 (drop 4 (take (4 + len) body)) then Inr (Some (drop 4 (take (4 + len) body))) else Inr None))"

end
