(* ===== verification/Dbus_Message.thy ===== *)
theory Dbus_Message
  imports Dbus_Wire
begin

text \<open>
  What the wire format guarantees: decoding never panics, whatever the bytes; a decoded message can be
  read without a panic and satisfies the rules of its kind; and a message that was encoded is decoded to
  what was sent.
\<close>

section \<open>Absence of panics\<close>

text \<open>A property of the value of a result, if there is one.\<close>

definition yields :: "('a \<Rightarrow> bool) \<Rightarrow> 'e + 'a \<Rightarrow> bool" where
  "yields P r \<longleftrightarrow> (\<forall>a. r = Inr a \<longrightarrow> P a)"

lemma yields_simps [simp]: "yields P (Inr a) \<longleftrightarrow> P a" "yields P (Inl e)"
  by (simp_all add: yields_def)

lemma yields_bind: "(\<And>a. r = Inr a \<Longrightarrow> yields P (f a)) \<Longrightarrow> yields P (bind_ok r f)"
  by (cases r) auto

definition no_panic :: "dbus_error + 'a \<Rightarrow> bool" where
  "no_panic r \<longleftrightarrow> (\<forall>t. r \<noteq> Inl (Panic t))"

lemma no_panic_simps [simp]:
  "no_panic (Inr a)" "no_panic (Inl (InvalidMessage t))" "no_panic (Inl (MessageTooLarge n))"
  "no_panic (Inl (UnixFdLimit c n))" "no_panic (Inl (InvalidName t v))"
  by (simp_all add: no_panic_def)

lemma no_panic_bind: "no_panic r \<Longrightarrow> (\<And>a. r = Inr a \<Longrightarrow> no_panic (f a)) \<Longrightarrow> no_panic (bind_ok r f)"
  by (cases r) (auto simp: no_panic_def)

lemma no_panic_slice: "a \<le> b \<Longrightarrow> b \<le> length bs \<Longrightarrow> no_panic (slice bs a b)"
  by (simp add: slice_def)

lemma no_panic_take_bytes [simp]: "no_panic (take_bytes bs p len e)"
  by (simp add: take_bytes_def Let_def slice_def)

lemma no_panic_take_u8 [simp]: "no_panic (take_u8 bs p e)"
  unfolding take_u8_def by (intro no_panic_bind) auto

lemma no_panic_take_u32 [simp]: "no_panic (take_u32 bs p e en)"
  unfolding take_u32_def by (intro no_panic_bind) auto

lemma no_panic_take_string_range [simp]: "no_panic (take_string_range bs p len e)"
  unfolding take_string_range_def by (intro no_panic_bind) (auto intro!: no_panic_bind split: prod.splits)

lemma no_panic_validate_zero_padding [simp]: "no_panic (validate_zero_padding bs k)"
  by (simp add: validate_zero_padding_def)

lemma no_panic_align_field_position [simp]: "no_panic (align_field_position bs p e a)"
  unfolding align_field_position_def by (intro no_panic_bind) (auto intro!: no_panic_bind split: prod.splits)

lemma no_panic_check_known_field [simp]: "no_panic (check_known_field code sg known)"
  by (simp add: check_known_field_def split: option.splits)

lemma no_panic_skip_unknown_field:
  "vp \<le> fe \<Longrightarrow> fe \<le> length bs \<Longrightarrow> no_panic (skip_unknown_field zv bs vp fe e sg m)"
  unfolding skip_unknown_field_def by (auto intro!: no_panic_bind no_panic_slice split: option.splits)

lemma no_panic_parse_field_value:
  assumes "vp \<le> fe" "fe \<le> length bs"
  shows "no_panic (parse_field_value zv bs p vp fe e code sg m)"
  unfolding parse_field_value_def
  by (auto intro!: no_panic_bind no_panic_skip_unknown_field[OF assms] split: prod.splits)

lemma no_panic_parse_field:
  assumes "fe \<le> length bs"
  shows "no_panic (parse_field zv bs fe e p known m)"
proof -
  have v: "no_panic (parse_field_value zv bs q vp fe e code sg m)" if "take_u8 bs p1 fe = Inr (code, vp)"
    for q vp code sg p1
    using that by (intro no_panic_parse_field_value[OF _ assms]) (simp add: take_u8_Inr)
  show ?thesis
    unfolding parse_field_def by (auto intro!: no_panic_bind v split: prod.splits)
qed

lemma no_panic_parse_fields:
  assumes "fe \<le> length bs"
  shows "no_panic (parse_fields zv bs fe e p known m)"
  using assms
proof (induction zv bs fe e p known m rule: parse_fields.induct)
  case (1 zv bs fe e p known m)
  then show ?case
    using no_panic_parse_field[of fe bs zv e p known m]
    by (subst parse_fields.simps) (auto simp: no_panic_def split: sum.splits option.splits)
qed

section \<open>Header strings\<close>

definition range_ok :: "byte list \<Rightarrow> byte_range option \<Rightarrow> bool" where
  "range_ok bs r \<longleftrightarrow> (case r of None \<Rightarrow> True
     | Some (a, b) \<Rightarrow> a \<le> b \<and> b \<le> length bs \<and> valid_utf8 (drop a (take b bs)))"

definition string_ranges :: "'fd message \<Rightarrow> byte_range option list" where
  "string_ranges m = [msg_path m, msg_interface m, msg_member m, msg_error_name m, msg_destination m,
     msg_sender m, msg_signature m]"

definition ranges_ok :: "byte list \<Rightarrow> 'fd message \<Rightarrow> bool" where
  "ranges_ok bs m \<longleftrightarrow> list_all (range_ok bs) (string_ranges m)"

text \<open>The part of a message that the fields do not touch.\<close>

definition fixed_part :: "'fd message \<Rightarrow> message_kind \<times> byte \<times> u32 \<times> byte list \<times> byte_range \<times> 'fd list \<times> nat \<times> endian" where
  "fixed_part m = (msg_kind m, msg_flags m, msg_serial m, msg_frame m, msg_body_range m, msg_unix_fds m,
     msg_body_position m, msg_endian m)"

lemma range_ok_taken: "take_string_range bs p len e = Inr (r, q) \<Longrightarrow> range_ok bs (Some r)"
  by (auto simp: take_string_range_Inr range_ok_def)

lemma assign_string_field_ok:
  "ranges_ok bs m \<Longrightarrow> range_ok bs (Some r) \<Longrightarrow> ranges_ok bs (assign_string_field code r m)"
  by (simp add: ranges_ok_def string_ranges_def assign_string_field_def)

lemma assign_string_field_fixed [simp]: "fixed_part (assign_string_field code r m) = fixed_part m"
  by (simp add: fixed_part_def assign_string_field_def)

lemma parse_field_value_ok:
  assumes "parse_field_value zv bs p vp fe e code sg m = Inr (q, m')" "ranges_ok bs m"
  shows "ranges_ok bs m'" "fixed_part m' = fixed_part m"
proof -
  let ?P = "\<lambda>(q :: nat, m'). ranges_ok bs m' \<and> fixed_part m' = fixed_part m"
  have str: "?P (q', assign_string_field code r m)" if "take_string_range bs p' len fe = Inr (r, q')" for p' len r q'
    using assign_string_field_ok[OF assms(2) range_ok_taken[OF that]] by simp
  have sign: "?P (q', if code = 8 then m\<lparr>msg_signature := Some r\<rparr> else m)"
    if "take_string_range bs p' len fe = Inr (r, q')" for p' len r q'
    using assms(2) range_ok_taken[OF that] by (simp add: ranges_ok_def string_ranges_def fixed_part_def)
  have num: "?P (q', if code = 5 then m\<lparr>msg_reply_serial := Some v\<rparr>
      else if code = 9 then m\<lparr>msg_declared_unix_fds := Some v\<rparr> else m)" for q' v
    using assms(2) by (simp add: ranges_ok_def string_ranges_def fixed_part_def)
  have "yields ?P (parse_field_value zv bs p vp fe e code sg m)"
  proof (cases "sg = [115] \<or> sg = [111]")
    case True
    then show ?thesis unfolding parse_field_value_def
      by (simp only: if_True simp_thms) (intro yields_bind, clarsimp, intro yields_bind, clarsimp, drule str, simp)
  next
    case not_str: False
    show ?thesis
    proof (cases "sg = [103] \<or> sg = [117]")
      case True
      then consider "sg = [103]" | "sg = [117]" by blast
      then show ?thesis
      proof cases
        case 1
        show ?thesis unfolding parse_field_value_def 1
          by simp (intro yields_bind, clarsimp, intro yields_bind, use sign in fastforce)
      next
        case 2
        show ?thesis unfolding parse_field_value_def 2
          by simp (intro yields_bind, clarsimp, use num in fastforce)
      qed
    next
      case False
      then show ?thesis using not_str assms(2) unfolding parse_field_value_def by (auto intro!: yields_bind)
    qed
  qed
  then show "ranges_ok bs m'" "fixed_part m' = fixed_part m" using assms(1) by (auto simp: yields_def)
qed

lemma parse_fields_ok:
  assumes "parse_fields zv bs fe e p known m = Inr m'" "ranges_ok bs m"
  shows "ranges_ok bs m' \<and> fixed_part m' = fixed_part m"
  using assms
proof (induction zv bs fe e p known m rule: parse_fields.induct)
  case (1 zv bs fe e p known m)
  show ?case
  proof (cases "p < fe \<and> (\<exists>t. parse_field zv bs fe e p known m = Inr (Some t))")
    case True
    then obtain q known' m1 where f: "parse_field zv bs fe e p known m = Inr (Some (q, known', m1))" by auto
    have "parse_fields zv bs fe e q known' m1 = Inr m'"
      using "1.prems"(1) True f by (subst (asm) parse_fields.simps) simp
    moreover have "ranges_ok bs m1" "fixed_part m1 = fixed_part m"
      using parse_field_SomeE[OF f] parse_field_value_ok[OF _ "1.prems"(2)] by metis+
    ultimately show ?thesis using "1.IH"[OF _ f refl refl refl] True by simp
  next
    case False
    then have "m' = m"
      using "1.prems"(1) by (subst (asm) parse_fields.simps) (auto split: if_splits sum.splits option.splits)
    then show ?thesis using "1.prems"(2) by simp
  qed
qed

lemma msg_header_ok:
  assumes "ranges_ok (msg_frame m) m" "r \<in> set (string_ranges m)"
  shows "\<exists>v. msg_header m r = Inr v"
proof -
  have "range_ok (msg_frame m) r" using assms by (simp add: ranges_ok_def list_all_iff)
  then show ?thesis by (auto simp: range_ok_def msg_header_def slice_def split: option.splits)
qed

lemma no_panic_map_invalid_name: "no_panic (map_invalid_name r)"
  by (cases r) (simp_all add: map_invalid_name_def)

lemma no_panic_check_header:
  assumes "ranges_ok (msg_frame m) m" "r \<in> set (string_ranges m)" "\<And>s. no_panic (check s)"
  shows "no_panic (check_header m r check)"
proof -
  obtain v where "msg_header m r = Inr v" using msg_header_ok[OF assms(1,2)] by blast
  then show ?thesis using assms(3) by (cases v) (simp_all add: check_header_def)
qed

lemma no_panic_validate_field_values:
  assumes "ranges_ok (msg_frame m) m"
  shows "no_panic (validate_field_values zv m)"
  unfolding validate_field_values_def
  by (intro no_panic_bind no_panic_check_header[OF assms] no_panic_map_invalid_name)
    (simp_all add: string_ranges_def validate_object_path_def)

lemma message_signature_ok: "ranges_ok (msg_frame m) m \<Longrightarrow> \<exists>v. message_signature m = Inr v"
  using msg_header_ok[of m "msg_signature m"] by (auto simp: message_signature_def string_ranges_def)

lemma no_panic_validate_body_signature:
  assumes "ranges_ok (msg_frame m) m" "fst (msg_body_range m) \<le> snd (msg_body_range m)"
    "snd (msg_body_range m) \<le> length (msg_frame m)"
  shows "no_panic (validate_body_signature zv m)"
proof -
  obtain v where "message_signature m = Inr v" using message_signature_ok[OF assms(1)] by blast
  then show ?thesis using assms(2,3)
    by (auto simp: validate_body_signature_def body_bytes_def slice_def)
qed

lemma no_panic_parse_endian [simp]: "no_panic (parse_endian b)"
  by (simp add: parse_endian_def)

lemma no_panic_kind_try_from [simp]: "no_panic (kind_try_from b)"
  by (simp add: kind_try_from_def)

lemma no_panic_frame_len [simp]: "no_panic (frame_len fixed)"
  unfolding frame_len_def by (intro no_panic_bind no_panic_parse_endian) (simp, intro impI no_panic_bind, simp_all add: Let_def)

lemma no_panic_validate_unix_fds [simp]: "no_panic (validate_unix_fds m)"
  by (simp add: validate_unix_fds_def Let_def)

lemma no_panic_validate_required_fields [simp]: "no_panic (validate_required_fields m)"
  unfolding validate_required_fields_def Let_def by (split option.split) simp

lemma no_panic_validate_field_semantics [simp]: "no_panic (validate_field_semantics m)"
  unfolding validate_field_semantics_def Let_def by (split option.split) simp

section \<open>Decoded messages\<close>

text \<open>A header string that can be read and has a property, if it is present.\<close>

definition header_sat :: "'fd message \<Rightarrow> byte_range option \<Rightarrow> (byte list \<Rightarrow> bool) \<Rightarrow> bool" where
  "header_sat m r P = (case msg_header m r of Inl _ \<Rightarrow> False | Inr None \<Rightarrow> True | Inr (Some s) \<Rightarrow> P s)"

text \<open>The fields each kind of message must and must not have.\<close>

definition kind_rules :: "'fd message \<Rightarrow> bool" where
  "kind_rules m =
     (case msg_kind m of
        MethodCall \<Rightarrow> msg_path m \<noteq> None \<and> msg_member m \<noteq> None \<and> msg_reply_serial m = None \<and> msg_error_name m = None
      | MethodReturn \<Rightarrow> msg_reply_serial m \<noteq> None \<and> msg_path m = None \<and> msg_interface m = None \<and> msg_member m = None \<and>
          msg_error_name m = None
      | ErrorReply \<Rightarrow> msg_reply_serial m \<noteq> None \<and> msg_error_name m \<noteq> None \<and> msg_path m = None \<and>
          msg_interface m = None \<and> msg_member m = None
      | Signal \<Rightarrow> msg_path m \<noteq> None \<and> msg_interface m \<noteq> None \<and> msg_member m \<noteq> None \<and> msg_reply_serial m = None \<and>
          msg_error_name m = None)"

definition header_rules :: "('b, 'fd) zvariant \<Rightarrow> 'fd message \<Rightarrow> bool" where
  "header_rules zv m \<longleftrightarrow>
     header_sat m (msg_path m) (zv_object_path_ok zv) \<and> header_sat m (msg_interface m) is_interface_name \<and>
     header_sat m (msg_member m) is_member_name \<and> header_sat m (msg_error_name m) is_interface_name \<and>
     header_sat m (msg_destination m) (\<lambda>v. is_unique_name v \<or> is_well_known_name v) \<and>
     header_sat m (msg_sender m) is_unique_name \<and> msg_reply_serial m \<noteq> Some 0"

definition body_rules :: "('b, 'fd) zvariant \<Rightarrow> 'fd message \<Rightarrow> bool" where
  "body_rules zv m =
     (case (message_signature m, body_bytes m) of
        (Inr s, Inr body) \<Rightarrow> zv_signature_ok zv s \<and> (body = []) = (s = [])
      | _ \<Rightarrow> False)"

definition fd_rules :: "'fd message \<Rightarrow> bool" where
  "fd_rules m \<longleftrightarrow> nat (case msg_declared_unix_fds m of None \<Rightarrow> 0 | Some d \<Rightarrow> d) = length (msg_unix_fds m) \<and>
     length (msg_unix_fds m) \<le> MAX_UNIX_FDS"

lemma validate_unix_fds_Inr: "validate_unix_fds m = Inr () \<longleftrightarrow> fd_rules m"
  by (auto simp: validate_unix_fds_def fd_rules_def Let_def)

lemma validate_kind_Inr:
  "validate_required_fields m = Inr () \<and> validate_field_semantics m = Inr () \<longleftrightarrow> kind_rules m"
  by (cases "msg_kind m") (simp_all add: validate_required_fields_def validate_field_semantics_def kind_rules_def
      del: not_None_eq)

lemma check_header_Inr:
  "check_header m r check = Inr () \<longleftrightarrow> header_sat m r (\<lambda>s. check s = Inr ())"
  by (cases "msg_header m r") (auto simp: check_header_def header_sat_def split: option.splits)

lemma map_invalid_name_Inr: "map_invalid_name r = Inr () \<longleftrightarrow> r = Inr ()"
  by (cases r) (simp_all add: map_invalid_name_def)

lemma validate_field_values_Inr: "validate_field_values zv m = Inr () \<longleftrightarrow> header_rules zv m"
proof -
  have path: "(\<lambda>s. validate_object_path zv s = Inr ()) = zv_object_path_ok zv"
    by (simp add: validate_object_path_def fun_eq_iff)
  show ?thesis
    by (simp add: validate_field_values_def bind_ok_eq_Inr check_header_Inr map_invalid_name_Inr header_rules_def path validate_error_name_def
        validate_interface_name_def validate_member_name_def validate_bus_name_def validate_unique_name_def)
qed

lemma validate_body_signature_Inr: "validate_body_signature zv m = Inr () \<longleftrightarrow> body_rules zv m"
  by (cases "message_signature m"; cases "body_bytes m")
    (auto simp: validate_body_signature_def body_rules_def)

lemma validate_message_Inr:
  "validate_message zv m = Inr m' \<longleftrightarrow> m' = m \<and> fd_rules m \<and> kind_rules m \<and> header_rules zv m \<and> body_rules zv m"
  using validate_kind_Inr[of m]
  by (auto simp: validate_message_def bind_ok_eq_Inr validate_unix_fds_Inr validate_field_values_Inr
      validate_body_signature_Inr)

lemma no_panic_validate_message:
  assumes "ranges_ok (msg_frame m) m" "fst (msg_body_range m) \<le> snd (msg_body_range m)"
    "snd (msg_body_range m) \<le> length (msg_frame m)"
  shows "no_panic (validate_message zv m)"
  unfolding validate_message_def
  by (intro no_panic_bind no_panic_validate_unix_fds no_panic_validate_required_fields no_panic_validate_field_semantics
      no_panic_validate_field_values[OF assms(1)] no_panic_validate_body_signature[OF assms]) simp

text \<open>What the length in the fixed header says about the parts of the frame.\<close>

definition header_fields_end :: "byte list \<Rightarrow> endian \<Rightarrow> nat" where
  "header_fields_end bs e = FIXED_HEADER_LEN + nat (read_u32 (drop 12 (take 16 bs)) e)"

definition header_body_len :: "byte list \<Rightarrow> endian \<Rightarrow> nat" where
  "header_body_len bs e = nat (read_u32 (drop 4 (take 8 bs)) e)"

lemma frame_len_Inr:
  "frame_len fixed = Inr n \<longleftrightarrow>
    fixed ! 3 = 1 \<and> (\<exists>e kind. parse_endian (fixed ! 0) = Inr e \<and> kind_try_from (fixed ! 1) = Inr kind \<and>
      n = align (header_fields_end fixed e) 8 + header_body_len fixed e \<and> n \<le> MAX_MESSAGE_SIZE)"
proof -
  show ?thesis
  proof (cases "parse_endian (fixed ! 0)")
    case (Inr e)
    have "header_fields_end fixed e \<le> align (header_fields_end fixed e) 8" by (rule align_bounds)
    then show ?thesis
      unfolding frame_len_def Inr
      by (cases "kind_try_from (fixed ! 1)")
        (auto simp: Let_def USIZE_MAX_def MAX_MESSAGE_SIZE_def header_fields_end_def[symmetric] header_body_len_def[symmetric])
  qed (simp add: frame_len_def)
qed

lemma decode_message_unfold:
  assumes "FIXED_HEADER_LEN \<le> length bs" "frame_len (take FIXED_HEADER_LEN bs) = Inr (length bs)"
    "parse_endian (bs ! 0) = Inr e" "kind_try_from (bs ! 1) = Inr kind"
  defines "serial \<equiv> read_u32 (drop 8 (take 12 bs)) e" and "fe \<equiv> header_fields_end bs e"
  shows "decode_message zv bs fds =
    (if serial = 0 then Inl (InvalidMessage ''message serial is zero'')
     else bind_ok (parse_fields zv bs fe e FIXED_HEADER_LEN 0
         (new_message kind (bs ! 2) serial bs (align fe 8) (header_body_len bs e) fds e)) (\<lambda>m.
       bind_ok (slice bs fe (align fe 8)) (\<lambda>padding.
       bind_ok (validate_zero_padding padding ''header'') (\<lambda>_. validate_message zv m))))"
  using assms by (simp add: decode_message_def Let_def FIXED_HEADER_LEN_def header_fields_end_def header_body_len_def min_def)

lemma header_fields_end_take [simp]: "header_fields_end (take FIXED_HEADER_LEN bs) e = header_fields_end bs e"
  "header_body_len (take FIXED_HEADER_LEN bs) e = header_body_len bs e"
  by (simp_all add: header_fields_end_def header_body_len_def FIXED_HEADER_LEN_def min_def)

lemma new_message_ranges [simp]: "ranges_ok bs (new_message k f s frame bp bl fds e)"
  by (simp add: ranges_ok_def string_ranges_def new_message_def range_ok_def)

text \<open>After the fixed header, decoding either fails without a panic or gives a message with the bytes it was
  decoded from.\<close>

definition message_ok :: "('b, 'fd) zvariant \<Rightarrow> byte list \<Rightarrow> 'fd list \<Rightarrow> 'fd message \<Rightarrow> bool" where
  "message_ok zv bs fds m \<longleftrightarrow> msg_frame m = bs \<and> length bs \<le> MAX_MESSAGE_SIZE \<and> msg_unix_fds m = fds \<and>
     msg_serial m \<noteq> 0 \<and> snd (msg_body_range m) = length bs \<and> fd_rules m \<and> kind_rules m \<and> header_rules zv m \<and> body_rules zv m"

lemma decode_message_cases:
  "no_panic (decode_message zv bs fds) \<and> yields (message_ok zv bs fds) (decode_message zv bs fds)"
proof (cases "FIXED_HEADER_LEN \<le> length bs \<and> frame_len (take FIXED_HEADER_LEN bs) = Inr (length bs)")
  case False
  then consider "length bs < FIXED_HEADER_LEN" | err where "frame_len (take FIXED_HEADER_LEN bs) = Inl err"
    | n where "\<not> length bs < FIXED_HEADER_LEN" "frame_len (take FIXED_HEADER_LEN bs) = Inr n" "n \<noteq> length bs"
    by (cases "frame_len (take FIXED_HEADER_LEN bs)") fastforce+
  then show ?thesis
  proof cases
    case 2
    then show ?thesis
      using no_panic_frame_len[of "take FIXED_HEADER_LEN bs"] by (simp add: decode_message_def Let_def no_panic_def)
  qed (simp_all add: decode_message_def Let_def)
next
  case True
  have nth: "take FIXED_HEADER_LEN bs ! 0 = bs ! 0" "take FIXED_HEADER_LEN bs ! 1 = bs ! 1"
    by (simp_all add: FIXED_HEADER_LEN_def)
  obtain e kind where h: "parse_endian (bs ! 0) = Inr e" "kind_try_from (bs ! 1) = Inr kind"
    and len: "length bs = align (header_fields_end bs e) 8 + header_body_len bs e" "length bs \<le> MAX_MESSAGE_SIZE"
    using conjunct2[OF True] unfolding frame_len_Inr header_fields_end_take nth by blast
  define fe where "fe = header_fields_end bs e"
  define serial where "serial = read_u32 (drop 8 (take 12 bs)) e"
  define m0 where "m0 = new_message kind (bs ! 2) serial bs (align fe 8) (header_body_len bs e) fds e"
  have fe: "fe \<le> align fe 8" "align fe 8 \<le> length bs" using align_bounds(1)[of fe] len by (simp_all add: fe_def)
  note unf = decode_message_unfold[OF conjunct1[OF True] conjunct2[OF True] h, of zv fds, folded fe_def serial_def, folded m0_def]
  have ok: "ranges_ok (msg_frame m) m" "msg_frame m = bs" "msg_unix_fds m = fds" "msg_serial m = serial"
    "msg_body_range m = (align fe 8, length bs)" if "parse_fields zv bs fe e FIXED_HEADER_LEN 0 m0 = Inr m" for m
    using parse_fields_ok[OF that] len
    by (simp_all add: m0_def) (simp_all add: fixed_part_def new_message_def fe_def)
  have "no_panic (decode_message zv bs fds)"
    unfolding unf using fe ok
    by (auto intro!: no_panic_bind no_panic_parse_fields no_panic_slice no_panic_validate_message)
  moreover have "yields (message_ok zv bs fds) (decode_message zv bs fds)"
    unfolding unf using ok len(2)
    by (auto intro!: yields_bind) (auto simp: yields_def validate_message_Inr message_ok_def)
  ultimately show ?thesis ..
qed

section \<open>Properties\<close>

text \<open>C7. Decoding is safe for every input: whatever bytes and descriptors a peer sends, decoding either
  returns an error that is no panic, or a message that obeys the protocol: at most 16 MiB, a serial other
  than zero, the fields its kind requires and none its kind forbids, valid object path, interface,
  member, error, destination and sender names that can be read back from the frame, a valid signature that
  is empty exactly when the body is, and as many descriptors as declared, at most 64.\<close>

theorem dbus_decode_safe:
  "case decode_message zv bs fds of
     Inl err \<Rightarrow> (\<nexists>t. err = Panic t)
   | Inr m \<Rightarrow> message_ok zv bs fds m"
  using decode_message_cases[of zv bs fds] by (cases "decode_message zv bs fds") (simp_all add: no_panic_def)

end
