(* ===== verification/Dbus_Roundtrip.thy ===== *)
theory Dbus_Roundtrip
  imports Dbus_Message
begin

text \<open>
  Encoding followed by decoding. The encoder only appends, so every field it pushed stands in the final
  frame behind the fixed header; each turn of the decoder's loop reads back one pushed field.
\<close>

section \<open>Reading what was written\<close>

text \<open>A frame carries a buffer of the encoder: they agree behind the fixed header.\<close>

definition carries :: "byte list \<Rightarrow> byte list \<Rightarrow> bool" where
  "carries bs msg \<longleftrightarrow> 16 \<le> length msg \<and> 16 \<le> length bs \<and> (\<exists>rest. drop 16 bs = drop 16 msg @ rest)"

lemma carries_prefix: "carries bs (msg @ x) \<Longrightarrow> 16 \<le> length msg \<Longrightarrow> carries bs msg"
  by (auto simp: carries_def)

lemma carries_slice:
  assumes "carries bs (pre @ x @ post)" "16 \<le> length pre"
  shows "drop (length pre) (take (length pre + length x) bs) = x" "length pre + length x \<le> length bs"
proof -
  obtain rest where r: "drop 16 bs = drop 16 (pre @ x @ post) @ rest" using assms(1) by (auto simp: carries_def)
  then have tail: "drop 16 bs = drop 16 pre @ x @ post @ rest" using assms(2) by simp
  have "drop (length pre) bs = drop (length pre - 16) (drop 16 bs)" using assms(2) by simp
  also have "\<dots> = x @ post @ rest" using assms(2) unfolding tail by simp
  finally have d: "drop (length pre) bs = x @ post @ rest" .
  then show "drop (length pre) (take (length pre + length x) bs) = x" by (simp add: drop_take)
  have "length bs - 16 = length pre - 16 + length x + length post + length rest"
    using arg_cong[OF tail, of length] by simp
  moreover have "16 \<le> length bs" using assms(1) by (simp add: carries_def)
  ultimately show "length pre + length x \<le> length bs" using assms(2) by linarith
qed

text \<open>A frame that fits in a message.\<close>

definition readable :: "byte list \<Rightarrow> nat \<Rightarrow> bool" where
  "readable bs fe \<longleftrightarrow> length bs \<le> USIZE_MAX \<and> fe \<le> length bs"

lemma read_bytes:
  assumes "carries bs (pre @ x @ post)" "16 \<le> length pre" "length pre + length x \<le> fe" "readable bs fe"
  shows "take_bytes bs (length pre) (length x) fe = Inr (x, length pre + length x)"
  using carries_slice[OF assms(1,2)] assms(3,4) by (simp add: take_bytes_Inr readable_def)

lemma read_u8:
  assumes "carries bs (pre @ b # post)" "16 \<le> length pre" "Suc (length pre) \<le> fe" "readable bs fe"
  shows "take_u8 bs (length pre) fe = Inr (b, Suc (length pre))"
  using read_bytes[of bs pre "[b]" post fe] assms by (simp add: take_u8_def)

lemma read_u32_le:
  assumes "carries bs (pre @ to_le_bytes v @ post)" "16 \<le> length pre" "length pre + 4 \<le> fe" "readable bs fe" "is_u32 v"
  shows "take_u32 bs (length pre) fe Little = Inr (v, length pre + 4)"
  using read_bytes[of bs pre "to_le_bytes v" post fe] assms by (simp add: take_u32_def read_u32_def)

lemma read_padding:
  assumes "carries bs (pre @ replicate (align (length pre) a - length pre) 0 @ post)" "16 \<le> length pre"
    "length pre + (align (length pre) a - length pre) \<le> fe" "readable bs fe"
  shows "align_field_position bs (length pre) fe a = Inr (length pre + (align (length pre) a - length pre))"
  using carries_slice[OF assms(1,2)] assms(3,4)
  by (simp add: align_field_position_Inr readable_def list_all_iff)

lemma read_aligned:
  assumes "carries bs pre" "align (length pre) a = length pre" "length pre \<le> fe" "readable bs fe"
  shows "align_field_position bs (length pre) fe a = Inr (length pre)"
  using read_padding[of bs pre a "[]" fe] assms by (simp add: carries_def)

lemma read_string:
  assumes "carries bs (pre @ v @ 0 # post)" "16 \<le> length pre" "Suc (length pre + length v) \<le> fe" "readable bs fe" "valid_utf8 v"
  shows "take_string_range bs (length pre) (length v) fe =
    Inr ((length pre, length pre + length v), Suc (length pre + length v))"
proof -
  have "take_u8 bs (length (pre @ v)) fe = Inr (0, Suc (length (pre @ v)))"
    by (rule read_u8[where post = post]) (use assms in simp_all)
  moreover have "take_bytes bs (length pre) (length v) fe = Inr (v, length pre + length v)"
    by (rule read_bytes[OF assms(1,2)]) (use assms in simp_all)
  ultimately show ?thesis using assms(5) by (simp add: take_string_range_def)
qed

section \<open>Fields\<close>

definition pad8 :: "byte list \<Rightarrow> byte list" where
  "pad8 msg = replicate (align (length msg) 8 - length msg) 0"

lemma length_pad8: "length msg + length (pad8 msg) = align (length msg) 8"
  using align_bounds(1)[of "length msg"] by (simp add: pad8_def)

lemma align_vec_8: "align_vec msg 0 8 = msg @ pad8 msg"
  by (simp add: align_vec_def pad8_def)

text \<open>Four bytes behind a multiple of eight are already aligned to four.\<close>

lemma align_4_aligned: "align (align n 8 + 4) 4 = align n 8 + 4"
  unfolding align_def by presburger

lemma align_vec_4: "length x = 4 \<Longrightarrow> align_vec (msg @ pad8 msg @ x) 0 4 = msg @ pad8 msg @ x"
  using align_4_aligned[of "length msg"] length_pad8[of msg]
  by (simp add: align_vec_def add.assoc[symmetric])

lemma push_string_eq:
  assumes "push_string_field_at 0 code sg v msg = Inr msg'"
  shows "msg' = msg @ pad8 msg @ [code, 1, sg, 0] @ to_le_bytes (int (length v)) @ v @ [0]" "is_u32 (int (length v))"
  using assms align_vec_4[of "[code, 1, sg, 0]" msg]
  by (auto simp: push_string_field_at_def align_vec_8 Let_def is_u32_def split: if_splits)

lemma push_u32_eq:
  "push_u32_field_at 0 code v msg = msg @ pad8 msg @ [code, 1, sig_u, 0] @ to_le_bytes v"
  using align_vec_4[of "[code, 1, sig_u, 0]" msg] by (simp add: push_u32_field_at_def align_vec_8)

lemma push_signature_eq:
  assumes "push_signature_field_at 0 v msg = Inr msg'"
  shows "msg' = msg @ pad8 msg @ [8, 1, sig_g, 0] @ [of_nat (length v)] @ v @ [0]" "length v < 256"
  using assms by (auto simp: push_signature_field_at_def align_vec_8 split: if_splits)

text \<open>The start of every field: padding, code and the signature of its value.\<close>

lemma parse_field_start:
  assumes "carries bs (msg @ pad8 msg @ [code, 1, sg, 0] @ post)" "16 \<le> length msg" "readable bs fe"
    "align (length msg) 8 + 4 \<le> fe" "code \<noteq> 0"
  shows "parse_field zv bs fe e (length msg) known m =
    bind_ok (check_known_field code [sg] known) (\<lambda>known.
    bind_ok (parse_field_value zv bs (align (length msg) 8 + 4) (align (length msg) 8 + 1) fe e code [sg] m) (\<lambda>(pos, m).
    Inr (Some (pos, known, m))))"
proof -
  let ?p = "msg @ pad8 msg"
  have suc4: "Suc (Suc (Suc (Suc n))) = n + 4" for n by simp
  have len: "length ?p = align (length msg) 8" using length_pad8 by simp
  have sum: "length msg + (align (length msg) 8 - length msg) = length ?p"
    using align_bounds(1)[of "length msg"] length_pad8[of msg] by simp
  have "align_field_position bs (length msg) fe 8 = Inr (length ?p)"
    using read_padding[OF assms(1)[unfolded pad8_def] assms(2) _ assms(3)] assms(4) len unfolding sum by simp
  moreover have "take_u8 bs (length ?p) fe = Inr (code, Suc (length ?p))"
    by (rule read_u8[where post = "[1, sg, 0] @ post"]) (use assms len in simp_all)
  moreover have "take_u8 bs (Suc (length ?p)) fe = Inr (1, Suc (Suc (length ?p)))"
    using read_u8[of bs "?p @ [code]" 1 "[sg, 0] @ post" fe] assms len by simp
  moreover have "take_bytes bs (Suc (Suc (length ?p))) (Suc 0) fe = Inr ([sg], Suc (Suc (Suc (length ?p))))"
    using read_bytes[of bs "?p @ [code, 1]" "[sg]" "[0] @ post" fe] assms len by simp
  moreover have "take_u8 bs (Suc (Suc (Suc (length ?p)))) fe = Inr (0, Suc (Suc (Suc (Suc (length ?p)))))"
    using read_u8[of bs "?p @ [code, 1, sg]" 0 post fe] assms len by simp
  ultimately show ?thesis
    using assms(4,5) suc4 unfolding parse_field_def by (simp add: length_pad8)
qed

text \<open>One turn of the loop per pushed field.\<close>

lemma parse_string_field:
  fixes zv :: "('b, 'fd) zvariant"
  assumes push: "push_string_field_at 0 code sg v msg = Inr msg'"
    and bs: "carries bs msg'" "16 \<le> length msg" "readable bs fe" "length msg' \<le> fe"
    and v: "valid_utf8 v"
    and code: "known_field_signature code = Some [sg]" "sg = sig_s \<or> sg = sig_o" "code \<noteq> 0" "\<not> bit known (unat code)"
  shows "parse_field zv bs fe Little (length msg) known m =
    Inr (Some (length msg', set_bit (unat code) known,
      assign_string_field code (length msg' - Suc (length v), length msg' - 1) m))"
proof -
  note eq = push_string_eq[OF push]
  define h where "h = msg @ pad8 msg @ [code, 1, sg, 0]"
  have len: "length h = align (length msg) 8 + 4" using length_pad8[of msg] by (simp add: h_def)
  have al: "align (length h) 4 = length h" unfolding len by (rule align_4_aligned)
  have len': "length msg' = Suc (length h + 4 + length v)" by (simp add: eq(1) h_def)
  have c: "carries bs (h @ to_le_bytes (int (length v)) @ v @ [0])" using bs(1) eq(1) by (simp add: h_def)
  have pad: "align_field_position bs (length h) fe 4 = Inr (length h)"
    by (rule read_aligned[OF carries_prefix[OF c] al]) (use bs len len' in \<open>simp_all add: h_def\<close>)
  have num: "take_u32 bs (length h) fe Little = Inr (int (length v), length h + 4)"
    by (rule read_u32_le[OF c]) (use bs len len' eq(2) in \<open>simp_all add: h_def\<close>)
  have str: "take_string_range bs (length h + 4) (length v) fe =
      Inr ((length h + 4, length h + 4 + length v), length msg')"
    using read_string[of bs "h @ to_le_bytes (int (length v))" v "[]" fe] c bs v len len' align_bounds(1)[of "length msg"]
    by (simp add: add.assoc)
  have "parse_field_value zv bs (length h) vp fe Little code [sg] m =
      Inr (length msg', assign_string_field code (length h + 4, length h + 4 + length v) m)" for vp
    using code(2) pad num str unfolding parse_field_value_def by auto
  then show ?thesis
    using parse_field_start[of bs msg code sg "to_le_bytes (int (length v)) @ v @ [0]" fe zv Little known m] c[unfolded h_def] bs code len
    unfolding len[symmetric] by (simp add: check_known_field_def len' ac_simps)
qed

lemma parse_u32_field:
  fixes zv :: "('b, 'fd) zvariant"
  assumes "msg' = push_u32_field_at 0 code v msg" and bs: "carries bs msg'" "16 \<le> length msg" "readable bs fe" "length msg' \<le> fe"
    and v: "is_u32 v" and code: "code = 5 \<or> code = 9" "\<not> bit known (unat code)"
  shows "parse_field zv bs fe Little (length msg) known m =
    Inr (Some (length msg', set_bit (unat code) known,
      if code = 5 then m\<lparr>msg_reply_serial := Some v\<rparr> else m\<lparr>msg_declared_unix_fds := Some v\<rparr>))"
proof -
  note eq = assms(1)[unfolded push_u32_eq]
  define h where "h = msg @ pad8 msg @ [code, 1, sig_u, 0]"
  have len: "length h = align (length msg) 8 + 4" using length_pad8[of msg] by (simp add: h_def)
  have al: "align (length h) 4 = length h" unfolding len by (rule align_4_aligned)
  have len': "length msg' = length h + 4" by (simp add: eq h_def)
  have c: "carries bs (h @ to_le_bytes v @ [])" using bs(1) eq by (simp add: h_def)
  have pad: "align_field_position bs (length h) fe 4 = Inr (length h)"
    by (rule read_aligned[OF carries_prefix[OF c] al]) (use bs len len' in \<open>simp_all add: h_def\<close>)
  have num: "take_u32 bs (length h) fe Little = Inr (v, length msg')"
    using read_u32_le[OF c _ _ bs(3) v] bs len len' align_bounds(1)[of "length msg"] by simp
  have "parse_field_value zv bs (length h) vp fe Little code [sig_u] m =
      Inr (length msg', if code = 5 then m\<lparr>msg_reply_serial := Some v\<rparr> else m\<lparr>msg_declared_unix_fds := Some v\<rparr>)" for vp
    using code(1) pad num unfolding parse_field_value_def by auto
  then show ?thesis
    using parse_field_start[of bs msg code sig_u "to_le_bytes v" fe zv Little known m] c[unfolded h_def] bs code len
    unfolding len[symmetric] by (auto simp: check_known_field_def known_field_signature_def len')
qed

lemma parse_signature_field:
  fixes zv :: "('b, 'fd) zvariant"
  assumes push: "push_signature_field_at 0 v msg = Inr msg'"
    and bs: "carries bs msg'" "16 \<le> length msg" "readable bs fe" "length msg' \<le> fe"
    and v: "valid_utf8 v" and known: "\<not> bit known 8"
  shows "parse_field zv bs fe Little (length msg) known m =
    Inr (Some (length msg', set_bit 8 known, m\<lparr>msg_signature := Some (length msg' - Suc (length v), length msg' - 1)\<rparr>))"
proof -
  note eq = push_signature_eq[OF push]
  define h where "h = msg @ pad8 msg @ [8, 1, sig_g, 0]"
  have len: "length h = align (length msg) 8 + 4" using length_pad8[of msg] by (simp add: h_def)
  have al: "align (length h) 4 = length h" unfolding len by (rule align_4_aligned)
  have len': "length msg' = Suc (Suc (length h + length v))" by (simp add: eq(1) h_def)
  have c: "carries bs (h @ of_nat (length v) # v @ [0])" using bs(1) eq(1) by (simp add: h_def)
  have num: "take_u8 bs (length h) fe = Inr (of_nat (length v), Suc (length h))"
    by (rule read_u8[OF c]) (use bs len len' in \<open>simp_all add: h_def\<close>)
  have un: "unat (of_nat (length v) :: byte) = length v" using eq(2) by (simp add: unat_of_nat)
  have str: "take_string_range bs (Suc (length h)) (length v) fe =
      Inr ((Suc (length h), Suc (length h) + length v), length msg')"
    using read_string[of bs "h @ [of_nat (length v)]" v "[]" fe] c bs v len len' align_bounds(1)[of "length msg"] by simp
  have "parse_field_value zv bs (length h) vp fe Little 8 [sig_g] m =
      Inr (length msg', m\<lparr>msg_signature := Some (Suc (length h), Suc (length h) + length v)\<rparr>)" for vp
    using num str un unfolding parse_field_value_def by simp
  then show ?thesis
    using parse_field_start[of bs msg 8 sig_g "of_nat (length v) # v @ [0]" fe zv Little known m] c[unfolded h_def] bs known len
    unfolding len[symmetric] by (simp add: check_known_field_def known_field_signature_def len')
qed

section \<open>The header as a whole\<close>

text \<open>Where a pushed string stands: before the final zero byte.\<close>

definition pushed_range :: "byte list \<Rightarrow> byte list option \<Rightarrow> byte_range option" where
  "pushed_range msg v = map_option (\<lambda>x. (length msg - Suc (length x), length msg - 1)) v"

definition mark_field :: "'a option \<Rightarrow> nat \<Rightarrow> nat \<Rightarrow> nat" where
  "mark_field v code known = (if v = None then known else set_bit code known)"

definition assign_optional :: "byte \<Rightarrow> byte_range option \<Rightarrow> 'fd message \<Rightarrow> 'fd message" where
  "assign_optional code r m = (case r of None \<Rightarrow> m | Some x \<Rightarrow> assign_string_field code x m)"

lemma bit_mark_field: "bit (mark_field v c known) n \<longleftrightarrow> bit known n \<or> v \<noteq> None \<and> n = c"
  by (auto simp: mark_field_def bit_set_bit_iff)

definition opt_all :: "('a \<Rightarrow> bool) \<Rightarrow> 'a option \<Rightarrow> bool" where
  "opt_all P v = (case v of None \<Rightarrow> True | Some x \<Rightarrow> P x)"

lemma opt_all_simps [simp]: "opt_all P None" "opt_all P (Some x) \<longleftrightarrow> P x"
  by (simp_all add: opt_all_def)

lemma parse_fields_step:
  "parse_field zv bs fe e p known m = Inr (Some (q, known', m')) \<Longrightarrow> p < fe \<Longrightarrow>
   parse_fields zv bs fe e p known m = parse_fields zv bs fe e q known' m'"
  by (subst parse_fields.simps) simp

lemma push_optional_cases:
  "push_optional push v msg = Inr msg' \<longleftrightarrow> (v = None \<and> msg' = msg) \<or> (\<exists>x. v = Some x \<and> push x msg = Inr msg')"
  by (cases v) (auto simp: push_optional_def)

lemma parse_optional_string:
  fixes zv :: "('b, 'fd) zvariant"
  assumes push: "push_optional (push_string_field_at 0 code sg) v msg = Inr msg'"
    and bs: "carries bs msg'" "16 \<le> length msg" "readable bs fe" "length msg' \<le> fe" and v: "opt_all valid_utf8 v"
    and code: "known_field_signature code = Some [sg]" "sg = sig_s \<or> sg = sig_o" "code \<noteq> 0" "\<not> bit known (unat code)"
  shows "parse_fields zv bs fe Little (length msg) known m =
    parse_fields zv bs fe Little (length msg') (mark_field v (unat code) known)
      (assign_optional code (pushed_range msg' v) m)"
proof (cases v)
  case None
  then show ?thesis using push by (simp add: push_optional_def mark_field_def assign_optional_def pushed_range_def)
next
  case (Some x)
  then have p: "push_string_field_at 0 code sg x msg = Inr msg'" using push by (simp add: push_optional_def)
  have "length msg < length msg'" using push_string_eq(1)[OF p] by simp
  then show ?thesis
    using parse_fields_step[OF parse_string_field[OF p bs _ code, of zv m]] v Some bs(4)
    by (simp add: mark_field_def assign_optional_def pushed_range_def)
qed

lemma push_optional_string_appends:
  "push_optional (push_string_field_at 0 code sg) v msg = Inr msg' \<Longrightarrow> \<exists>x. msg' = msg @ x"
  by (auto simp: push_optional_cases dest: push_string_eq(1))

text \<open>The string at its range.\<close>

lemma pushed_string_slice:
  assumes "push_optional (push_string_field_at 0 code sg) v msg = Inr msg'" "carries bs msg'" "16 \<le> length msg"
    "pushed_range msg' v = Some (a, b)"
  shows "slice bs a b = Inr (the v)"
proof -
  obtain x where x: "v = Some x" "push_string_field_at 0 code sg x msg = Inr msg'"
    using assms(1,4) by (auto simp: push_optional_cases pushed_range_def)
  define pre where "pre = msg @ pad8 msg @ [code, 1, sg, 0] @ to_le_bytes (int (length x))"
  have eq: "msg' = pre @ x @ [0]" using push_string_eq(1)[OF x(2)] by (simp add: pre_def)
  have "a = length pre" "b = length pre + length x" using assms(4) x(1) eq by (simp_all add: pushed_range_def)
  then show ?thesis using carries_slice[of bs pre x "[0]"] assms(2,3) eq x(1) by (simp add: slice_def pre_def)
qed

text \<open>A range of the frame holds an optional string.\<close>

definition holds :: "byte list \<Rightarrow> byte_range option \<Rightarrow> byte list option \<Rightarrow> bool" where
  "holds bs r v = (case r of None \<Rightarrow> v = None | Some (a, b) \<Rightarrow> v \<noteq> None \<and> slice bs a b = Inr (the v))"

lemma holds_pushed:
  assumes "push_optional (push_string_field_at 0 code sg) v msg = Inr msg'" "carries bs msg'" "16 \<le> length msg"
  shows "holds bs (pushed_range msg' v) v"
  using pushed_string_slice[OF assms] by (cases v) (auto simp: holds_def pushed_range_def)

lemma parse_optional_reply:
  fixes zv :: "('b, 'fd) zvariant"
  assumes push: "push_optional (\<lambda>v m. Inr (push_u32_field_at 0 5 v m)) v msg = Inr msg'"
    and bs: "carries bs msg'" "16 \<le> length msg" "readable bs fe" "length msg' \<le> fe" and v: "opt_all is_u32 v"
    and known: "\<not> bit known 5" and m: "msg_reply_serial m = None"
  shows "parse_fields zv bs fe Little (length msg) known m =
    parse_fields zv bs fe Little (length msg') (mark_field v 5 known) (m\<lparr>msg_reply_serial := v\<rparr>)"
proof (cases v)
  case None
  moreover have "m\<lparr>msg_reply_serial := None\<rparr> = m" using m by (cases m) simp
  ultimately show ?thesis using push by (simp add: push_optional_def mark_field_def)
next
  case (Some x)
  then have p: "msg' = push_u32_field_at 0 5 x msg" using push by (simp add: push_optional_def)
  have "length msg < length msg'" by (simp add: p push_u32_eq)
  then show ?thesis
    using parse_fields_step[OF parse_u32_field[OF p bs, of known zv m]] v Some bs(4) known by (simp add: mark_field_def)
qed

definition push_body_signature :: "byte list \<Rightarrow> byte list \<Rightarrow> dbus_error + byte list" where
  "push_body_signature sg msg = (if sg \<noteq> [] then push_signature_field_at 0 sg msg else Inr msg)"

definition signature_option :: "byte list \<Rightarrow> byte list option" where
  "signature_option sg = (if sg = [] then None else Some sg)"

lemma parse_body_signature:
  fixes zv :: "('b, 'fd) zvariant"
  assumes push: "push_body_signature sg msg = Inr msg'"
    and bs: "carries bs msg'" "16 \<le> length msg" "readable bs fe" "length msg' \<le> fe" and v: "valid_utf8 sg"
    and known: "\<not> bit known 8" and m: "msg_signature m = None"
  shows "parse_fields zv bs fe Little (length msg) known m = parse_fields zv bs fe Little (length msg')
      (mark_field (signature_option sg) 8 known) (m\<lparr>msg_signature := pushed_range msg' (signature_option sg)\<rparr>)"
    and "holds bs (pushed_range msg' (signature_option sg)) (signature_option sg)"
proof -
  have "parse_fields zv bs fe Little (length msg) known m = parse_fields zv bs fe Little (length msg')
      (mark_field (signature_option sg) 8 known) (m\<lparr>msg_signature := pushed_range msg' (signature_option sg)\<rparr>) \<and>
    holds bs (pushed_range msg' (signature_option sg)) (signature_option sg)"
  proof (cases "sg = []")
    case True
    moreover have "m\<lparr>msg_signature := None\<rparr> = m" using m by (cases m) simp
    ultimately show ?thesis using push
      by (simp add: push_body_signature_def mark_field_def signature_option_def pushed_range_def holds_def)
  next
    case False
    then have p: "push_signature_field_at 0 sg msg = Inr msg'" using push by (simp add: push_body_signature_def)
    define pre where "pre = msg @ pad8 msg @ [8, 1, sig_g, 0] @ [of_nat (length sg)]"
    have eq: "msg' = pre @ sg @ [0]" using push_signature_eq(1)[OF p] by (simp add: pre_def)
    have at: "length msg' - Suc (length sg) = length pre" "length msg' - 1 = length pre + length sg" by (simp_all add: eq)
    have "16 \<le> length pre" using bs(2) by (simp add: pre_def)
    then have "slice bs (length msg' - Suc (length sg)) (length msg' - 1) = Inr sg"
      using carries_slice[OF bs(1)[unfolded eq]] unfolding at by (simp add: slice_def)
    moreover have "length msg < length msg'" using eq by (simp add: pre_def)
    ultimately show ?thesis
      using parse_fields_step[OF parse_signature_field[OF p bs v known, of zv m]] False bs(4)
      by (simp add: mark_field_def signature_option_def pushed_range_def holds_def)
  qed
  then show "parse_fields zv bs fe Little (length msg) known m = parse_fields zv bs fe Little (length msg')
      (mark_field (signature_option sg) 8 known) (m\<lparr>msg_signature := pushed_range msg' (signature_option sg)\<rparr>)"
    "holds bs (pushed_range msg' (signature_option sg)) (signature_option sg)" by simp_all
qed

text \<open>The buffers between the pushes of \<open>encode_fields\<close>.\<close>

definition field_chain :: "outgoing \<Rightarrow> byte list \<Rightarrow> byte list list \<Rightarrow> bool" where
  "field_chain og sg ms \<longleftrightarrow>
     push_optional (push_string_field_at 0 1 sig_o) (og_path og) (ms ! 0) = Inr (ms ! 1) \<and>
     push_optional (push_string_field_at 0 2 sig_s) (og_interface og) (ms ! 1) = Inr (ms ! 2) \<and>
     push_optional (push_string_field_at 0 3 sig_s) (og_member og) (ms ! 2) = Inr (ms ! 3) \<and>
     push_optional (push_string_field_at 0 4 sig_s) (og_error_name og) (ms ! 3) = Inr (ms ! 4) \<and>
     push_optional (\<lambda>v m. Inr (push_u32_field_at 0 5 v m)) (og_reply_serial og) (ms ! 4) = Inr (ms ! 5) \<and>
     push_optional (push_string_field_at 0 6 sig_s) (og_destination og) (ms ! 5) = Inr (ms ! 6) \<and>
     push_body_signature sg (ms ! 6) = Inr (ms ! 7)"

lemma encode_fields_chain:
  assumes "encode_fields og sg msg = Inr msg'"
  shows "\<exists>ms. field_chain og sg ms \<and> ms ! 0 = msg \<and> ms ! 7 = msg'"
proof -
  obtain m1 m2 m3 m4 m5 m6 where "field_chain og sg [msg, m1, m2, m3, m4, m5, m6, msg']"
    using assms by (auto simp: encode_fields_def bind_ok_eq_Inr push_body_signature_def field_chain_def)
  then show ?thesis by (intro exI[of _ "[msg, m1, m2, m3, m4, m5, m6, msg']"]) simp
qed

lemma appends_reply:
  "push_optional (\<lambda>v m. Inr (push_u32_field_at 0 5 v m)) v msg = Inr msg' \<Longrightarrow> \<exists>x. msg' = msg @ x"
  by (auto simp: push_optional_cases push_u32_eq)

lemma appends_signature: "push_body_signature sg msg = Inr msg' \<Longrightarrow> \<exists>x. msg' = msg @ x"
  using push_signature_eq(1) by (auto simp: push_body_signature_def split: if_splits)

text \<open>The strings of an outgoing message are UTF-8 and its numbers in range.\<close>

definition outgoing_typed :: "outgoing \<Rightarrow> bool" where
  "outgoing_typed og \<longleftrightarrow> is_u32 (og_serial og) \<and> opt_all is_u32 (og_reply_serial og) \<and>
     list_all (opt_all valid_utf8) [og_path og, og_interface og, og_member og, og_error_name og, og_destination og]"

lemma within_prefix:
  assumes "\<exists>x. msg' = msg @ x" "16 \<le> length msg" "carries bs msg'" "length msg' \<le> fe"
  shows "carries bs msg \<and> length msg \<le> fe"
  using assms carries_prefix by auto

lemma field_chain_within:
  assumes ch: "field_chain og sg ms" and len: "16 \<le> length (ms ! 0)" and bs: "carries bs (ms ! 7)" "length (ms ! 7) \<le> fe"
    and i: "i \<in> {1 .. 7}"
  shows "16 \<le> length (ms ! (i - 1)) \<and> carries bs (ms ! i) \<and> length (ms ! i) \<le> fe"
proof -
  note c = ch[unfolded field_chain_def]
  have app: "\<exists>x. ms ! 1 = ms ! 0 @ x" "\<exists>x. ms ! 2 = ms ! 1 @ x" "\<exists>x. ms ! 3 = ms ! 2 @ x" "\<exists>x. ms ! 4 = ms ! 3 @ x"
    "\<exists>x. ms ! 5 = ms ! 4 @ x" "\<exists>x. ms ! 6 = ms ! 5 @ x" "\<exists>x. ms ! 7 = ms ! 6 @ x"
    using c push_optional_string_appends appends_reply appends_signature by blast+
  then have ge: "16 \<le> length (ms ! 1)" "16 \<le> length (ms ! 2)" "16 \<le> length (ms ! 3)" "16 \<le> length (ms ! 4)"
    "16 \<le> length (ms ! 5)" "16 \<le> length (ms ! 6)" using len by auto
  note w6 = within_prefix[OF app(7) ge(6) bs]
  note w5 = within_prefix[OF app(6) ge(5) conjunct1[OF w6] conjunct2[OF w6]]
  note w4 = within_prefix[OF app(5) ge(4) conjunct1[OF w5] conjunct2[OF w5]]
  note w3 = within_prefix[OF app(4) ge(3) conjunct1[OF w4] conjunct2[OF w4]]
  note w2 = within_prefix[OF app(3) ge(2) conjunct1[OF w3] conjunct2[OF w3]]
  note w1 = within_prefix[OF app(2) ge(1) conjunct1[OF w2] conjunct2[OF w2]]
  have "i = 1 \<or> i = 2 \<or> i = 3 \<or> i = 4 \<or> i = 5 \<or> i = 6 \<or> i = 7" using i by auto
  then show ?thesis using w1 w2 w3 w4 w5 w6 bs ge len by (elim disjE) simp_all
qed

lemma field_chain_grows: "field_chain og sg ms \<Longrightarrow> length (ms ! 0) \<le> length (ms ! 7)"
proof -
  assume "field_chain og sg ms"
  note c = this[unfolded field_chain_def]
  obtain x1 x2 x3 x4 x5 x6 x7 where "ms ! 1 = ms ! 0 @ x1" "ms ! 2 = ms ! 1 @ x2" "ms ! 3 = ms ! 2 @ x3"
    "ms ! 4 = ms ! 3 @ x4" "ms ! 5 = ms ! 4 @ x5" "ms ! 6 = ms ! 5 @ x6" "ms ! 7 = ms ! 6 @ x7"
    using c push_optional_string_appends appends_reply appends_signature by metis
  then show ?thesis by simp
qed

lemma assign_optional_eqs:
  "msg_path m = None \<Longrightarrow> assign_optional 1 r m = m\<lparr>msg_path := r\<rparr>"
  "msg_interface m = None \<Longrightarrow> assign_optional 2 r m = m\<lparr>msg_interface := r\<rparr>"
  "msg_member m = None \<Longrightarrow> assign_optional 3 r m = m\<lparr>msg_member := r\<rparr>"
  "msg_error_name m = None \<Longrightarrow> assign_optional 4 r m = m\<lparr>msg_error_name := r\<rparr>"
  "msg_destination m = None \<Longrightarrow> assign_optional 6 r m = m\<lparr>msg_destination := r\<rparr>"
  by (cases r; cases m; simp add: assign_optional_def assign_string_field_def)+

text \<open>The message after the fields of the outgoing message.\<close>

definition assign_fields :: "outgoing \<Rightarrow> byte list \<Rightarrow> byte list list \<Rightarrow> 'fd message \<Rightarrow> 'fd message" where
  "assign_fields og sg ms m =
     m\<lparr>msg_path := pushed_range (ms ! 1) (og_path og), msg_interface := pushed_range (ms ! 2) (og_interface og),
       msg_member := pushed_range (ms ! 3) (og_member og), msg_error_name := pushed_range (ms ! 4) (og_error_name og),
       msg_reply_serial := og_reply_serial og, msg_destination := pushed_range (ms ! 6) (og_destination og),
       msg_signature := pushed_range (ms ! 7) (signature_option sg)\<rparr>"

lemma field_chain_parsed:
  fixes zv :: "('b, 'fd) zvariant"
  assumes ch: "field_chain og sg ms" and len: "16 \<le> length (ms ! 0)"
    and bs: "carries bs (ms ! 7)" "length (ms ! 7) \<le> fe" "readable bs fe" and ok: "outgoing_typed og" "valid_utf8 sg"
    and m0: "m0 = new_message kd f s frame bp bl fds e"
  shows "\<exists>known. \<not> bit known 9 \<and> parse_fields zv bs fe Little (length (ms ! 0)) 0 m0 =
    parse_fields zv bs fe Little (length (ms ! 7)) known (assign_fields og sg ms m0)"
proof -
  note c = ch[unfolded field_chain_def]
  note w = field_chain_within[OF ch len bs(1,2)]
  have utf8: "opt_all valid_utf8 (og_path og)" "opt_all valid_utf8 (og_interface og)" "opt_all valid_utf8 (og_member og)"
    "opt_all valid_utf8 (og_error_name og)" "opt_all valid_utf8 (og_destination og)" "opt_all is_u32 (og_reply_serial og)"
    using ok(1) by (simp_all add: outgoing_typed_def)
  let ?parse = "\<lambda>i. parse_fields zv bs fe Little (length (ms ! i))"
  define k1 where "k1 = mark_field (og_path og) 1 0"
  define k2 where "k2 = mark_field (og_interface og) 2 k1"
  define k3 where "k3 = mark_field (og_member og) 3 k2"
  define k4 where "k4 = mark_field (og_error_name og) 4 k3"
  define k5 where "k5 = mark_field (og_reply_serial og) 5 k4"
  define k6 where "k6 = mark_field (og_destination og) 6 k5"
  note k = k1_def k2_def k3_def k4_def k5_def k6_def
  define M1 where "M1 = assign_optional 1 (pushed_range (ms ! 1) (og_path og)) m0"
  define M2 where "M2 = assign_optional 2 (pushed_range (ms ! 2) (og_interface og)) M1"
  define M3 where "M3 = assign_optional 3 (pushed_range (ms ! 3) (og_member og)) M2"
  define M4 where "M4 = assign_optional 4 (pushed_range (ms ! 4) (og_error_name og)) M3"
  define M5 where "M5 = M4\<lparr>msg_reply_serial := og_reply_serial og\<rparr>"
  define M6 where "M6 = assign_optional 6 (pushed_range (ms ! 6) (og_destination og)) M5"
  note M = M1_def M2_def M3_def M4_def M5_def M6_def
  have m0_none: "msg_path m0 = None" "msg_interface m0 = None" "msg_member m0 = None" "msg_error_name m0 = None"
    "msg_reply_serial m0 = None" "msg_destination m0 = None" "msg_signature m0 = None"
    by (simp_all add: m0 new_message_def)
  have none: "msg_reply_serial M4 = None" "msg_signature M6 = None"
    unfolding M by (simp_all add: assign_optional_eqs m0_none)
  note sigs = known_field_signature_def bit_mark_field k
  have "?parse 0 0 m0 = ?parse 1 k1 M1"
    using parse_optional_string[of 1 sig_o "og_path og" "ms ! 0" "ms ! 1" bs fe 0 zv m0] c w[of 1] bs(3) utf8(1)
    by (simp add: known_field_signature_def M1_def k1_def)
  also have "\<dots> = ?parse 2 k2 M2"
    using parse_optional_string[of 2 sig_s "og_interface og" "ms ! 1" "ms ! 2" bs fe k1 zv M1] c w[of 2] bs(3) utf8(2)
    by (simp add: sigs M2_def)
  also have "\<dots> = ?parse 3 k3 M3"
    using parse_optional_string[of 3 sig_s "og_member og" "ms ! 2" "ms ! 3" bs fe k2 zv M2] c w[of 3] bs(3) utf8(3)
    by (simp add: sigs M3_def)
  also have "\<dots> = ?parse 4 k4 M4"
    using parse_optional_string[of 4 sig_s "og_error_name og" "ms ! 3" "ms ! 4" bs fe k3 zv M3] c w[of 4] bs(3) utf8(4)
    by (simp add: sigs M4_def)
  also have "\<dots> = ?parse 5 k5 M5"
    using parse_optional_reply[of "og_reply_serial og" "ms ! 4" "ms ! 5" bs fe k4 M4 zv] c w[of 5] bs(3) utf8(6) none(1)
    by (simp add: sigs M5_def)
  also have "\<dots> = ?parse 6 k6 M6"
    using parse_optional_string[of 6 sig_s "og_destination og" "ms ! 5" "ms ! 6" bs fe k5 zv M5] c w[of 6] bs(3) utf8(5)
    by (simp add: sigs M6_def)
  also have "\<dots> = ?parse 7 (mark_field (signature_option sg) 8 k6) (M6\<lparr>msg_signature := pushed_range (ms ! 7) (signature_option sg)\<rparr>)"
    using parse_body_signature(1)[of sg "ms ! 6" "ms ! 7" bs fe k6 M6 zv] c w[of 7] bs(3) ok(2) none(2) by (simp add: sigs)
  also have "M6\<lparr>msg_signature := pushed_range (ms ! 7) (signature_option sg)\<rparr> = assign_fields og sg ms m0"
    unfolding M assign_fields_def by (simp add: assign_optional_eqs m0_none)
  finally show ?thesis by (intro exI[of _ "mark_field (signature_option sg) 8 k6"]) (simp add: sigs)
qed

text \<open>What the ranges of the message hold.\<close>

definition fields_hold :: "byte list \<Rightarrow> outgoing \<Rightarrow> byte list \<Rightarrow> 'fd message \<Rightarrow> bool" where
  "fields_hold bs og sg m \<longleftrightarrow> holds bs (msg_path m) (og_path og) \<and> holds bs (msg_interface m) (og_interface og) \<and>
     holds bs (msg_member m) (og_member og) \<and> holds bs (msg_error_name m) (og_error_name og) \<and>
     holds bs (msg_destination m) (og_destination og) \<and> holds bs (msg_signature m) (signature_option sg)"

lemma field_chain_holds:
  assumes ch: "field_chain og sg ms" and len: "16 \<le> length (ms ! 0)"
    and bs: "carries bs (ms ! 7)" "length (ms ! 7) \<le> fe" "readable bs fe" and ok: "valid_utf8 sg"
  shows "fields_hold bs og sg (assign_fields og sg ms m)"
proof -
  note c = ch[unfolded field_chain_def]
  note w = field_chain_within[OF ch len bs(1,2)]
  have "holds bs (pushed_range (ms ! 1) (og_path og)) (og_path og)"
    using holds_pushed[of 1 sig_o "og_path og" "ms ! 0" "ms ! 1" bs] c w[of 1] by simp
  moreover have "holds bs (pushed_range (ms ! 2) (og_interface og)) (og_interface og)"
    using holds_pushed[of 2 sig_s "og_interface og" "ms ! 1" "ms ! 2" bs] c w[of 2] by simp
  moreover have "holds bs (pushed_range (ms ! 3) (og_member og)) (og_member og)"
    using holds_pushed[of 3 sig_s "og_member og" "ms ! 2" "ms ! 3" bs] c w[of 3] by simp
  moreover have "holds bs (pushed_range (ms ! 4) (og_error_name og)) (og_error_name og)"
    using holds_pushed[of 4 sig_s "og_error_name og" "ms ! 3" "ms ! 4" bs] c w[of 4] by simp
  moreover have "holds bs (pushed_range (ms ! 6) (og_destination og)) (og_destination og)"
    using holds_pushed[of 6 sig_s "og_destination og" "ms ! 5" "ms ! 6" bs] c w[of 6] by simp
  moreover have "holds bs (pushed_range (ms ! 7) (signature_option sg)) (signature_option sg)"
    using parse_body_signature(2)[of sg "ms ! 6" "ms ! 7" bs fe 0 "undefined\<lparr>msg_signature := None\<rparr>"] c w[of 7] bs(3) ok by simp
  ultimately show ?thesis by (simp add: fields_hold_def assign_fields_def)
qed

definition fd_declared :: "nat \<Rightarrow> u32 option" where
  "fd_declared n = (if n = 0 then None else Some (int n))"

definition push_fd_count :: "nat \<Rightarrow> byte list \<Rightarrow> byte list" where
  "push_fd_count n msg = (if n \<noteq> 0 then push_u32_field_at 0 9 (int n) msg else msg)"

lemma parse_fd_count:
  fixes zv :: "('b, 'fd) zvariant"
  assumes bs: "carries bs (push_fd_count n msg)" "16 \<le> length msg" "readable bs (length (push_fd_count n msg))"
    and n: "n \<le> MAX_UNIX_FDS" and known: "\<not> bit known 9" and m: "msg_declared_unix_fds m = None"
  shows "parse_fields zv bs (length (push_fd_count n msg)) Little (length msg) known m =
    Inr (m\<lparr>msg_declared_unix_fds := fd_declared n\<rparr>)"
proof (cases "n = 0")
  case True
  moreover have "m\<lparr>msg_declared_unix_fds := None\<rparr> = m" using m by (cases m) simp
  ultimately show ?thesis by (subst parse_fields.simps) (simp add: push_fd_count_def fd_declared_def)
next
  case False
  define msg' where "msg' = push_u32_field_at 0 9 (int n) msg"
  have e: "push_fd_count n msg = msg'" using False by (simp add: push_fd_count_def msg'_def)
  have "is_u32 (int n)" using n by (simp add: is_u32_def MAX_UNIX_FDS_def)
  then have "parse_fields zv bs (length msg') Little (length msg) known m =
      parse_fields zv bs (length msg') Little (length msg') (set_bit 9 known) (m\<lparr>msg_declared_unix_fds := fd_declared n\<rparr>)"
    using parse_fields_step[OF parse_u32_field[OF msg'_def bs(1)[unfolded e] bs(2) bs(3)[unfolded e] order_refl, of known zv m]]
      False known by (simp add: fd_declared_def msg'_def push_u32_eq)
  then show ?thesis unfolding e by (simp add: parse_fields.simps[of zv bs "length msg'" Little "length msg'"])
qed

section \<open>The frame\<close>

definition fixed_header :: "outgoing \<Rightarrow> nat \<Rightarrow> nat \<Rightarrow> byte list" where
  "fixed_header og body_len fields_len = [of_char CHR ''l'', kind_code (og_kind og), og_flags og, 1] @
     to_le_bytes (int body_len) @ to_le_bytes (og_serial og) @ to_le_bytes (int fields_len)"

text \<open>The frame of an encoded message: fixed header, fields, padding, body.\<close>

definition frame_parts :: "outgoing \<Rightarrow> byte list \<Rightarrow> byte list \<Rightarrow> byte list" where
  "frame_parts og msg body = fixed_header og (length body) (length msg - 16) @ drop 16 msg @ pad8 msg @ body"

lemma length_fixed_header [simp]: "length (fixed_header og b f) = 16"
  by (simp add: fixed_header_def)

lemma seal_header_eq:
  assumes "16 \<le> length msg"
  shows "seal_header og b (length msg - 16) (align (length msg) 8) msg = fixed_header og b (length msg - 16) @ drop 16 msg @ pad8 msg"
proof -
  define h where "h = fixed_header og b (length msg - 16)"
  have h: "length (h @ drop 16 msg) = length msg" using assms by (simp add: h_def)
  have "seal_header og b (length msg - 16) (align (length msg) 8) msg =
      (h @ drop 16 msg) @ replicate (align (length msg) 8 - length (h @ drop 16 msg)) 0"
    by (simp add: seal_header_def FIXED_HEADER_LEN_def h_def fixed_header_def Let_def)
  then show ?thesis using assms unfolding h pad8_def h_def by simp
qed

lemma encode_outgoing_parts:
  assumes "encode_outgoing zv og body = Inr enc"
  obtains msg n bytes where "encode_fields og (zv_signature zv body) (replicate 16 0) = Inr msg" "n \<le> MAX_UNIX_FDS"
    "zv_to_writer zv (align (length (push_fd_count n msg)) 8) body = Inr (bytes, em_unix_fds enc)"
    "length (em_unix_fds enc) = n" "em_bytes enc = frame_parts og (push_fd_count n msg) bytes"
    "length (em_bytes enc) \<le> MAX_MESSAGE_SIZE"
proof -
  obtain msg sz n where m: "encode_fields og (zv_signature zv body) (replicate 16 0) = Inr msg"
    "zv_serialized_size zv 0 body = Inr (sz, n)" "n \<le> MAX_UNIX_FDS"
    using assms by (auto simp: encode_outgoing_def bind_ok_eq_Inr FIXED_HEADER_LEN_def split: if_splits)
  obtain ms where ms: "field_chain og (zv_signature zv body) ms" "ms ! 0 = replicate 16 0" "ms ! 7 = msg"
    using encode_fields_chain[OF m(1)] by blast
  define msg' where "msg' = push_fd_count n msg"
  obtain body_len bytes fds where b: "zv_serialized_size zv (align (length msg') 8) body = Inr (body_len, n)"
    "zv_to_writer zv (align (length msg') 8) body = Inr (bytes, fds)"
    "align (length msg') 8 + body_len \<le> MAX_MESSAGE_SIZE"
    using assms m by (auto simp: encode_outgoing_def bind_ok_eq_Inr FIXED_HEADER_LEN_def Let_def push_fd_count_def msg'_def
        split: if_splits)
  have "16 \<le> length msg" using field_chain_grows[OF ms(1)] ms(2,3) by simp
  then have len: "16 \<le> length msg'" by (simp add: msg'_def push_fd_count_def push_u32_eq)
  define M where "M = fixed_header og body_len (length msg' - 16) @ drop 16 msg' @ pad8 msg' @ bytes"
  have M_len: "length M = align (length msg') 8 + length bytes"
    using len length_pad8[of msg'] by (simp add: M_def)
  have "encode_outgoing zv og body = (if length fds \<noteq> n \<or> length M \<noteq> align (length msg') 8 + body_len
      then Inl (InvalidMessage ''body changed while the D-Bus message was being serialized'')
      else Inr \<lparr>em_bytes = M, em_unix_fds = fds\<rparr>)"
    using m b seal_header_eq[OF len, of og body_len]
    unfolding encode_outgoing_def FIXED_HEADER_LEN_def push_fd_count_def[symmetric]
    by (simp add: Let_def M_def msg'_def[symmetric] USIZE_MAX_def MAX_MESSAGE_SIZE_def)
  then have r: "length fds = n" "length bytes = body_len" "enc = \<lparr>em_bytes = M, em_unix_fds = fds\<rparr>"
    using assms M_len by (auto split: if_splits)
  show ?thesis
  proof (rule that[OF m(1,3), of bytes])
    show "em_bytes enc = frame_parts og (push_fd_count n msg) bytes"
      by (simp add: r M_def frame_parts_def msg'_def[symmetric])
    show "length (em_bytes enc) \<le> MAX_MESSAGE_SIZE" using b(3) M_len by (simp add: r)
  qed (use b(2) r in \<open>simp_all add: msg'_def\<close>)
qed

text \<open>Reading the fixed header back.\<close>

lemma frame_parts_header:
  assumes "16 \<le> length msg" "length (frame_parts og msg body) \<le> MAX_MESSAGE_SIZE" "is_u32 (og_serial og)"
  defines "bs \<equiv> frame_parts og msg body"
  shows "parse_endian (bs ! 0) = Inr Little" "kind_try_from (bs ! 1) = Inr (og_kind og)" "bs ! 2 = og_flags og" "bs ! 3 = 1"
    "header_fields_end bs Little = length msg" "header_body_len bs Little = length body"
    "read_u32 (drop 8 (take 12 bs)) Little = og_serial og" "length bs = align (length msg) 8 + length body"
proof -
  define rest where "rest = drop 16 msg @ pad8 msg @ body"
  have bs: "bs = fixed_header og (length body) (length msg - 16) @ rest" by (simp add: bs_def frame_parts_def rest_def)
  show len: "length bs = align (length msg) 8 + length body"
    using assms(1) length_pad8[of msg] by (simp add: bs rest_def)
  have u: "is_u32 (int (length body))" "is_u32 (int (length msg - 16))"
    using assms(2) len align_bounds(1)[of "length msg"] by (simp_all add: bs_def is_u32_def MAX_MESSAGE_SIZE_def)
  show "parse_endian (bs ! 0) = Inr Little" "kind_try_from (bs ! 1) = Inr (og_kind og)" "bs ! 2 = og_flags og" "bs ! 3 = 1"
    by (simp_all add: bs fixed_header_def parse_endian_def kind_try_from_def kind_code_def split: message_kind.splits)
  have "drop 12 (take 16 bs) = to_le_bytes (int (length msg - 16))" "drop 4 (take 8 bs) = to_le_bytes (int (length body))"
    "drop 8 (take 12 bs) = to_le_bytes (og_serial og)"
    by (simp_all add: bs fixed_header_def to_le_bytes_def)
  then show "header_fields_end bs Little = length msg" "header_body_len bs Little = length body"
    "read_u32 (drop 8 (take 12 bs)) Little = og_serial og"
    using assms(1,3) u by (simp_all add: header_fields_end_def header_body_len_def read_u32_def FIXED_HEADER_LEN_def)
qed

lemma frame_parts_carries:
  assumes "16 \<le> length msg" "length (frame_parts og msg body) \<le> MAX_MESSAGE_SIZE"
  shows "carries (frame_parts og msg body) msg" "readable (frame_parts og msg body) (length msg)"
  using assms by (auto simp: carries_def readable_def frame_parts_def USIZE_MAX_def MAX_MESSAGE_SIZE_def)

lemma frame_parts_tail:
  assumes "16 \<le> length msg"
  shows "slice (frame_parts og msg body) (length msg) (align (length msg) 8) = Inr (pad8 msg)"
    "slice (frame_parts og msg body) (align (length msg) 8) (align (length msg) 8 + length body) = Inr body"
proof -
  define h where "h = fixed_header og (length body) (length msg - 16) @ drop 16 msg"
  have h: "length h = length msg" using assms by (simp add: h_def)
  have bs: "frame_parts og msg body = h @ pad8 msg @ body" by (simp add: frame_parts_def h_def)
  have al: "align (length msg) 8 = length h + length (pad8 msg)" using length_pad8[of msg] h by simp
  show "slice (frame_parts og msg body) (length msg) (align (length msg) 8) = Inr (pad8 msg)"
    "slice (frame_parts og msg body) (align (length msg) 8) (align (length msg) 8 + length body) = Inr body"
    unfolding al bs by (simp_all add: slice_def h[symmetric])
qed

section \<open>Valid outgoing messages\<close>

text \<open>What the callers of the encoder guarantee of a message, by its kind.\<close>

definition outgoing_ok :: "('b, 'fd) zvariant \<Rightarrow> outgoing \<Rightarrow> bool" where
  "outgoing_ok zv og \<longleftrightarrow> is_u32 (og_serial og) \<and> og_serial og \<noteq> 0 \<and> opt_all (\<lambda>r. is_u32 r \<and> r \<noteq> 0) (og_reply_serial og) \<and>
     opt_all (\<lambda>v. valid_utf8 v \<and> zv_object_path_ok zv v) (og_path og) \<and> opt_all is_interface_name (og_interface og) \<and>
     opt_all is_member_name (og_member og) \<and> opt_all is_interface_name (og_error_name og) \<and>
     opt_all (\<lambda>v. is_unique_name v \<or> is_well_known_name v) (og_destination og) \<and>
     (case og_kind og of
        MethodCall \<Rightarrow> og_path og \<noteq> None \<and> og_member og \<noteq> None \<and> og_reply_serial og = None \<and> og_error_name og = None
      | MethodReturn \<Rightarrow> og_reply_serial og \<noteq> None \<and> og_path og = None \<and> og_interface og = None \<and> og_member og = None \<and>
          og_error_name og = None
      | ErrorReply \<Rightarrow> og_reply_serial og \<noteq> None \<and> og_error_name og \<noteq> None \<and> og_path og = None \<and>
          og_interface og = None \<and> og_member og = None
      | Signal \<Rightarrow> og_path og \<noteq> None \<and> og_interface og \<noteq> None \<and> og_member og \<noteq> None \<and> og_reply_serial og = None \<and>
          og_error_name og = None)"

text \<open>The body of a message: its signature is valid, and it is empty exactly for the empty body.\<close>

definition body_law :: "('b, 'fd) zvariant \<Rightarrow> 'b \<Rightarrow> bool" where
  "body_law zv body \<longleftrightarrow> valid_utf8 (zv_signature zv body) \<and> zv_signature_ok zv (zv_signature zv body) \<and>
     (\<forall>p bytes fds. zv_to_writer zv p body = Inr (bytes, fds) \<longrightarrow> (bytes = []) = (zv_signature zv body = []))"

lemma opt_all_mono: "opt_all P v \<Longrightarrow> (\<And>x. P x \<Longrightarrow> Q x) \<Longrightarrow> opt_all Q v"
  by (cases v) auto

lemma outgoing_ok_typed: "outgoing_ok zv og \<Longrightarrow> outgoing_typed og"
  unfolding outgoing_ok_def outgoing_typed_def by (auto elim!: opt_all_mono intro: name_utf8)

lemma holds_header:
  assumes "holds (msg_frame m) r v" "opt_all valid_utf8 v"
  shows "msg_header m r = Inr v"
  using assms by (cases r; cases v) (auto simp: holds_def msg_header_def)

lemma holds_None: "holds bs r v \<Longrightarrow> r = None \<longleftrightarrow> v = None"
  by (auto simp: holds_def split: option.splits)

text \<open>What a decoded message has in common with the outgoing one.\<close>

definition delivers :: "('b, 'fd) zvariant \<Rightarrow> outgoing \<Rightarrow> 'b \<Rightarrow> 'fd list \<Rightarrow> 'fd message \<Rightarrow> bool" where
  "delivers zv og body fds m \<longleftrightarrow>
     msg_kind m = og_kind og \<and> msg_flags m = og_flags og \<and> msg_serial m = og_serial og \<and>
     msg_reply_serial m = og_reply_serial og \<and> msg_header m (msg_path m) = Inr (og_path og) \<and>
     msg_header m (msg_interface m) = Inr (og_interface og) \<and> msg_header m (msg_member m) = Inr (og_member og) \<and>
     msg_header m (msg_error_name m) = Inr (og_error_name og) \<and>
     msg_header m (msg_destination m) = Inr (og_destination og) \<and> msg_sender m = None \<and>
     message_signature m = Inr (zv_signature zv body) \<and> msg_unix_fds m = fds \<and> msg_endian m = Little \<and>
     (\<exists>bytes. zv_to_writer zv (msg_body_position m) body = Inr (bytes, fds) \<and> body_bytes m = Inr bytes)"

lemma fields_hold_headers:
  assumes "fields_hold (msg_frame m) og sg m" "outgoing_typed og" "valid_utf8 sg"
  shows "msg_header m (msg_path m) = Inr (og_path og)" "msg_header m (msg_interface m) = Inr (og_interface og)"
    "msg_header m (msg_member m) = Inr (og_member og)" "msg_header m (msg_error_name m) = Inr (og_error_name og)"
    "msg_header m (msg_destination m) = Inr (og_destination og)" "message_signature m = Inr sg"
proof -
  have u: "opt_all valid_utf8 (og_path og)" "opt_all valid_utf8 (og_interface og)" "opt_all valid_utf8 (og_member og)"
    "opt_all valid_utf8 (og_error_name og)" "opt_all valid_utf8 (og_destination og)"
    "opt_all valid_utf8 (signature_option sg)"
    using assms(2,3) by (simp_all add: outgoing_typed_def signature_option_def)
  note h = assms(1)[unfolded fields_hold_def]
  show "msg_header m (msg_path m) = Inr (og_path og)" "msg_header m (msg_interface m) = Inr (og_interface og)"
    "msg_header m (msg_member m) = Inr (og_member og)" "msg_header m (msg_error_name m) = Inr (og_error_name og)"
    "msg_header m (msg_destination m) = Inr (og_destination og)"
    using h u by (auto intro: holds_header)
  have "msg_header m (msg_signature m) = Inr (signature_option sg)" using h u by (auto intro: holds_header)
  then show "message_signature m = Inr sg" by (simp add: message_signature_def signature_option_def)
qed

lemma delivered_valid:
  assumes "fields_hold (msg_frame m) og (zv_signature zv body) m" "delivers zv og body fds m" "outgoing_ok zv og"
    "body_law zv body" "msg_declared_unix_fds m = fd_declared (length fds)" "length fds \<le> MAX_UNIX_FDS"
  shows "validate_message zv m = Inr m"
proof -
  note d = assms(2)[unfolded delivers_def] and o = assms(3)[unfolded outgoing_ok_def]
  note h = assms(1)[unfolded fields_hold_def]
  have "fd_rules m" using d assms(5,6) by (simp add: fd_rules_def fd_declared_def)
  moreover have "kind_rules m"
  proof -
    have "msg_path m = None \<longleftrightarrow> og_path og = None" "msg_interface m = None \<longleftrightarrow> og_interface og = None"
      "msg_member m = None \<longleftrightarrow> og_member og = None" "msg_error_name m = None \<longleftrightarrow> og_error_name og = None"
      using h holds_None by blast+
    then show ?thesis using d o by (cases "og_kind og") (simp_all add: kind_rules_def del: not_None_eq)
  qed
  moreover have "header_rules zv m"
  proof -
    have sat: "header_sat m r P" if "msg_header m r = Inr v" "opt_all P v" for r v P
      using that by (cases v) (simp_all add: header_sat_def)
    have "header_sat m (msg_path m) (zv_object_path_ok zv)"
      using d o by (intro sat[of "msg_path m" "og_path og"]) (auto elim: opt_all_mono)
    moreover have "header_sat m (msg_sender m) is_unique_name" using d by (simp add: header_sat_def msg_header_def)
    moreover have "msg_reply_serial m \<noteq> Some 0" using d o by auto
    ultimately show ?thesis using d o sat unfolding header_rules_def by blast
  qed
  moreover have "body_rules zv m"
  proof -
    obtain bytes where b: "zv_to_writer zv (msg_body_position m) body = Inr (bytes, fds)" "body_bytes m = Inr bytes"
      using d by blast
    then have "(bytes = []) = (zv_signature zv body = [])" using assms(4) unfolding body_law_def by blast
    then show ?thesis using d b assms(4) by (simp add: body_rules_def body_law_def)
  qed
  ultimately show ?thesis by (simp add: validate_message_Inr)
qed

lemma encode_decode:
  fixes zv :: "('b, 'fd) zvariant"
  assumes enc: "encode_outgoing zv og body = Inr enc" and ok: "outgoing_ok zv og" "body_law zv body"
  shows "frame_len (take 16 (em_bytes enc)) = Inr (length (em_bytes enc)) \<and>
    (\<exists>m. decode_message zv (em_bytes enc) (em_unix_fds enc) = Inr m \<and> delivers zv og body (em_unix_fds enc) m)"
proof -
  obtain msg n bytes where p: "encode_fields og (zv_signature zv body) (replicate 16 0) = Inr msg" "n \<le> MAX_UNIX_FDS"
    "zv_to_writer zv (align (length (push_fd_count n msg)) 8) body = Inr (bytes, em_unix_fds enc)"
    "length (em_unix_fds enc) = n" "em_bytes enc = frame_parts og (push_fd_count n msg) bytes"
    "length (em_bytes enc) \<le> MAX_MESSAGE_SIZE"
    using encode_outgoing_parts[OF enc] by blast
  obtain ms where ms: "field_chain og (zv_signature zv body) ms" "ms ! 0 = replicate 16 0" "ms ! 7 = msg"
    using encode_fields_chain[OF p(1)] by blast
  define msg8 bs fds where "msg8 = push_fd_count n msg" and "bs = em_bytes enc" and "fds = em_unix_fds enc"
  have len7: "16 \<le> length msg" using field_chain_grows[OF ms(1)] ms(2,3) by simp
  have app: "\<exists>x. msg8 = msg @ x" by (simp add: msg8_def push_fd_count_def push_u32_eq)
  then have len8: "16 \<le> length msg8" "length msg \<le> length msg8" using len7 by auto
  have bs_eq: "bs = frame_parts og msg8 bytes" using p(5) by (simp add: bs_def msg8_def)
  have max: "length (frame_parts og msg8 bytes) \<le> MAX_MESSAGE_SIZE" using p(6) bs_eq by (simp add: bs_def)
  have typed: "outgoing_typed og" using ok(1) by (rule outgoing_ok_typed)
  have ser: "is_u32 (og_serial og)" "og_serial og \<noteq> 0" using ok(1) by (simp_all add: outgoing_ok_def)
  have sg: "valid_utf8 (zv_signature zv body)" using ok(2) by (simp add: body_law_def)
  note hdr = frame_parts_header[OF len8(1) max ser(1), folded bs_eq]
  note car = frame_parts_carries[OF len8(1) max, folded bs_eq]
  have car7: "carries bs (ms ! 7)" using within_prefix[OF app len7 car(1) order_refl] ms(3) by simp
  define m0 where "m0 = new_message (og_kind og) (og_flags og) (og_serial og) bs (align (length msg8) 8) (length bytes) fds Little"
  define m where "m = (assign_fields og (zv_signature zv body) ms m0)\<lparr>msg_declared_unix_fds := fd_declared n\<rparr>"
  obtain known where known: "\<not> bit known 9" "parse_fields zv bs (length msg8) Little 16 0 m0 =
      parse_fields zv bs (length msg8) Little (length msg) known (assign_fields og (zv_signature zv body) ms m0)"
    using field_chain_parsed[OF ms(1) _ car7 _ car(2) typed sg m0_def, of zv] ms(2,3) len8 by auto
  have "msg_declared_unix_fds (assign_fields og (zv_signature zv body) ms m0) = None"
    by (simp add: assign_fields_def m0_def new_message_def)
  from parse_fd_count[OF car(1)[unfolded msg8_def] len7 car(2)[unfolded msg8_def] p(2) known(1) this, folded msg8_def]
  have parse: "parse_fields zv bs (length msg8) Little 16 0 m0 = Inr m" unfolding known(2) m_def .
  have hold: "fields_hold (msg_frame m) og (zv_signature zv body) m"
    using field_chain_holds[OF ms(1) _ car7 _ car(2) sg, of m0] ms(2,3) len8
    by (simp add: m_def fields_hold_def assign_fields_def m0_def new_message_def)
  have del: "delivers zv og body fds m"
    unfolding delivers_def using fields_hold_headers[OF hold typed sg] p(3) frame_parts_tail(2)[OF len8(1), of og bytes, folded bs_eq]
    by (simp add: m_def assign_fields_def m0_def new_message_def body_bytes_def fds_def msg8_def)
  have val: "validate_message zv m = Inr m"
    using delivered_valid[OF hold del ok] p(2,4) by (simp add: m_def fds_def)
  have fl: "frame_len (take FIXED_HEADER_LEN bs) = Inr (length bs)"
    using hdr max unfolding frame_len_Inr header_fields_end_take by (simp add: FIXED_HEADER_LEN_def bs_eq)
  have "decode_message zv bs fds = Inr m"
    using decode_message_unfold[OF _ fl hdr(1,2), of zv fds] hdr ser(2) parse val
      frame_parts_tail(1)[OF len8(1), of og bytes, folded bs_eq] len8 align_bounds(1)[of "length msg8"]
    by (simp add: FIXED_HEADER_LEN_def m0_def validate_zero_padding_def pad8_def list_ex_iff)
  then show ?thesis using fl del by (auto simp: FIXED_HEADER_LEN_def bs_def fds_def)
qed

section \<open>Properties\<close>

text \<open>C6. A message arrives as it was sent: whenever a valid outgoing message is encoded, the reader learns from
  the first 16 bytes exactly how many bytes to read, and decoding these bytes with the descriptors sent
  along succeeds and gives a message of the same kind, flags and serials, the same path, interface,
  member, error name and destination, no sender, the same signature and descriptors, and the body as it
  was serialized for its position.\<close>

theorem dbus_message_roundtrip:
  assumes "encode_outgoing zv og body = Inr enc" "outgoing_ok zv og" "body_law zv body"
  shows "frame_len (take 16 (em_bytes enc)) = Inr (length (em_bytes enc)) \<and>
    (\<exists>m. decode_message zv (em_bytes enc) (em_unix_fds enc) = Inr m \<and> delivers zv og body (em_unix_fds enc) m)"
  using encode_decode[OF assms] .

section \<open>Witness\<close>

text \<open>Bodies that are strings of bytes, written with their length and a final zero byte.\<close>

definition sample_zv :: "(byte list, nat) zvariant" where
  "sample_zv = \<lparr>zv_signature = (\<lambda>b. if b = [] then [] else [115]),
     zv_serialized_size = (\<lambda>p b. Inr (if b = [] then 0 else length b + 5, 0)),
     zv_to_writer = (\<lambda>p b. Inr (if b = [] then [] else to_le_bytes (int (length b)) @ b @ [0], [])),
     zv_signature_ok = (\<lambda>s. s = [] \<or> s = [115]), zv_signature_text = (\<lambda>s. s),
     zv_object_path_ok = (\<lambda>v. v \<noteq> [] \<and> hd v = 47), zv_value_len = (\<lambda>e p fds data. None)\<rparr>"

definition ping :: outgoing where
  "ping = \<lparr>og_kind = MethodCall, og_flags = 0, og_serial = 7, og_reply_serial = None, og_path = Some [47, 97],
     og_interface = None, og_member = Some [80], og_error_name = None, og_destination = None\<rparr>"

lemma ping_ok: "outgoing_ok sample_zv ping"
  by (simp add: outgoing_ok_def ping_def sample_zv_def is_u32_def is_member_name_def MAX_NAME_LEN_def
      is_alpha_or_underscore_def is_ascii_alphabetic_def)

lemma sample_law: "body_law sample_zv b"
  by (simp add: body_law_def sample_zv_def)

lemma ping_encoded: "\<exists>enc. encode_outgoing sample_zv ping [33] = Inr enc"
  by (simp add: encode_outgoing_def encode_fields_def ping_def sample_zv_def push_optional_def push_string_field_at_def
      push_signature_field_at_def seal_header_def align_vec_def align_def FIXED_HEADER_LEN_def MAX_MESSAGE_SIZE_def
      MAX_UNIX_FDS_def USIZE_MAX_def Let_def to_le_bytes_def)

theorem dbus_message_roundtrip_witness:
  "\<exists>enc m. encode_outgoing sample_zv ping [33] = Inr enc \<and>
    decode_message sample_zv (em_bytes enc) (em_unix_fds enc) = Inr m \<and> delivers sample_zv ping [33] (em_unix_fds enc) m"
proof -
  obtain enc where "encode_outgoing sample_zv ping [33] = Inr enc" using ping_encoded by blast
  with dbus_message_roundtrip[OF this ping_ok sample_law] show ?thesis by blast
qed

end
