(* ===== verification/Surface_Content.thy ===== *)
theory Surface_Content
  imports Geometry
begin

text \<open>
  Surface values of \<^verbatim>\<open>crates/tensor-protocol/src\<close>: the colour state of \<^verbatim>\<open>color.rs\<close> with the
  validation of image descriptions, and the revision, buffer transform, crop rectangle and
  renderable content of \<^verbatim>\<open>content.rs\<close>.

  The affine sample transform of \<^verbatim>\<open>content.rs\<close> is computed in floating point; the scene never
  looks inside it, so its type is the parameter \<open>'m\<close>.
\<close>

section \<open>Colour\<close>

type_synonym image_description_id = u64

definition image_description_id_new :: "u64 \<Rightarrow> image_description_id option" where
  "image_description_id_new v = (if v = 0 then None else Some v)"

datatype render_intent =
    Perceptual | Relative | Saturation | Absolute | RelativeBlackPointCompensation | AbsoluteNoAdaptation

record chromaticity =
  chroma_x :: i32
  chroma_y :: i32

abbreviation (input) CHROMA_SCALE :: int where "CHROMA_SCALE \<equiv> 1000000"

definition Chromaticity :: "i32 \<Rightarrow> i32 \<Rightarrow> chromaticity" where
  "Chromaticity x y = \<lparr>chroma_x = x, chroma_y = y\<rparr>"

definition chromaticity_is_physical :: "chromaticity \<Rightarrow> bool" where
  "chromaticity_is_physical c \<longleftrightarrow>
     chroma_x c \<ge> 0 \<and> chroma_y c > 0 \<and> chroma_x c \<le> CHROMA_SCALE \<and> chroma_y c \<le> CHROMA_SCALE \<and>
     sat_i32 (chroma_x c + chroma_y c) \<le> CHROMA_SCALE"

record chromaticities =
  chroma_red :: chromaticity
  chroma_green :: chromaticity
  chroma_blue :: chromaticity
  chroma_white :: chromaticity

definition SRGB :: chromaticities where
  "SRGB = \<lparr>chroma_red = Chromaticity 640000 330000, chroma_green = Chromaticity 300000 600000,
           chroma_blue = Chromaticity 150000 60000, chroma_white = Chromaticity 312700 329000\<rparr>"

definition BT2020 :: chromaticities where
  "BT2020 = \<lparr>chroma_red = Chromaticity 708000 292000, chroma_green = Chromaticity 170000 797000,
             chroma_blue = Chromaticity 131000 46000, chroma_white = Chromaticity 312700 329000\<rparr>"

definition chromaticities_is_physical :: "chromaticities \<Rightarrow> bool" where
  "chromaticities_is_physical c \<longleftrightarrow>
     chromaticity_is_physical (chroma_red c) \<and> chromaticity_is_physical (chroma_green c) \<and>
     chromaticity_is_physical (chroma_blue c) \<and> chromaticity_is_physical (chroma_white c)"

datatype color_primaries =
    PrimariesSrgb | PalM | Pal | Ntsc | GenericFilm | PrimariesBt2020 | Cie1931Xyz | DciP3 | DisplayP3
  | AdobeRgb | CustomPrimaries chromaticities

fun primaries_chromaticities :: "color_primaries \<Rightarrow> chromaticities option" where
  "primaries_chromaticities PrimariesSrgb = Some SRGB"
| "primaries_chromaticities PrimariesBt2020 = Some BT2020"
| "primaries_chromaticities (CustomPrimaries v) = Some v"
| "primaries_chromaticities _ = None"

datatype transfer_function =
    Bt1886 | Gamma22 | Gamma28 | St240 | ExtendedLinear | Log100 | Log316 | XvYcc | TransferSrgb
  | ExtendedSrgb | St2084Pq | St428 | Hlg | CompoundPower24 | Power u32

fun transfer_is_hdr :: "transfer_function \<Rightarrow> bool" where
  "transfer_is_hdr St2084Pq = True"
| "transfer_is_hdr Hlg = True"
| "transfer_is_hdr _ = False"

fun transfer_valid :: "transfer_function \<Rightarrow> bool" where
  "transfer_valid (Power e) \<longleftrightarrow> 10000 \<le> e \<and> e \<le> 100000"
| "transfer_valid _ \<longleftrightarrow> True"

record color_luminances =
  min_luminance_x10k :: u32
  max_luminance :: u32
  reference_white :: u32

definition Luminances :: "u32 \<Rightarrow> u32 \<Rightarrow> u32 \<Rightarrow> color_luminances" where
  "Luminances mn mx white = \<lparr>min_luminance_x10k = mn, max_luminance = mx, reference_white = white\<rparr>"

definition SDR :: color_luminances where "SDR = Luminances 2000 80 80"
definition PQ :: color_luminances where "PQ = Luminances 50 10000 203"
definition HLG :: color_luminances where "HLG = Luminances 50 1000 203"

text \<open>The products fit in 64 bits.\<close>

definition luminances_valid :: "color_luminances \<Rightarrow> bool" where
  "luminances_valid l \<longleftrightarrow>
     min_luminance_x10k l < max_luminance l * 10000 \<and> min_luminance_x10k l < reference_white l * 10000"

record mastering_metadata =
  mastering_primaries :: chromaticities
  mastering_min_x10k :: u32
  mastering_max :: u32
  max_content_light_level :: "u32 option"
  max_frame_average_light_level :: "u32 option"

definition mastering_valid :: "mastering_metadata \<Rightarrow> bool" where
  "mastering_valid m \<longleftrightarrow>
     chromaticities_is_physical (mastering_primaries m) \<and>
     mastering_min_x10k m < mastering_max m * 10000 \<and>
     (case (max_content_light_level m, max_frame_average_light_level m) of
        (Some content, Some average) \<Rightarrow> average \<le> content
      | _ \<Rightarrow> True)"

record image_description =
  description_id :: image_description_id
  primaries :: color_primaries
  transfer_function :: transfer_function
  luminances :: color_luminances
  mastering :: "mastering_metadata option"

definition image_description_srgb :: "image_description_id \<Rightarrow> image_description" where
  "image_description_srgb i =
     \<lparr>description_id = i, primaries = PrimariesSrgb, transfer_function = CompoundPower24,
      luminances = SDR, mastering = None\<rparr>"

datatype image_description_error =
    InvalidTransferFunction | InvalidPrimaries | InvalidLuminances | InvalidMasteringMetadata

definition image_description_validate :: "image_description \<Rightarrow> image_description_error + image_description" where
  "image_description_validate d =
     (if \<not> transfer_valid (transfer_function d) then Inl InvalidTransferFunction
      else if (case primaries d of CustomPrimaries p \<Rightarrow> \<not> chromaticities_is_physical p | _ \<Rightarrow> False)
        then Inl InvalidPrimaries
      else if \<not> luminances_valid (luminances d) then Inl InvalidLuminances
      else if (case mastering d of Some m \<Rightarrow> \<not> mastering_valid m | None \<Rightarrow> False)
        then Inl InvalidMasteringMetadata
      else Inr d)"

definition image_description_is_hdr :: "image_description \<Rightarrow> bool" where
  "image_description_is_hdr d \<longleftrightarrow> transfer_is_hdr (transfer_function d) \<or> max_luminance (luminances d) > 203"

datatype color_alpha_mode = PremultipliedElectrical | PremultipliedOptical | Straight

datatype matrix_coefficients =
    IdentityMatrix | Bt709 | Fcc | Bt601 | Smpte240 | MatrixBt2020 | Bt2020ConstantLuminance | Ictcp

datatype color_range = FullRange | LimitedRange

datatype chroma_location = Type0 | Type1 | Type2 | Type3 | Type4 | Type5

record color_representation =
  alpha_mode :: color_alpha_mode
  coefficients_and_range :: "(matrix_coefficients \<times> color_range) option"
  chroma_location :: "chroma_location option"

record surface_color_state =
  color_description :: "(image_description \<times> render_intent) option"
  representation :: color_representation

definition default_color_state :: surface_color_state where
  "default_color_state =
     \<lparr>color_description = None,
      representation = \<lparr>alpha_mode = PremultipliedElectrical, coefficients_and_range = None, chroma_location = None\<rparr>\<rparr>"

section \<open>Content\<close>

type_synonym surface_id = u64
type_synonym surface_buffer_id = u64
type_synonym content_revision = u64

definition revision_next :: "content_revision \<Rightarrow> content_revision" where
  "revision_next r = (r + 1) mod 18446744073709551616"

datatype surface_transform =
    Normal | Rotate90 | Rotate180 | Rotate270 | Flipped | Flipped90 | Flipped180 | Flipped270

definition swaps_axes :: "surface_transform \<Rightarrow> bool" where
  "swaps_axes t \<longleftrightarrow> t \<in> {Rotate90, Rotate270, Flipped90, Flipped270}"

datatype surface_layer = LayerView | LayerPopup

record surface_uv_transform =
  uv_origin :: "int \<times> int"
  uv_axis_x :: "int \<times> int"
  uv_axis_y :: "int \<times> int"

definition Uv :: "int \<times> int \<Rightarrow> int \<times> int \<Rightarrow> int \<times> int \<Rightarrow> surface_uv_transform" where
  "Uv o' ax ay = \<lparr>uv_origin = o', uv_axis_x = ax, uv_axis_y = ay\<rparr>"

fun uv_transform :: "surface_transform \<Rightarrow> surface_uv_transform" where
  "uv_transform Normal = Uv (0, 0) (1, 0) (0, 1)"
| "uv_transform Rotate90 = Uv (1, 0) (0, 1) (-1, 0)"
| "uv_transform Rotate180 = Uv (1, 1) (-1, 0) (0, -1)"
| "uv_transform Rotate270 = Uv (0, 1) (0, -1) (1, 0)"
| "uv_transform Flipped = Uv (1, 0) (-1, 0) (0, 1)"
| "uv_transform Flipped90 = Uv (0, 0) (0, 1) (1, 0)"
| "uv_transform Flipped180 = Uv (0, 1) (1, 0) (0, -1)"
| "uv_transform Flipped270 = Uv (1, 1) (0, -1) (-1, 0)"

text \<open>Wayland 24.8 fixed point.\<close>

record surface_source_rect =
  source_x :: i32
  source_y :: i32
  source_width :: i32
  source_height :: i32

abbreviation (input) FIXED_SCALE :: int where "FIXED_SCALE \<equiv> 256"

definition has_integer_size :: "surface_source_rect \<Rightarrow> bool" where
  "has_integer_size s \<longleftrightarrow> source_width s mod FIXED_SCALE = 0 \<and> source_height s mod FIXED_SCALE = 0"

text \<open>Integer division of Rust truncates towards zero.\<close>

definition quot :: "int \<Rightarrow> int \<Rightarrow> int" where
  "quot a b = (if a < 0 then - ((- a) div b) else a div b)"

definition integer_size :: "surface_source_rect \<Rightarrow> i32 \<times> i32" where
  "integer_size s = (quot (source_width s) FIXED_SCALE, quot (source_height s) FIXED_SCALE)"

definition fits_within :: "surface_source_rect \<Rightarrow> i32 \<Rightarrow> i32 \<Rightarrow> bool" where
  "fits_within s w h \<longleftrightarrow>
     source_x s \<ge> 0 \<and> source_y s \<ge> 0 \<and> source_width s > 0 \<and> source_height s > 0 \<and>
     source_x s + source_width s \<le> w * FIXED_SCALE \<and> source_y s + source_height s \<le> h * FIXED_SCALE"

type_synonym surface_alpha = u32

definition OPAQUE :: surface_alpha where "OPAQUE = 4294967295"
definition TRANSPARENT :: surface_alpha where "TRANSPARENT = 0"

record 'm surface_content =
  content_surface :: surface_id
  content_buffer :: surface_buffer_id
  content_revision :: content_revision
  content_layer :: surface_layer
  content_alpha :: surface_alpha
  content_color :: surface_color_state
  local_geometry :: rect
  sample_transform :: 'm

section \<open>Properties\<close>

text \<open>The point of the buffer, in units of its extent, sampled at a corner of the surface.\<close>

definition uv_at :: "surface_transform \<Rightarrow> int \<times> int \<Rightarrow> int \<times> int" where
  "uv_at t p = (let u = uv_transform t in
     (fst (uv_origin u) + fst p * fst (uv_axis_x u) + snd p * fst (uv_axis_y u),
      snd (uv_origin u) + fst p * snd (uv_axis_x u) + snd p * snd (uv_axis_y u)))"

definition corners :: "(int \<times> int) set" where
  "corners = {(0, 0), (0, 1), (1, 0), (1, 1)}"

text \<open>Every buffer transform maps the corners of the surface one-to-one onto the corners of the
  buffer, the eight transforms map them in eight different ways, and a transform swaps the axes
  exactly when the horizontal edge of the surface runs along the vertical edge of the buffer.\<close>

lemma uv_transform_symmetries:
  "bij_betw (uv_at t) corners corners \<and>
   (t \<noteq> t' \<longrightarrow> (\<exists>p \<in> corners. uv_at t p \<noteq> uv_at t' p)) \<and>
   (swaps_axes t \<longleftrightarrow> fst (uv_axis_x (uv_transform t)) = 0)"
proof -
  have img: "uv_at t ` corners = corners"
    by (cases t) (auto simp: uv_at_def corners_def Uv_def Let_def)
  moreover have "inj_on (uv_at t) corners"
    by (rule eq_card_imp_inj_on) (simp_all add: img, simp add: corners_def)
  ultimately have bij: "bij_betw (uv_at t) corners corners" by (simp add: bij_betw_def)
  have "t \<noteq> t' \<longrightarrow> (\<exists>p \<in> corners. uv_at t p \<noteq> uv_at t' p)"
    by (cases t; cases t') (simp_all add: uv_at_def corners_def Uv_def Let_def)
  moreover have "swaps_axes t \<longleftrightarrow> fst (uv_axis_x (uv_transform t)) = 0"
    by (cases t) (simp_all add: swaps_axes_def Uv_def)
  ultimately show ?thesis using bij by blast
qed

text \<open>A validated image description is accepted exactly when it is physically meaningful, and the
  reported error is the first violated requirement: the transfer exponent, then custom primaries
  inside the colour triangle, then a luminance range below peak and reference white, then the
  mastering metadata. The sRGB description always validates and is not HDR.\<close>

lemma image_description_validate_exact:
  "(image_description_validate d = Inr d' \<longleftrightarrow>
      d' = d \<and> transfer_valid (transfer_function d) \<and>
      (\<forall>c p. primaries d = CustomPrimaries c \<and> p \<in> {chroma_red c, chroma_green c, chroma_blue c, chroma_white c} \<longrightarrow>
         0 \<le> chroma_x p \<and> 0 < chroma_y p \<and> chroma_x p + chroma_y p \<le> 1000000) \<and>
      luminances_valid (luminances d) \<and> (\<forall>m. mastering d = Some m \<longrightarrow> mastering_valid m)) \<and>
   image_description_validate (image_description_srgb i) = Inr (image_description_srgb i) \<and>
   \<not> image_description_is_hdr (image_description_srgb i)"
proof -
  have phys: "chromaticity_is_physical p \<longleftrightarrow> 0 \<le> chroma_x p \<and> 0 < chroma_y p \<and> chroma_x p + chroma_y p \<le> 1000000" for p
    by (auto simp: chromaticity_is_physical_def machine)
  have "image_description_validate d = Inr d' \<longleftrightarrow>
      d' = d \<and> transfer_valid (transfer_function d) \<and>
      (\<forall>c. primaries d = CustomPrimaries c \<longrightarrow> chromaticities_is_physical c) \<and>
      luminances_valid (luminances d) \<and> (\<forall>m. mastering d = Some m \<longrightarrow> mastering_valid m)"
    by (auto simp: image_description_validate_def split: color_primaries.splits option.splits)
  moreover have "(\<forall>c. primaries d = CustomPrimaries c \<longrightarrow> chromaticities_is_physical c) \<longleftrightarrow>
      (\<forall>c p. primaries d = CustomPrimaries c \<and> p \<in> {chroma_red c, chroma_green c, chroma_blue c, chroma_white c} \<longrightarrow>
         0 \<le> chroma_x p \<and> 0 < chroma_y p \<and> chroma_x p + chroma_y p \<le> 1000000)"
    by (auto simp: chromaticities_is_physical_def phys)
  moreover have "image_description_validate (image_description_srgb i) = Inr (image_description_srgb i)"
    "\<not> image_description_is_hdr (image_description_srgb i)"
    by (simp_all add: image_description_validate_def image_description_srgb_def luminances_valid_def SDR_def
        Luminances_def image_description_is_hdr_def)
  ultimately show ?thesis by blast
qed

end
