(* ===== verification/Surface_Registry.thy ===== *)
theory Surface_Registry
  imports Surface_Content
begin

text \<open>
  The protocol's surface and buffer registry, \<^verbatim>\<open>crates/tensor-protocol/src/registry.rs\<close>, and the
  explicit-sync registry of \<^verbatim>\<open>sync.rs\<close>. Wire objects are the parameter \<open>'k\<close>, commit serials
  \<open>'c\<close>, timeline points \<open>'p\<close>; the floating-point sample transform is the function parameter
  \<open>sample\<close>, which the registry only calls.

  The registry keeps, per imported buffer, the number of surfaces that currently attach it. The
  invariant says that this count is exact and that a destroyed buffer stays registered exactly as
  long as some surface attaches it; so a buffer identity is released exactly once, when the last
  attachment of a destroyed buffer goes away.
\<close>

section \<open>Model\<close>

record 'k attached_buffer =
  att_object :: 'k
  att_id :: surface_buffer_id
  att_geometry :: rect

record ('k, 'c) surface_state =
  ss_id :: surface_id
  ss_current :: "'k attached_buffer option"
  ss_revision :: content_revision
  ss_last_commit :: "'c option"
  ss_buffer_scale :: u32
  ss_transform :: surface_transform
  ss_source :: "surface_source_rect option"
  ss_layer :: surface_layer
  ss_alpha :: surface_alpha
  ss_color :: surface_color_state

text \<open>The attachment count is a \<open>usize\<close>; there are fewer surfaces than it can count.\<close>

record buffer_state =
  bs_id :: surface_buffer_id
  bs_size :: size2
  bs_attachments :: nat
  bs_destroyed :: bool

record ('k, 'c) registry =
  next_surface_id :: u64
  next_buffer_id :: u64
  surfaces :: "'k \<rightharpoonup> ('k, 'c) surface_state"
  buffers :: "'k \<rightharpoonup> buffer_state"
  view_members :: "'k \<rightharpoonup> 'k list"
  surface_roots :: "'k \<rightharpoonup> 'k"

definition registry_default :: "('k, 'c) registry" where
  "registry_default =
     \<lparr>next_surface_id = 1, next_buffer_id = 1, surfaces = Map.empty, buffers = Map.empty,
      view_members = Map.empty, surface_roots = Map.empty\<rparr>"

record 'm surface_update =
  su_changed :: bool
  su_content :: "'m surface_content option"
  su_released :: "surface_buffer_id list"

record 'm surface_tree_update =
  tu_changed :: bool
  tu_contents :: "'m surface_content list"
  tu_removed :: "surface_id list"
  tu_released :: "surface_buffer_id list"

record surface_tree_removal =
  tr_surfaces :: "surface_id list"
  tr_released :: "surface_buffer_id list"

record ('k, 'c) surface_commit =
  sc_buffer :: "'k option"
  sc_logical_size :: "size2 option"
  sc_local_offset :: "i32 \<times> i32"
  sc_commit :: 'c
  sc_buffer_scale :: u32
  sc_transform :: surface_transform
  sc_source :: "surface_source_rect option"
  sc_layer :: surface_layer
  sc_alpha :: surface_alpha
  sc_color :: surface_color_state

type_synonym 'm sampler = "size2 \<Rightarrow> u32 \<Rightarrow> surface_transform \<Rightarrow> surface_source_rect option \<Rightarrow> 'm"

text \<open>\<open>checked_add(1)?\<close>: the last identity is never handed out.\<close>

definition allocate_surface_id :: "('k, 'c) registry \<Rightarrow> u64 option \<times> ('k, 'c) registry" where
  "allocate_surface_id R =
     (let i = next_surface_id R
      in if i = U64_MAX then (None, R) else (Some i, R\<lparr>next_surface_id := i + 1\<rparr>))"

definition allocate_buffer_id :: "('k, 'c) registry \<Rightarrow> u64 option \<times> ('k, 'c) registry" where
  "allocate_buffer_id R =
     (let i = next_buffer_id R
      in if i = U64_MAX then (None, R) else (Some i, R\<lparr>next_buffer_id := i + 1\<rparr>))"

definition initial_surface :: "surface_id \<Rightarrow> ('k, 'c) surface_state" where
  "initial_surface i =
     \<lparr>ss_id = i, ss_current = None, ss_revision = 0, ss_last_commit = None, ss_buffer_scale = 1,
      ss_transform = Normal, ss_source = None, ss_layer = LayerView, ss_alpha = OPAQUE,
      ss_color = default_color_state\<rparr>"

definition register_surface :: "'k \<Rightarrow> ('k, 'c) registry \<Rightarrow> surface_id option \<times> ('k, 'c) registry" where
  "register_surface obj R =
     (case surfaces R obj of
        Some st \<Rightarrow> (Some (ss_id st), R)
      | None \<Rightarrow>
          (case allocate_surface_id R of
             (None, R') \<Rightarrow> (None, R')
           | (Some i, R') \<Rightarrow> (Some i, R'\<lparr>surfaces := (surfaces R')(obj \<mapsto> initial_surface i)\<rparr>)))"

definition register_view_root :: "'k \<Rightarrow> ('k, 'c) registry \<Rightarrow> surface_id option \<times> ('k, 'c) registry" where
  "register_view_root root R =
     (case register_surface root R of
        (None, R') \<Rightarrow> (None, R')
      | (Some i, R') \<Rightarrow>
          (Some i,
           R'\<lparr>view_members := (if view_members R' root = None
                               then (view_members R')(root \<mapsto> [root]) else view_members R'),
              surface_roots := (if surface_roots R' root = None
                               then (surface_roots R')(root \<mapsto> root) else surface_roots R')\<rparr>))"

definition register_imported_buffer ::
  "'k \<Rightarrow> surface_buffer_id \<Rightarrow> size2 \<Rightarrow> ('k, 'c) registry \<Rightarrow> bool \<times> ('k, 'c) registry"
where
  "register_imported_buffer obj i sz R =
     (case buffers R obj of
        Some st \<Rightarrow> (\<not> bs_destroyed st \<and> bs_id st = i \<and> bs_size st = sz, R)
      | None \<Rightarrow>
          (True, R\<lparr>buffers := (buffers R)(obj \<mapsto>
             \<lparr>bs_id = i, bs_size = sz, bs_attachments = 0, bs_destroyed = False\<rparr>)\<rparr>))"

definition imported_buffer :: "'k \<Rightarrow> ('k, 'c) registry \<Rightarrow> (surface_buffer_id \<times> size2) option" where
  "imported_buffer obj R =
     (case buffers R obj of
        None \<Rightarrow> None
      | Some st \<Rightarrow> if \<not> bs_destroyed st then Some (bs_id st, bs_size st) else None)"

definition collect_destroyed :: "'k \<Rightarrow> ('k, 'c) registry \<Rightarrow> surface_buffer_id option \<times> ('k, 'c) registry" where
  "collect_destroyed obj R =
     (case buffers R obj of
        Some rec \<Rightarrow>
          if bs_destroyed rec \<and> bs_attachments rec = 0
          then (Some (bs_id rec), R\<lparr>buffers := (buffers R)(obj := None)\<rparr>)
          else (None, R)
      | None \<Rightarrow> (None, R))"

definition detach_buffer :: "'k \<Rightarrow> ('k, 'c) registry \<Rightarrow> surface_buffer_id list \<times> ('k, 'c) registry" where
  "detach_buffer obj R =
     (let R1 = (case buffers R obj of
                  None \<Rightarrow> R
                | Some rec \<Rightarrow> R\<lparr>buffers := (buffers R)(obj \<mapsto> rec\<lparr>bs_attachments := bs_attachments rec - 1\<rparr>)\<rparr>)
      in case collect_destroyed obj R1 of
           (Some i, R2) \<Rightarrow> ([i], R2)
         | (None, R2) \<Rightarrow> ([], R2))"

text \<open>The buffer a commit attaches, given the object attached before.\<close>

definition next_attachment ::
  "('k, 'c) registry \<Rightarrow> 'k option \<Rightarrow> ('k, 'c) surface_commit \<Rightarrow> 'k attached_buffer option"
where
  "next_attachment R current_object snap =
     (case sc_buffer snap of
        None \<Rightarrow> None
      | Some obj \<Rightarrow>
          (case buffers R obj of
             None \<Rightarrow> None
           | Some rec \<Rightarrow>
               if bs_destroyed rec \<and> current_object \<noteq> Some obj then None
               else let sz = (case sc_logical_size snap of
                                Some s \<Rightarrow> if size_width s > 0 \<and> size_height s > 0 then s else bs_size rec
                              | None \<Rightarrow> bs_size rec)
                    in Some \<lparr>att_object = obj, att_id = bs_id rec,
                             att_geometry = Rect (fst (sc_local_offset snap)) (snd (sc_local_offset snap))
                                              (size_width sz) (size_height sz)\<rparr>))"

definition commit_changed ::
  "('k, 'c) surface_state \<Rightarrow> 'k attached_buffer option \<Rightarrow> ('k, 'c) surface_commit \<Rightarrow> bool"
where
  "commit_changed st new snap \<longleftrightarrow>
     map_option att_id (ss_current st) \<noteq> map_option att_id new \<or>
     (case (ss_current st, new) of
        (Some a, Some b) \<Rightarrow> att_geometry a \<noteq> att_geometry b | _ \<Rightarrow> False) \<or>
     ss_last_commit st \<noteq> Some (sc_commit snap) \<or>
     ss_buffer_scale st \<noteq> max (sc_buffer_scale snap) 1 \<or>
     ss_transform st \<noteq> sc_transform snap \<or> ss_source st \<noteq> sc_source snap \<or>
     ss_layer st \<noteq> sc_layer snap \<or> ss_alpha st \<noteq> sc_alpha snap \<or> ss_color st \<noteq> sc_color snap"

text \<open>The renderable content of a surface state, shared by \<open>update_surface\<close> and \<open>current_content\<close>.\<close>

definition content_of ::
  "'m sampler \<Rightarrow> ('k \<rightharpoonup> buffer_state) \<Rightarrow> ('k, 'c) surface_state \<Rightarrow> 'm surface_content option"
where
  "content_of sample bufs st =
     map_option (\<lambda>a.
       let sz = (case bufs (att_object a) of Some rec \<Rightarrow> bs_size rec | None \<Rightarrow> rect_size (att_geometry a))
       in \<lparr>content_surface = ss_id st, content_buffer = att_id a, content_revision = ss_revision st,
           content_layer = ss_layer st, content_alpha = ss_alpha st, content_color = ss_color st,
           local_geometry = att_geometry a,
           sample_transform = sample sz (ss_buffer_scale st) (ss_transform st) (ss_source st)\<rparr>)
       (ss_current st)"

definition update_surface ::
  "'m sampler \<Rightarrow> 'k \<Rightarrow> ('k, 'c) surface_commit \<Rightarrow> ('k, 'c) registry \<Rightarrow> 'm surface_update \<times> ('k, 'c) registry"
where
  "update_surface sample s snap R =
     (case surfaces R s of
        None \<Rightarrow> (\<lparr>su_changed = False, su_content = None, su_released = []\<rparr>, R)
      | Some st \<Rightarrow>
          (let R0 = R\<lparr>surfaces := (surfaces R)(s := None)\<rparr>;
               new = next_attachment R0 (map_option att_object (ss_current st)) snap;
               changed = commit_changed st new snap;
               (released, R2, current) =
                 (if map_option att_object (ss_current st) \<noteq> map_option att_object new
                  then let (rel, R1) = (case ss_current st of
                                          Some prev \<Rightarrow> detach_buffer (att_object prev) R0
                                        | None \<Rightarrow> ([], R0));
                           R1' = (case new of
                                    None \<Rightarrow> R1
                                  | Some a \<Rightarrow>
                                      (case buffers R1 (att_object a) of
                                         None \<Rightarrow> R1
                                       | Some rec \<Rightarrow>
                                           R1\<lparr>buffers := (buffers R1)(att_object a \<mapsto>
                                             rec\<lparr>bs_attachments := bs_attachments rec + 1\<rparr>)\<rparr>))
                       in (rel, R1', None)
                  else ([], R0, ss_current st));
               st' = st\<lparr>ss_revision := (if changed then revision_next (ss_revision st) else ss_revision st),
                        ss_current := (if changed then new else current),
                        ss_last_commit := Some (sc_commit snap), ss_buffer_scale := max (sc_buffer_scale snap) 1,
                        ss_transform := sc_transform snap, ss_source := sc_source snap,
                        ss_layer := sc_layer snap, ss_alpha := sc_alpha snap, ss_color := sc_color snap\<rparr>
           in (\<lparr>su_changed = changed, su_content = content_of sample (buffers R2) st', su_released = released\<rparr>,
               R2\<lparr>surfaces := (surfaces R2)(s \<mapsto> st')\<rparr>)))"

definition current_content :: "'m sampler \<Rightarrow> 'k \<Rightarrow> ('k, 'c) registry \<Rightarrow> 'm surface_content option" where
  "current_content sample s R =
     (case surfaces R s of None \<Rightarrow> None | Some st \<Rightarrow> content_of sample (buffers R) st)"

definition view_tree_contents :: "'m sampler \<Rightarrow> 'k \<Rightarrow> ('k, 'c) registry \<Rightarrow> 'm surface_content list" where
  "view_tree_contents sample root R =
     (case view_members R root of
        None \<Rightarrow> [] | Some ms \<Rightarrow> List.map_filter (\<lambda>s. current_content sample s R) ms)"

definition remove_surface :: "'k \<Rightarrow> ('k, 'c) registry \<Rightarrow> surface_buffer_id list \<times> ('k, 'c) registry" where
  "remove_surface s R =
     (case surfaces R s of
        None \<Rightarrow> ([], R)
      | Some st \<Rightarrow>
          (let R' = R\<lparr>surfaces := (surfaces R)(s := None),
                      surface_roots := (surface_roots R)(s := None),
                      view_members := (\<lambda>r. map_option (filter (\<lambda>m. m \<noteq> s)) (view_members R r))\<rparr>
           in case ss_current st of
                Some a \<Rightarrow> detach_buffer (att_object a) R'
              | None \<Rightarrow> ([], R')))"

definition buffer_destroyed :: "'k \<Rightarrow> ('k, 'c) registry \<Rightarrow> surface_buffer_id list \<times> ('k, 'c) registry" where
  "buffer_destroyed obj R =
     (case buffers R obj of
        None \<Rightarrow> ([], R)
      | Some rec \<Rightarrow>
          (case collect_destroyed obj (R\<lparr>buffers := (buffers R)(obj \<mapsto> rec\<lparr>bs_destroyed := True\<rparr>)\<rparr>) of
             (Some i, R') \<Rightarrow> ([i], R')
           | (None, R') \<Rightarrow> ([], R')))"

section \<open>View trees\<close>

text \<open>The first commit of each surface.\<close>

fun dedup_commits :: "'k set \<Rightarrow> ('k \<times> 'd) list \<Rightarrow> ('k \<times> 'd) list" where
  "dedup_commits seen [] = []"
| "dedup_commits seen ((s, c) # cs) =
     (if s \<in> seen then dedup_commits seen cs else (s, c) # dedup_commits (insert s seen) cs)"

fun remove_surfaces :: "'k list \<Rightarrow> ('k, 'c) registry \<Rightarrow> ('k, 'c) registry" where
  "remove_surfaces [] R = R"
| "remove_surfaces (s # ss) R = remove_surfaces ss (snd (remove_surface s R))"

fun register_members :: "'k list \<Rightarrow> 'k list \<Rightarrow> ('k, 'c) registry \<Rightarrow> bool \<times> ('k, 'c) registry" where
  "register_members [] newly R = (True, R)"
| "register_members (s # ss) newly R =
     (if surfaces R s \<noteq> None then register_members ss newly R
      else case register_surface s R of
             (None, R') \<Rightarrow> (False, remove_surfaces newly R')
           | (Some _, R') \<Rightarrow> register_members ss (newly @ [s]) R')"

fun drop_previous ::
  "'k set \<Rightarrow> 'k list \<Rightarrow> ('k, 'c) registry \<Rightarrow> surface_id list \<times> surface_buffer_id list \<times> ('k, 'c) registry"
where
  "drop_previous current [] R = ([], [], R)"
| "drop_previous current (s # ss) R =
     (if s \<in> current then drop_previous current ss R
      else let gone = (case surfaces R s of None \<Rightarrow> [] | Some st \<Rightarrow> [ss_id st]);
               (rel, R1) = remove_surface s R;
               (gone', rel', R2) = drop_previous current ss R1
           in (gone @ gone', rel @ rel', R2))"

fun apply_commits ::
  "'m sampler \<Rightarrow> ('k \<times> ('k, 'c) surface_commit) list \<Rightarrow> ('k, 'c) registry \<Rightarrow>
   bool \<times> surface_buffer_id list \<times> 'm surface_content list \<times> ('k, 'c) registry"
where
  "apply_commits sample [] R = (False, [], [], R)"
| "apply_commits sample ((s, snap) # cs) R =
     (let (u, R1) = update_surface sample s snap R;
          (ch, rel, contents, R2) = apply_commits sample cs R1
      in (su_changed u \<or> ch, su_released u @ rel,
          (case su_content u of None \<Rightarrow> contents | Some c \<Rightarrow> c # contents), R2))"

definition set_roots :: "'k \<Rightarrow> 'k list \<Rightarrow> ('k, 'c) registry \<Rightarrow> ('k, 'c) registry" where
  "set_roots root ms R =
     R\<lparr>surface_roots := (\<lambda>s. if s \<in> set ms then Some root else surface_roots R s)\<rparr>"

definition update_view_tree ::
  "'m sampler \<Rightarrow> 'k \<Rightarrow> ('k \<times> ('k, 'c) surface_commit) list \<Rightarrow> ('k, 'c) registry \<Rightarrow>
   'm surface_tree_update option \<times> ('k, 'c) registry"
where
  "update_view_tree sample root commits0 R =
     (let commits = dedup_commits {} commits0; members = map fst commits
      in case register_members members [] R of
           (False, R1) \<Rightarrow> (None, R1)
         | (True, R1) \<Rightarrow>
             (let previous = (case view_members R1 root of None \<Rightarrow> [] | Some ms \<Rightarrow> ms);
                  R2 = R1\<lparr>view_members := (view_members R1)(root \<mapsto> members)\<rparr>;
                  (gone, rel, R3) = drop_previous (set members) previous R2;
                  R4 = set_roots root members R3;
                  (ch, rel', contents, R5) = apply_commits sample commits R4
              in (Some \<lparr>tu_changed = (previous \<noteq> members \<or> ch), tu_contents = contents, tu_removed = gone,
                        tu_released = rel @ rel'\<rparr>, R5)))"

fun remove_members :: "'k set \<Rightarrow> 'k list \<Rightarrow> ('k, 'c) registry \<Rightarrow> surface_id list \<times> surface_buffer_id list \<times> ('k, 'c) registry" where
  "remove_members seen [] R = ([], [], R)"
| "remove_members seen (s # ss) R =
     (if s \<in> seen then remove_members seen ss R
      else let gone = (case surfaces R s of None \<Rightarrow> [] | Some st \<Rightarrow> [ss_id st]);
               (rel, R1) = remove_surface s R;
               (gone', rel', R2) = remove_members (insert s seen) ss R1
           in (gone @ gone', rel @ rel', R2))"

definition remove_view_tree :: "'k \<Rightarrow> ('k, 'c) registry \<Rightarrow> surface_tree_removal \<times> ('k, 'c) registry" where
  "remove_view_tree root R =
     (let members = (case view_members R root of None \<Rightarrow> [root] | Some ms \<Rightarrow> ms);
          R1 = R\<lparr>view_members := (view_members R)(root := None)\<rparr>;
          (gone, rel, R2) = remove_members {} members R1
      in (\<lparr>tr_surfaces = gone, tr_released = rel\<rparr>, R2))"

section \<open>Attachments\<close>

text \<open>What each surface currently attaches: the object and the identity it had when attached.\<close>

type_synonym 'k attachments = "'k \<rightharpoonup> 'k \<times> surface_buffer_id"

definition attachment_of :: "('k, 'c) surface_state \<Rightarrow> ('k \<times> surface_buffer_id) option" where
  "attachment_of st = map_option (\<lambda>a. (att_object a, att_id a)) (ss_current st)"

definition attachments_of :: "('k \<rightharpoonup> ('k, 'c) surface_state) \<Rightarrow> 'k attachments" where
  "attachments_of S s = Option.bind (S s) attachment_of"

text \<open>The surfaces that attach a buffer.\<close>

definition users :: "'k attachments \<Rightarrow> 'k \<Rightarrow> 'k set" where
  "users A k = {s. \<exists>i. A s = Some (k, i)}"

text \<open>The count of every buffer is exact, a destroyed buffer is still attached, every attachment has its
  buffer, and identities are unique.\<close>

definition buffers_ok :: "'k attachments \<Rightarrow> ('k \<rightharpoonup> buffer_state) \<Rightarrow> bool" where
  "buffers_ok A B \<longleftrightarrow>
     finite (dom A) \<and>
     (\<forall>k rec. B k = Some rec \<longrightarrow> bs_attachments rec = card (users A k)) \<and>
     (\<forall>k rec. B k = Some rec \<longrightarrow> bs_destroyed rec \<longrightarrow> users A k \<noteq> {}) \<and>
     (\<forall>s k i. A s = Some (k, i) \<longrightarrow> (\<exists>rec. B k = Some rec \<and> bs_id rec = i)) \<and>
     (\<forall>j k r r'. B j = Some r \<longrightarrow> B k = Some r' \<longrightarrow> bs_id r = bs_id r' \<longrightarrow> j = k)"

lemma buffers_okI:
  assumes "finite (dom A)"
    and "\<And>k rec. B k = Some rec \<Longrightarrow> bs_attachments rec = card (users A k)"
    and "\<And>k rec. B k = Some rec \<Longrightarrow> bs_destroyed rec \<Longrightarrow> users A k \<noteq> {}"
    and "\<And>s k i. A s = Some (k, i) \<Longrightarrow> \<exists>rec. B k = Some rec \<and> bs_id rec = i"
    and "\<And>j k r r'. B j = Some r \<Longrightarrow> B k = Some r' \<Longrightarrow> bs_id r = bs_id r' \<Longrightarrow> j = k"
  shows "buffers_ok A B"
  using assms unfolding buffers_ok_def by blast

lemma buffers_okD:
  assumes "buffers_ok A B"
  shows "finite (dom A)"
    and "B k = Some rec \<Longrightarrow> bs_attachments rec = card (users A k)"
    and "B k = Some rec \<Longrightarrow> bs_destroyed rec \<Longrightarrow> users A k \<noteq> {}"
    and "A s = Some (k, i) \<Longrightarrow> \<exists>rec. B k = Some rec \<and> bs_id rec = i"
    and "B j = Some r \<Longrightarrow> B k = Some r' \<Longrightarrow> bs_id r = bs_id r' \<Longrightarrow> j = k"
  using assms unfolding buffers_ok_def by blast+

lemma users_finite: "buffers_ok A B \<Longrightarrow> finite (users A k)"
  by (rule finite_subset[OF _ buffers_okD(1)]) (auto simp: users_def)

lemma users_upd_None: "users (A(s := None)) k = users A k - {s}"
  by (auto simp: users_def)

lemma attachments_of_upd [simp]:
  "attachments_of (S(s := None)) = (attachments_of S)(s := None)"
  "attachments_of (S(s \<mapsto> st)) = (attachments_of S)(s := attachment_of st)"
  by (simp_all add: attachments_of_def fun_eq_iff)

text \<open>The effect of \<open>detach_buffer\<close> on the buffers alone.\<close>

definition detached :: "'k \<Rightarrow> ('k \<rightharpoonup> buffer_state) \<Rightarrow> surface_buffer_id list \<times> ('k \<rightharpoonup> buffer_state)" where
  "detached k B =
     (case B k of
        None \<Rightarrow> ([], B)
      | Some rec \<Rightarrow>
          if bs_destroyed rec \<and> bs_attachments rec \<le> 1 then ([bs_id rec], B(k := None))
          else ([], B(k \<mapsto> rec\<lparr>bs_attachments := bs_attachments rec - 1\<rparr>)))"

lemma detach_buffer_eq:
  "detach_buffer k R = (fst (detached k (buffers R)), R\<lparr>buffers := snd (detached k (buffers R))\<rparr>)"
  by (auto simp: detach_buffer_def detached_def collect_destroyed_def Let_def split: option.splits)

lemma buffers_ok_detach:
  assumes ok: "buffers_ok A B" and A: "A s = Some (k, i)"
  shows "buffers_ok (A(s := None)) (snd (detached k B))"
proof -
  obtain rec where rec: "B k = Some rec" "bs_id rec = i" using buffers_okD(4)[OF ok A] by blast
  have s: "s \<in> users A k" using A by (auto simp: users_def)
  have fin: "finite (users A k)" by (rule users_finite[OF ok])
  have other: "users A j - {s} = users A j" if "j \<noteq> k" for j using that A by (auto simp: users_def)
  have cnt: "bs_attachments rec = card (users A k)" "card (users A k - {s}) = card (users A k) - 1"
    using buffers_okD(2)[OF ok rec(1)] s fin by simp_all
  define B' where "B' = snd (detached k B)"
  have B'_other: "B' j = B j" if "j \<noteq> k" for j using that rec by (simp add: B'_def detached_def)
  have B'_k: "B' k = Some r \<Longrightarrow> r = rec\<lparr>bs_attachments := bs_attachments rec - 1\<rparr> \<and>
      \<not> (bs_destroyed rec \<and> bs_attachments rec \<le> 1)" for r
    using rec by (simp add: B'_def detached_def split: if_splits)
  have gone: "B' k = None \<Longrightarrow> users A k = {s}"
  proof -
    assume "B' k = None"
    then have "card (users A k) \<le> 1" using rec cnt by (simp add: B'_def detached_def split: if_splits)
    then show "users A k = {s}" using s fin by (metis Diff_eq_empty_iff One_nat_def card_0_eq cnt(2) diff_is_0_eq' finite_Diff insert_Diff)
  qed
  show ?thesis unfolding B'_def[symmetric]
  proof (rule buffers_okI)
    show "finite (dom (A(s := None)))" using buffers_okD(1)[OF ok] by simp
    show "bs_attachments r = card (users (A(s := None)) j)" if "B' j = Some r" for j r
      using that B'_k B'_other other cnt buffers_okD(2)[OF ok, of j] by (cases "j = k") (auto simp: users_upd_None)
    show "users (A(s := None)) j \<noteq> {}" if "B' j = Some r" "bs_destroyed r" for j r
    proof (cases "j = k")
      case True
      then have "bs_destroyed rec" "1 < card (users A k)" using that B'_k[of r] cnt(1) by auto
      then have "card (users A k - {s}) \<noteq> 0" using cnt(2) by simp
      then have "users A k - {s} \<noteq> {}" by force
      then show ?thesis unfolding users_upd_None True .
    next
      case False
      then show ?thesis using that B'_other other buffers_okD(3)[OF ok, of j r] by (simp add: users_upd_None)
    qed
    show "\<exists>r. B' j = Some r \<and> bs_id r = i'" if "(A(s := None)) s' = Some (j, i')" for s' j i'
    proof -
      have s': "s' \<noteq> s" "A s' = Some (j, i')" using that by (auto split: if_splits)
      obtain r where r: "B j = Some r" "bs_id r = i'" using buffers_okD(4)[OF ok s'(2)] by blast
      show ?thesis
      proof (cases "j = k")
        case True
        then have "B' k \<noteq> None" using gone s' by (auto simp: users_def)
        then obtain r' where "B' k = Some r'" by blast
        then show ?thesis using B'_k[of r'] r rec True by simp
      next
        case False
        then show ?thesis using r B'_other by simp
      qed
    qed
    have ids: "\<exists>r0. B j = Some r0 \<and> bs_id r0 = bs_id r" if "B' j = Some r" for j r
      using that B'_k[of r] B'_other[of j] rec by (cases "j = k") auto
    show "j = j'" if "B' j = Some r" "B' j' = Some r'" "bs_id r = bs_id r'" for j j' r r'
      using ids[OF that(1)] ids[OF that(2)] that(3) buffers_okD(5)[OF ok] by metis
  qed
qed

lemma buffers_ok_attach:
  assumes ok: "buffers_ok A B" and "A s = None" "B k = Some rec"
  shows "buffers_ok (A(s \<mapsto> (k, bs_id rec))) (B(k \<mapsto> rec\<lparr>bs_attachments := bs_attachments rec + 1\<rparr>))"
proof -
  have s: "s \<notin> users A j" for j using assms(2) by (auto simp: users_def)
  have u: "users (A(s \<mapsto> (k, bs_id rec))) j = (if j = k then insert s (users A j) else users A j)" for j
    using s[of j] by (auto simp: users_def)
  have card: "card (insert s (users A k)) = Suc (card (users A k))" using s users_finite[OF ok] by simp
  show ?thesis
  proof (rule buffers_okI)
    show "finite (dom (A(s \<mapsto> (k, bs_id rec))))" using buffers_okD(1)[OF ok] by simp
    show "\<exists>r. (B(k \<mapsto> rec\<lparr>bs_attachments := bs_attachments rec + 1\<rparr>)) j = Some r \<and> bs_id r = i"
      if "(A(s \<mapsto> (k, bs_id rec))) s' = Some (j, i)" for s' j i
      using that buffers_okD(4)[OF ok, of s' j i] assms(3) by (auto split: if_splits)
  qed (use buffers_okD[OF ok] card u assms(3) in \<open>auto split: if_splits\<close>)
qed

lemma buffers_ok_register:
  assumes ok: "buffers_ok A B" and "B k = None" "\<And>j r. B j = Some r \<Longrightarrow> bs_id r \<noteq> i"
  shows "buffers_ok A (B(k \<mapsto> \<lparr>bs_id = i, bs_size = sz, bs_attachments = 0, bs_destroyed = False\<rparr>))"
proof -
  have none: "A s \<noteq> Some (k, j)" for s j using buffers_okD(4)[OF ok, of s k j] assms(2) by auto
  then have u: "users A k = {}" by (simp add: users_def)
  show ?thesis
  proof (rule buffers_okI)
    show "finite (dom A)" by (rule buffers_okD(1)[OF ok])
    show "\<exists>r. (B(k \<mapsto> \<lparr>bs_id = i, bs_size = sz, bs_attachments = 0, bs_destroyed = False\<rparr>)) j = Some r \<and> bs_id r = i'"
      if "A s = Some (j, i')" for s j i'
      using that none[of s i'] buffers_okD(4)[OF ok that] by auto
    show "j = j'" if "(B(k \<mapsto> \<lparr>bs_id = i, bs_size = sz, bs_attachments = 0, bs_destroyed = False\<rparr>)) j = Some r"
      "(B(k \<mapsto> \<lparr>bs_id = i, bs_size = sz, bs_attachments = 0, bs_destroyed = False\<rparr>)) j' = Some r'"
      "bs_id r = bs_id r'" for j j' r r'
      using that assms(3)[of j r] assms(3)[of j' r'] buffers_okD(5)[OF ok, of j r j' r'] by (auto split: if_splits)
  qed (use buffers_okD[OF ok] u in \<open>auto split: if_splits\<close>)
qed

section \<open>Releases\<close>

text \<open>No buffer appears, identities and sizes stay, and the released identities are exactly those of the
  buffers that disappear, each once.\<close>

definition releases :: "('k \<rightharpoonup> buffer_state) \<Rightarrow> surface_buffer_id list \<Rightarrow> ('k \<rightharpoonup> buffer_state) \<Rightarrow> bool" where
  "releases B rel B' \<longleftrightarrow>
     (\<forall>k r'. B' k = Some r' \<longrightarrow> (\<exists>r. B k = Some r \<and> bs_id r = bs_id r' \<and> bs_size r = bs_size r')) \<and>
     distinct rel \<and> (\<forall>i. i \<in> set rel \<longleftrightarrow> (\<exists>k r. B k = Some r \<and> bs_id r = i \<and> B' k = None))"

lemma releases_refl [simp]: "releases B [] B"
  by (auto simp: releases_def)

lemma releases_trans:
  assumes 1: "releases B rel B1" and 2: "releases B1 rel' B2"
    and inj: "\<And>j k r r'. B j = Some r \<Longrightarrow> B k = Some r' \<Longrightarrow> bs_id r = bs_id r' \<Longrightarrow> j = k"
  shows "releases B (rel @ rel') B2"
proof -
  have keep1: "\<exists>r. B k = Some r \<and> bs_id r = bs_id r' \<and> bs_size r = bs_size r'" if "B1 k = Some r'" for k r'
    using 1 that by (auto simp: releases_def)
  have keep2: "\<exists>r. B1 k = Some r \<and> bs_id r = bs_id r' \<and> bs_size r = bs_size r'" if "B2 k = Some r'" for k r'
    using 2 that by (auto simp: releases_def)
  have rel1: "i \<in> set rel \<longleftrightarrow> (\<exists>k r. B k = Some r \<and> bs_id r = i \<and> B1 k = None)" for i
    using 1 by (simp add: releases_def)
  have rel2: "i \<in> set rel' \<longleftrightarrow> (\<exists>k r. B1 k = Some r \<and> bs_id r = i \<and> B2 k = None)" for i
    using 2 by (simp add: releases_def)
  have disj: "set rel \<inter> set rel' = {}"
  proof (rule ccontr)
    assume "set rel \<inter> set rel' \<noteq> {}"
    then obtain i where i: "i \<in> set rel" "i \<in> set rel'" by blast
    obtain k r where k: "B k = Some r" "bs_id r = i" "B1 k = None" using i(1) rel1 by blast
    obtain j r' where j: "B1 j = Some r'" "bs_id r' = i" using i(2) rel2 by blast
    obtain r0 where "B j = Some r0" "bs_id r0 = i" using keep1[OF j(1)] j(2) by auto
    then have "j = k" using inj k by metis
    then show False using k(3) j(1) by simp
  qed
  have mem: "i \<in> set (rel @ rel') \<longleftrightarrow> (\<exists>k r. B k = Some r \<and> bs_id r = i \<and> B2 k = None)" for i
  proof
    assume "i \<in> set (rel @ rel')"
    then consider "i \<in> set rel" | "i \<in> set rel'" by auto
    then show "\<exists>k r. B k = Some r \<and> bs_id r = i \<and> B2 k = None"
    proof cases
      case 1
      then obtain k r where "B k = Some r" "bs_id r = i" "B1 k = None" using rel1 by blast
      moreover then have "B2 k = None" using keep2[of k] by (cases "B2 k") auto
      ultimately show ?thesis by blast
    next
      case 2
      then obtain k r where "B1 k = Some r" "bs_id r = i" "B2 k = None" using rel2 by blast
      then show ?thesis using keep1[of k r] by auto
    qed
  next
    assume "\<exists>k r. B k = Some r \<and> bs_id r = i \<and> B2 k = None"
    then obtain k r where k: "B k = Some r" "bs_id r = i" "B2 k = None" by blast
    show "i \<in> set (rel @ rel')"
    proof (cases "B1 k")
      case None
      then show ?thesis using rel1 k by auto
    next
      case (Some r1)
      then have "bs_id r1 = i" using keep1[OF Some] k by auto
      then show ?thesis using rel2 Some k(3) by auto
    qed
  qed
  have "\<exists>r. B k = Some r \<and> bs_id r = bs_id r' \<and> bs_size r = bs_size r'" if "B2 k = Some r'" for k r'
    using keep2[OF that] keep1 by metis
  moreover have "distinct (rel @ rel')" using 1 2 disj by (simp add: releases_def)
  ultimately show ?thesis unfolding releases_def using mem by blast
qed

lemma releases_detached: "releases B (fst (detached k B)) (snd (detached k B))"
  by (auto simp: releases_def detached_def split: option.splits if_splits)

lemma releases_attach:
  "B k = Some rec \<Longrightarrow> releases B [] (B(k \<mapsto> rec\<lparr>bs_attachments := n\<rparr>))"
  by (auto simp: releases_def)

lemma releases_destroyed:
  "B k = Some rec \<Longrightarrow> releases B [] (B(k \<mapsto> rec\<lparr>bs_destroyed := True\<rparr>))"
  by (auto simp: releases_def)

section \<open>The registry invariant\<close>

definition registry_ok :: "('k, 'c) registry \<Rightarrow> bool" where
  "registry_ok R \<longleftrightarrow> buffers_ok (attachments_of (surfaces R)) (buffers R) \<and>
     (\<forall>k r. buffers R k = Some r \<longrightarrow> bs_id r < next_buffer_id R) \<and>
     (\<forall>s st. surfaces R s = Some st \<longrightarrow> ss_id st < next_surface_id R) \<and>
     (\<forall>s s' st st'. surfaces R s = Some st \<longrightarrow> surfaces R s' = Some st' \<longrightarrow> ss_id st = ss_id st' \<longrightarrow> s = s')"

text \<open>A step of the registry that keeps the invariant and releases exactly these buffers.\<close>

definition sound_step :: "('k, 'c) registry \<Rightarrow> surface_buffer_id list \<Rightarrow> ('k, 'c) registry \<Rightarrow> bool" where
  "sound_step R rel R' \<longleftrightarrow>
     (registry_ok R \<longrightarrow> registry_ok R' \<and> releases (buffers R) rel (buffers R') \<and>
        next_buffer_id R' = next_buffer_id R)"

lemma registry_okD:
  assumes "registry_ok R"
  shows "buffers_ok (attachments_of (surfaces R)) (buffers R)"
    and "buffers R j = Some r \<Longrightarrow> buffers R k = Some r' \<Longrightarrow> bs_id r = bs_id r' \<Longrightarrow> j = k"
  using assms by (auto simp: registry_ok_def dest: buffers_okD(5))

lemma sound_step_refl [simp]: "sound_step R [] R"
  by (simp add: sound_step_def)

lemma sound_step_trans: "sound_step R rel R1 \<Longrightarrow> sound_step R1 rel' R2 \<Longrightarrow> sound_step R (rel @ rel') R2"
  unfolding sound_step_def by (auto intro: releases_trans registry_okD(2))

lemma sound_step_frame:
  "surfaces R' = surfaces R \<Longrightarrow> buffers R' = buffers R \<Longrightarrow> next_buffer_id R' = next_buffer_id R \<Longrightarrow>
   next_surface_id R' = next_surface_id R \<Longrightarrow> sound_step R [] R'"
  by (simp add: sound_step_def registry_ok_def)

lemma registry_ok_releases:
  assumes "registry_ok R" "releases (buffers R) rel B'"
    and "buffers_ok (attachments_of S') B'"
    and "\<And>s st. S' s = Some st \<Longrightarrow> \<exists>st0. surfaces R s = Some st0 \<and> ss_id st = ss_id st0"
    and "surfaces R' = S'" "buffers R' = B'" "next_buffer_id R' = next_buffer_id R" "next_surface_id R' = next_surface_id R"
  shows "registry_ok R'"
proof -
  have "bs_id r < next_buffer_id R" if k: "B' k = Some r" for k r
  proof -
    obtain r0 where "buffers R k = Some r0" "bs_id r0 = bs_id r" using assms(2) k unfolding releases_def by blast
    then show ?thesis using assms(1) unfolding registry_ok_def by metis
  qed
  moreover have "ss_id st < next_surface_id R" if "S' s = Some st" for s st
    using assms(1) assms(4)[OF that] by (auto simp: registry_ok_def)
  moreover have "s = s'" if "S' s = Some st" "S' s' = Some st'" "ss_id st = ss_id st'" for s s' st st'
    using assms(1) assms(4)[OF that(1)] assms(4)[OF that(2)] that(3) unfolding registry_ok_def by metis
  ultimately show ?thesis using assms(3,5-8) by (auto simp: registry_ok_def)
qed

lemma remove_surface_sound: "sound_step R (fst (remove_surface s R)) (snd (remove_surface s R))"
proof (cases "surfaces R s")
  case None
  then show ?thesis by (simp add: remove_surface_def)
next
  case (Some st)
  show ?thesis unfolding sound_step_def
  proof (intro impI)
    assume ok: "registry_ok R"
    note bok = registry_okD(1)[OF ok]
    show "registry_ok (snd (remove_surface s R)) \<and>
        releases (buffers R) (fst (remove_surface s R)) (buffers (snd (remove_surface s R))) \<and>
        next_buffer_id (snd (remove_surface s R)) = next_buffer_id R"
    proof (cases "ss_current st")
      case None
      then have A: "attachments_of (surfaces R) s = None" using Some by (simp add: attachments_of_def attachment_of_def)
      then have b: "buffers_ok (attachments_of ((surfaces R)(s := None))) (buffers R)"
        using bok by (simp add: fun_upd_idem)
      have rm: "fst (remove_surface s R) = []" "surfaces (snd (remove_surface s R)) = (surfaces R)(s := None)"
        "buffers (snd (remove_surface s R)) = buffers R" "next_buffer_id (snd (remove_surface s R)) = next_buffer_id R"
        "next_surface_id (snd (remove_surface s R)) = next_surface_id R"
        using Some None by (simp_all add: remove_surface_def Let_def)
      have "registry_ok (snd (remove_surface s R))"
        by (rule registry_ok_releases[OF ok releases_refl b _ rm(2,3,4,5)]) (simp split: if_splits)
      then show ?thesis using rm by simp
    next
      case (Some a)
      define k where "k = att_object a"
      have A: "attachments_of (surfaces R) s = Some (k, att_id a)"
        using \<open>surfaces R s = Some st\<close> Some by (simp add: attachments_of_def attachment_of_def k_def)
      note rel = releases_detached[of "buffers R" k]
      have rm: "fst (remove_surface s R) = fst (detached k (buffers R))"
        "surfaces (snd (remove_surface s R)) = (surfaces R)(s := None)"
        "buffers (snd (remove_surface s R)) = snd (detached k (buffers R))"
        "next_buffer_id (snd (remove_surface s R)) = next_buffer_id R"
        "next_surface_id (snd (remove_surface s R)) = next_surface_id R"
        using \<open>surfaces R s = Some st\<close> Some by (simp_all add: remove_surface_def Let_def detach_buffer_eq k_def)
      have b: "buffers_ok (attachments_of ((surfaces R)(s := None))) (snd (detached k (buffers R)))"
        using buffers_ok_detach[OF bok A] by simp
      have "registry_ok (snd (remove_surface s R))"
        by (rule registry_ok_releases[OF ok rel b _ rm(2,3,4,5)]) (simp split: if_splits)
      then show ?thesis using rm rel by simp
    qed
  qed
qed

lemma next_attachment_Some:
  assumes "next_attachment R cur snap = Some a"
  shows "\<exists>rec. buffers R (att_object a) = Some rec \<and> att_id a = bs_id rec \<and>
    (bs_destroyed rec \<longrightarrow> cur = Some (att_object a))"
  using assms by (auto simp: next_attachment_def Let_def split: option.splits if_splits)

text \<open>The buffers after the attachment of a commit is exchanged.\<close>

definition exchanged ::
  "'k option \<Rightarrow> 'k option \<Rightarrow> ('k \<rightharpoonup> buffer_state) \<Rightarrow> surface_buffer_id list \<times> ('k \<rightharpoonup> buffer_state)"
where
  "exchanged old new B =
     (if old = new then ([], B)
      else let (rel, B1) = (case old of Some k \<Rightarrow> detached k B | None \<Rightarrow> ([], B))
           in (rel, case new of
                      None \<Rightarrow> B1
                    | Some k \<Rightarrow> (case B1 k of
                                   None \<Rightarrow> B1
                                 | Some rec \<Rightarrow> B1(k \<mapsto> rec\<lparr>bs_attachments := bs_attachments rec + 1\<rparr>))))"

definition committed ::
  "('k, 'c) surface_state \<Rightarrow> 'k attached_buffer option \<Rightarrow> ('k, 'c) surface_commit \<Rightarrow> ('k, 'c) surface_state"
where
  "committed st new snap =
     st\<lparr>ss_revision := (if commit_changed st new snap then revision_next (ss_revision st) else ss_revision st),
        ss_current := (if commit_changed st new snap then new
                       else if map_option att_object (ss_current st) \<noteq> map_option att_object new then None
                       else ss_current st),
        ss_last_commit := Some (sc_commit snap), ss_buffer_scale := max (sc_buffer_scale snap) 1,
        ss_transform := sc_transform snap, ss_source := sc_source snap,
        ss_layer := sc_layer snap, ss_alpha := sc_alpha snap, ss_color := sc_color snap\<rparr>"

lemma update_surface_eq:
  assumes "surfaces R s = Some st"
    and new_def: "new = next_attachment R (map_option att_object (ss_current st)) snap"
    and ex_def: "ex = exchanged (map_option att_object (ss_current st)) (map_option att_object new) (buffers R)"
  shows "update_surface sample s snap R =
    (\<lparr>su_changed = commit_changed st new snap, su_content = content_of sample (snd ex) (committed st new snap),
      su_released = fst ex\<rparr>,
     R\<lparr>buffers := snd ex, surfaces := (surfaces R)(s \<mapsto> committed st new snap)\<rparr>)"
proof -
  have nx: "next_attachment (R\<lparr>surfaces := (surfaces R)(s := None)\<rparr>) cur snap = next_attachment R cur snap" for cur
    by (auto simp: next_attachment_def split: option.splits)
  show ?thesis
    unfolding ex_def new_def update_surface_def assms(1) option.case Let_def nx exchanged_def committed_def
    by (auto simp: detach_buffer_eq case_prod_beta split: option.splits)
qed

lemma exchanged_sound:
  assumes ok: "buffers_ok A B" and A: "A s = map_option (\<lambda>a. (att_object a, att_id a)) old"
    and new: "\<And>a. new = Some a \<Longrightarrow> \<exists>rec. B (att_object a) = Some rec \<and> att_id a = bs_id rec"
  defines "ex \<equiv> exchanged (map_option att_object old) (map_option att_object new) B"
  shows "releases B (fst ex) (snd ex)"
    and "buffers_ok (A(s := map_option (\<lambda>a. (att_object a, att_id a)) new)) (snd ex)"
proof -
  have inj: "\<And>j k r r'. B j = Some r \<Longrightarrow> B k = Some r' \<Longrightarrow> bs_id r = bs_id r' \<Longrightarrow> j = k"
    using buffers_okD(5)[OF ok] .
  have "releases B (fst ex) (snd ex) \<and> buffers_ok (A(s := map_option (\<lambda>a. (att_object a, att_id a)) new)) (snd ex)"
  proof (cases "map_option att_object old = map_option att_object new")
    case True
    have "map_option (\<lambda>a. (att_object a, att_id a)) new = A s"
    proof (cases new)
      case (Some a)
      then obtain a' where a': "old = Some a'" "att_object a' = att_object a" using True by auto
      then have "\<exists>rec. B (att_object a) = Some rec \<and> bs_id rec = att_id a'"
        using buffers_okD(4)[OF ok, of s "att_object a" "att_id a'"] A by simp
      then show ?thesis using new[OF Some] A a' Some by auto
    qed (use True A in auto)
    then show ?thesis using ok True by (simp add: ex_def exchanged_def fun_upd_idem)
  next
    case False
    define B1 where "B1 = (case old of Some a \<Rightarrow> snd (detached (att_object a) B) | None \<Rightarrow> B)"
    define rel where "rel = (case old of Some a \<Rightarrow> fst (detached (att_object a) B) | None \<Rightarrow> [])"
    have r1: "releases B rel B1" by (cases old) (simp_all add: rel_def B1_def releases_detached)
    have ok1: "buffers_ok (A(s := None)) B1"
    proof (cases old)
      case None
      then show ?thesis using ok A by (simp add: B1_def fun_upd_idem)
    next
      case (Some a)
      then show ?thesis using buffers_ok_detach[OF ok, of s "att_object a" "att_id a"] A by (simp add: B1_def)
    qed
    show ?thesis
    proof (cases new)
      case None
      then have "ex = (rel, B1)" using False by (cases old) (simp_all add: ex_def exchanged_def rel_def B1_def)
      then show ?thesis using r1 ok1 None by simp
    next
      case (Some a)
      obtain rec where rec: "B (att_object a) = Some rec" "att_id a = bs_id rec" using new[OF Some] by blast
      have same: "B1 (att_object a) = Some rec"
        using False Some rec(1) by (cases old) (auto simp: B1_def detached_def split: option.splits)
      have ex: "ex = (rel, B1(att_object a \<mapsto> rec\<lparr>bs_attachments := bs_attachments rec + 1\<rparr>))"
        using False Some same by (cases old) (auto simp: ex_def exchanged_def rel_def B1_def case_prod_beta)
      have "releases B (rel @ []) (B1(att_object a \<mapsto> rec\<lparr>bs_attachments := bs_attachments rec + 1\<rparr>))"
        by (rule releases_trans[OF r1 releases_attach[of B1, OF same] inj])
      moreover have "buffers_ok ((A(s := None))(s \<mapsto> (att_object a, bs_id rec)))
          (B1(att_object a \<mapsto> rec\<lparr>bs_attachments := bs_attachments rec + 1\<rparr>))"
        by (rule buffers_ok_attach[OF ok1 _ same]) simp
      ultimately show ?thesis using ex Some rec(2) by simp
    qed
  qed
  then show "releases B (fst ex) (snd ex)"
    and "buffers_ok (A(s := map_option (\<lambda>a. (att_object a, att_id a)) new)) (snd ex)" by blast+
qed

lemma update_surface_sound:
  "sound_step R (su_released (fst (update_surface sample s snap R))) (snd (update_surface sample s snap R))"
proof (cases "surfaces R s")
  case None
  then show ?thesis by (simp add: update_surface_def)
next
  case (Some st)
  show ?thesis unfolding sound_step_def
  proof (intro impI)
    assume ok: "registry_ok R"
    note bok = registry_okD(1)[OF ok]
    define new where "new = next_attachment R (map_option att_object (ss_current st)) snap"
    define ex where "ex = exchanged (map_option att_object (ss_current st)) (map_option att_object new) (buffers R)"
    have A: "attachments_of (surfaces R) s = map_option (\<lambda>a. (att_object a, att_id a)) (ss_current st)"
      using Some by (simp add: attachments_of_def attachment_of_def)
    have nw: "\<exists>rec. buffers R (att_object a) = Some rec \<and> att_id a = bs_id rec" if "new = Some a" for a
      using next_attachment_Some[of R] that unfolding new_def by blast
    note ex = exchanged_sound[OF bok A, of new, OF nw, folded ex_def]
    have diff: "commit_changed st new snap"
      if "map_option att_object (ss_current st) \<noteq> map_option att_object new"
    proof -
      have "map_option att_id (ss_current st) \<noteq> map_option att_id new"
      proof
        assume eq: "map_option att_id (ss_current st) = map_option att_id new"
        show False
        proof (cases new)
          case None
          then show False using eq \<open>map_option att_object (ss_current st) \<noteq> map_option att_object new\<close> by simp
        next
          case new_Some: (Some a)
          then obtain a' where a': "ss_current st = Some a'" "att_id a' = att_id a" using eq by auto
          obtain rec where rec: "buffers R (att_object a') = Some rec" "bs_id rec = att_id a'"
            using buffers_okD(4)[OF bok, of s "att_object a'" "att_id a'"] A a' by auto
          from nw[OF new_Some] obtain rec' where "buffers R (att_object a) = Some rec'" "att_id a = bs_id rec'" by blast
          then have "att_object a' = att_object a" using registry_okD(2)[OF ok rec(1)] rec(2) a'(2) by metis
          then show False using \<open>map_option att_object (ss_current st) \<noteq> map_option att_object new\<close> a' new_Some by simp
        qed
      qed
      then show ?thesis by (simp add: commit_changed_def)
    qed
    have cur: "attachment_of (committed st new snap) = map_option (\<lambda>a. (att_object a, att_id a)) new"
    proof (cases "commit_changed st new snap")
      case True
      then show ?thesis by (simp add: attachment_of_def committed_def)
    next
      case False
      then have same: "map_option att_object (ss_current st) = map_option att_object new"
        "map_option att_id (ss_current st) = map_option att_id new"
        using diff by (auto simp: commit_changed_def)
      then show ?thesis using False
        by (cases new; cases "ss_current st") (auto simp: attachment_of_def committed_def)
    qed
    note eq = update_surface_eq[OF Some new_def ex_def, of sample]
    have b: "buffers_ok (attachments_of ((surfaces R)(s \<mapsto> committed st new snap))) (snd ex)"
      using ex(2) by (simp add: cur)
    have "registry_ok (snd (update_surface sample s snap R))"
      by (rule registry_ok_releases[OF ok ex(1) b]) (use Some in \<open>auto simp: eq committed_def split: if_splits\<close>)
    then show "registry_ok (snd (update_surface sample s snap R)) \<and>
        releases (buffers R) (su_released (fst (update_surface sample s snap R))) (buffers (snd (update_surface sample s snap R))) \<and>
        next_buffer_id (snd (update_surface sample s snap R)) = next_buffer_id R"
      using ex(1) by (simp add: eq)
  qed
qed

lemma register_surface_sound: "sound_step R [] (snd (register_surface obj R))"
proof (cases "surfaces R obj = None \<and> next_surface_id R \<noteq> U64_MAX")
  case True
  define i where "i = next_surface_id R"
  have R': "snd (register_surface obj R) = R\<lparr>next_surface_id := i + 1, surfaces := (surfaces R)(obj \<mapsto> initial_surface i)\<rparr>"
    using True by (simp add: register_surface_def allocate_surface_id_def Let_def i_def)
  have none: "attachments_of (surfaces R) obj = None" using True by (simp add: attachments_of_def)
  have "attachments_of ((surfaces R)(obj \<mapsto> initial_surface i)) = attachments_of (surfaces R)"
    using none by (simp add: attachment_of_def initial_surface_def fun_upd_idem)
  moreover have "ss_id (initial_surface i :: ('a, 'b) surface_state) = i" by (simp add: initial_surface_def)
  ultimately show ?thesis
    unfolding sound_step_def R' registry_ok_def by (fastforce simp: i_def split: if_splits)
next
  case False
  then have "snd (register_surface obj R) = R"
    by (auto simp: register_surface_def allocate_surface_id_def Let_def split: option.splits)
  then show ?thesis by simp
qed

lemma remove_surface_unattached:
  assumes "\<And>st. surfaces R s = Some st \<Longrightarrow> ss_current st = None"
  shows "fst (remove_surface s R) = []"
  using assms by (auto simp: remove_surface_def Let_def split: option.splits)

text \<open>The surfaces rolled back after a failed registration attach nothing, so nothing is released.\<close>

definition fresh_surface :: "('k, 'c) registry \<Rightarrow> 'k \<Rightarrow> bool" where
  "fresh_surface R s \<longleftrightarrow> (\<forall>st. surfaces R s = Some st \<longrightarrow> ss_current st = None)"

lemma remove_surface_surfaces: "surfaces (snd (remove_surface s R)) = (surfaces R)(s := None)"
  by (auto simp: remove_surface_def Let_def detach_buffer_eq fun_upd_idem split: option.splits)

lemma remove_surfaces_sound:
  "(\<forall>s \<in> set ss. fresh_surface R s) \<Longrightarrow> sound_step R [] (remove_surfaces ss R)"
proof (induction ss arbitrary: R)
  case (Cons s ss)
  have "fst (remove_surface s R) = []"
    using Cons.prems by (intro remove_surface_unattached) (auto simp: fresh_surface_def)
  then have 1: "sound_step R [] (snd (remove_surface s R))" using remove_surface_sound[of R s] by simp
  have "\<forall>s' \<in> set ss. fresh_surface (snd (remove_surface s R)) s'"
    using Cons.prems by (auto simp: fresh_surface_def remove_surface_surfaces)
  from sound_step_trans[OF 1 Cons.IH[OF this]] show ?case by simp
qed simp

lemma register_surface_surfaces:
  "surfaces (snd (register_surface s R)) =
     (if surfaces R s = None \<and> next_surface_id R \<noteq> U64_MAX
      then (surfaces R)(s \<mapsto> initial_surface (next_surface_id R)) else surfaces R)"
  by (auto simp: register_surface_def allocate_surface_id_def Let_def split: option.splits)

lemma register_members_sound:
  "(\<forall>s \<in> set newly. fresh_surface R s) \<Longrightarrow> sound_step R [] (snd (register_members ss newly R))"
proof (induction ss arbitrary: newly R)
  case (Cons s ss)
  show ?case
  proof (cases "surfaces R s")
    case None
    define R1 where "R1 = snd (register_surface s R)"
    have 1: "sound_step R [] R1" unfolding R1_def by (rule register_surface_sound)
    have fresh: "\<forall>s' \<in> set (newly @ [s]). fresh_surface R1 s'"
      using Cons.prems None by (auto simp: R1_def fresh_surface_def register_surface_surfaces initial_surface_def)
    show ?thesis
    proof (cases "fst (register_surface s R)")
      case none: None
      then have "snd (register_members (s # ss) newly R) = remove_surfaces newly R1"
        using None by (auto simp: R1_def split: prod.splits)
      then show ?thesis using sound_step_trans[OF 1 remove_surfaces_sound[of newly R1]] fresh by simp
    next
      case (Some i)
      then have "snd (register_members (s # ss) newly R) = snd (register_members ss (newly @ [s]) R1)"
        using None by (auto simp: R1_def split: prod.splits)
      then show ?thesis using sound_step_trans[OF 1 Cons.IH[OF fresh]] by simp
    qed
  qed (use Cons in simp)
qed simp

lemma drop_previous_sound:
  "sound_step R (fst (snd (drop_previous cur ss R))) (snd (snd (drop_previous cur ss R)))"
proof (induction ss arbitrary: R)
  case (Cons s ss)
  show ?case
    using sound_step_trans[OF remove_surface_sound[of R s] Cons.IH[of "snd (remove_surface s R)"]] Cons.IH[of R]
    by (auto simp: case_prod_beta Let_def)
qed simp

lemma remove_members_sound:
  "sound_step R (fst (snd (remove_members seen ss R))) (snd (snd (remove_members seen ss R)))"
proof (induction ss arbitrary: seen R)
  case (Cons s ss)
  show ?case
    using sound_step_trans[OF remove_surface_sound[of R s] Cons.IH[where seen = "insert s seen" and R = "snd (remove_surface s R)"]]
      Cons.IH[where seen = seen and R = R]
    by (auto simp: case_prod_beta Let_def)
qed simp

lemma apply_commits_sound:
  "sound_step R (fst (snd (apply_commits sample cs R))) (snd (snd (snd (apply_commits sample cs R))))"
proof (induction cs arbitrary: R)
  case (Cons c cs)
  show ?case
    using sound_step_trans[OF update_surface_sound[of R sample "fst c" "snd c"]
        Cons.IH[of "snd (update_surface sample (fst c) (snd c) R)"]]
    by (cases c) (simp add: case_prod_beta Let_def)
qed simp

lemma update_view_tree_sound:
  "sound_step R (case fst (update_view_tree sample root cs R) of None \<Rightarrow> [] | Some u \<Rightarrow> tu_released u)
     (snd (update_view_tree sample root cs R))"
proof -
  define commits where "commits = dedup_commits {} cs"
  define members where "members = map fst commits"
  define R1 where "R1 = snd (register_members members [] R)"
  have 1: "sound_step R [] R1" unfolding R1_def by (rule register_members_sound) simp
  show ?thesis
  proof (cases "fst (register_members members [] R)")
    case False
    then have "update_view_tree sample root cs R = (None, R1)"
      by (simp add: update_view_tree_def Let_def case_prod_beta R1_def members_def commits_def)
    then show ?thesis using 1 by simp
  next
    case True
    define previous where "previous = (case view_members R1 root of None \<Rightarrow> [] | Some ms \<Rightarrow> ms)"
    define R2 where "R2 = R1\<lparr>view_members := (view_members R1)(root \<mapsto> members)\<rparr>"
    define dp where "dp = drop_previous (set members) previous R2"
    define R4 where "R4 = set_roots root members (snd (snd dp))"
    define ac where "ac = apply_commits sample commits R4"
    have 2: "sound_step R1 [] R2" by (rule sound_step_frame) (simp_all add: R2_def)
    have 3: "sound_step R2 (fst (snd dp)) (snd (snd dp))" unfolding dp_def by (rule drop_previous_sound)
    have 4: "sound_step (snd (snd dp)) [] R4" by (rule sound_step_frame) (simp_all add: R4_def set_roots_def)
    have 5: "sound_step R4 (fst (snd ac)) (snd (snd (snd ac)))" unfolding ac_def by (rule apply_commits_sound)
    have "update_view_tree sample root cs R =
        (Some \<lparr>tu_changed = (previous \<noteq> members \<or> fst ac), tu_contents = fst (snd (snd ac)), tu_removed = fst dp,
               tu_released = fst (snd dp) @ fst (snd ac)\<rparr>, snd (snd (snd ac)))"
      using True
      by (simp add: update_view_tree_def Let_def case_prod_beta ac_def R4_def dp_def R2_def previous_def
          R1_def members_def commits_def)
    then show ?thesis
      using sound_step_trans[OF sound_step_trans[OF sound_step_trans[OF sound_step_trans[OF 1 2] 3] 4] 5] by simp
  qed
qed

lemma remove_view_tree_sound:
  "sound_step R (tr_released (fst (remove_view_tree root R))) (snd (remove_view_tree root R))"
proof -
  define R1 where "R1 = R\<lparr>view_members := (view_members R)(root := None)\<rparr>"
  have 1: "sound_step R [] R1" by (rule sound_step_frame) (simp_all add: R1_def)
  from sound_step_trans[OF 1 remove_members_sound] show ?thesis
    by (simp add: remove_view_tree_def Let_def case_prod_beta R1_def)
qed

lemma buffer_destroyed_sound:
  "sound_step R (fst (buffer_destroyed obj R)) (snd (buffer_destroyed obj R))"
proof (cases "buffers R obj")
  case None
  then show ?thesis by (simp add: buffer_destroyed_def)
next
  case (Some rec)
  show ?thesis unfolding sound_step_def
  proof (intro impI)
    assume ok: "registry_ok R"
    note bok = registry_okD(1)[OF ok]
    let ?A = "attachments_of (surfaces R)"
    show "registry_ok (snd (buffer_destroyed obj R)) \<and>
        releases (buffers R) (fst (buffer_destroyed obj R)) (buffers (snd (buffer_destroyed obj R))) \<and>
        next_buffer_id (snd (buffer_destroyed obj R)) = next_buffer_id R"
    proof (cases "bs_attachments rec = 0")
      case True
      define B' where "B' = (buffers R)(obj := None)"
      have eq: "buffer_destroyed obj R = ([bs_id rec], R\<lparr>buffers := B'\<rparr>)"
        using Some True by (simp add: buffer_destroyed_def collect_destroyed_def B'_def)
      have "card (users ?A obj) = 0" using buffers_okD(2)[OF bok Some] True by simp
      then have none: "users ?A obj = {}" using users_finite[OF bok] by simp
      have rel: "releases (buffers R) [bs_id rec] B'" using Some by (auto simp: releases_def B'_def)
      have b: "buffers_ok ?A B'"
      proof (rule buffers_okI)
        show "\<exists>r. B' k = Some r \<and> bs_id r = i" if "?A s = Some (k, i)" for s k i
          using buffers_okD(4)[OF bok that] none that by (auto simp: B'_def users_def)
      qed (use buffers_okD[OF bok] in \<open>auto simp: B'_def split: if_splits\<close>)
      have "registry_ok (snd (buffer_destroyed obj R))"
        by (rule registry_ok_releases[OF ok rel b]) (simp_all add: eq)
      then show ?thesis using rel by (simp add: eq)
    next
      case False
      define B' where "B' = (buffers R)(obj \<mapsto> rec\<lparr>bs_destroyed := True\<rparr>)"
      have eq: "buffer_destroyed obj R = ([], R\<lparr>buffers := B'\<rparr>)"
        using Some False by (simp add: buffer_destroyed_def collect_destroyed_def B'_def)
      have some: "users ?A obj \<noteq> {}" using buffers_okD(2)[OF bok Some] False by auto
      have rel: "releases (buffers R) [] B'" unfolding B'_def by (rule releases_destroyed[of "buffers R", OF Some])
      have b: "buffers_ok ?A B'"
      proof (rule buffers_okI)
        show "\<exists>r. B' k = Some r \<and> bs_id r = i" if "?A s = Some (k, i)" for s k i
          using buffers_okD(4)[OF bok that] Some by (auto simp: B'_def)
      qed (use buffers_okD[OF bok] some Some in \<open>auto simp: B'_def split: if_splits\<close>)
      have "registry_ok (snd (buffer_destroyed obj R))"
        by (rule registry_ok_releases[OF ok rel b]) (simp_all add: eq)
      then show ?thesis using rel by (simp add: eq)
    qed
  qed
qed

section \<open>Reachable registries\<close>

text \<open>The operations of the registry with the identities they release. An import registers a buffer under
  an identity that was allocated for it.\<close>

inductive registry_step ::
  "'m sampler \<Rightarrow> ('k, 'c) registry \<Rightarrow> surface_buffer_id list \<Rightarrow> ('k, 'c) registry \<Rightarrow> bool" for sample
where
  surface: "registry_step sample R [] (snd (register_surface s R))"
| root: "registry_step sample R [] (snd (register_view_root s R))"
| allocate: "registry_step sample R [] (snd (allocate_buffer_id R))"
| import_buffer: "i < next_buffer_id R \<Longrightarrow> (\<And>k r. buffers R k = Some r \<Longrightarrow> bs_id r \<noteq> i) \<Longrightarrow>
    registry_step sample R [] (snd (register_imported_buffer obj i sz R))"
| update: "update_surface sample s snap R = (u, R') \<Longrightarrow> registry_step sample R (su_released u) R'"
| tree: "update_view_tree sample r cs R = (Some t, R') \<Longrightarrow> registry_step sample R (tu_released t) R'"
| tree_failed: "update_view_tree sample r cs R = (None, R') \<Longrightarrow> registry_step sample R [] R'"
| remove: "remove_surface s R = (rel, R') \<Longrightarrow> registry_step sample R rel R'"
| remove_tree: "remove_view_tree r R = (v, R') \<Longrightarrow> registry_step sample R (tr_released v) R'"
| destroyed: "buffer_destroyed obj R = (rel, R') \<Longrightarrow> registry_step sample R rel R'"

inductive registry_reachable :: "'m sampler \<Rightarrow> ('k, 'c) registry \<Rightarrow> bool" for sample where
  empty: "registry_reachable sample registry_default"
| step: "registry_reachable sample R \<Longrightarrow> registry_step sample R rel R' \<Longrightarrow> registry_reachable sample R'"

lemma allocate_buffer_id_ok:
  "registry_ok R \<Longrightarrow> registry_ok (snd (allocate_buffer_id R))" "buffers (snd (allocate_buffer_id R)) = buffers R"
  by (fastforce simp: allocate_buffer_id_def Let_def registry_ok_def)+

lemma register_view_root_sound: "sound_step R [] (snd (register_view_root s R))"
proof -
  define R1 where "R1 = snd (register_surface s R)"
  have 1: "sound_step R [] R1" unfolding R1_def by (rule register_surface_sound)
  have "sound_step R1 [] (snd (register_view_root s R))"
    by (rule sound_step_frame) (auto simp: register_view_root_def R1_def split: prod.splits option.splits)
  from sound_step_trans[OF 1 this] show ?thesis by simp
qed

lemma register_imported_buffer_ok:
  assumes "registry_ok R" "i < next_buffer_id R" "\<And>k r. buffers R k = Some r \<Longrightarrow> bs_id r \<noteq> i"
  shows "registry_ok (snd (register_imported_buffer obj i sz R))"
proof (cases "buffers R obj")
  case None
  then show ?thesis
    using assms buffers_ok_register[OF registry_okD(1)[OF assms(1)] None assms(3)]
    unfolding registry_ok_def register_imported_buffer_def by auto
qed (use assms in \<open>simp add: register_imported_buffer_def\<close>)

text \<open>Every step keeps the invariant and releases exactly the buffers that disappear.\<close>

lemma registry_step_sound:
  assumes "registry_step sample R rel R'" "registry_ok R"
  shows "registry_ok R' \<and> distinct rel \<and>
    (\<forall>i. i \<in> set rel \<longleftrightarrow> (\<exists>k r. buffers R k = Some r \<and> bs_id r = i \<and> buffers R' k = None))"
proof -
  have from_sound: "registry_ok R' \<and> distinct rel \<and>
      (\<forall>i. i \<in> set rel \<longleftrightarrow> (\<exists>k r. buffers R k = Some r \<and> bs_id r = i \<and> buffers R' k = None))"
    if "sound_step R rel R'" for rel
    using that assms(2) by (simp add: sound_step_def releases_def)
  show ?thesis
    using assms(1)
  proof cases
    case (surface s)
    then show ?thesis using from_sound[of "[]"] register_surface_sound[of R s] by simp
  next
    case (root s)
    then show ?thesis using from_sound[of "[]"] register_view_root_sound[of R s] by simp
  next
    case allocate
    then show ?thesis using allocate_buffer_id_ok[of R] assms(2) by auto
  next
    case (import_buffer i obj sz)
    then show ?thesis
      using register_imported_buffer_ok[OF assms(2), of i obj sz]
      by (auto simp: register_imported_buffer_def split: option.splits)
  next
    case (update s snap u)
    then show ?thesis using from_sound update_surface_sound[of R sample s snap] by simp
  next
    case (tree r cs t)
    then show ?thesis using from_sound update_view_tree_sound[of R sample r cs] by simp
  next
    case (tree_failed r cs)
    then show ?thesis using from_sound[of "[]"] update_view_tree_sound[of R sample r cs] by simp
  next
    case (remove s)
    then show ?thesis using from_sound remove_surface_sound[of R s] by simp
  next
    case (remove_tree r v)
    then show ?thesis using from_sound remove_view_tree_sound[of R r] by simp
  next
    case (destroyed obj)
    then show ?thesis using from_sound buffer_destroyed_sound[of R obj] by simp
  qed
qed

lemma attachments_of_empty [simp]: "attachments_of Map.empty = Map.empty"
  by (simp add: attachments_of_def fun_eq_iff)

lemma registry_ok_default: "registry_ok registry_default"
  by (simp add: registry_ok_def registry_default_def buffers_ok_def)

lemma registry_reachable_ok: "registry_reachable sample R \<Longrightarrow> registry_ok R"
  by (induction rule: registry_reachable.induct) (use registry_ok_default registry_step_sound in blast)+

section \<open>Properties\<close>

text \<open>C3. Buffers are released exactly once: whatever the registry does, the identities it reports as
  released are exactly those of the buffers it forgets, each listed once; no surface attaches a
  forgotten buffer any more; the attachment count of every remaining buffer is the number of
  surfaces attaching it; and a destroyed buffer is kept only while some surface attaches it.\<close>

theorem registry_release_exact:
  assumes "registry_reachable sample R" "registry_step sample R rel R'"
  shows "distinct rel \<and> set rel = {bs_id r |k r. buffers R k = Some r \<and> buffers R' k = None} \<and>
    (\<forall>k. buffers R' k = None \<longrightarrow> users (attachments_of (surfaces R')) k = {}) \<and>
    (\<forall>k r. buffers R' k = Some r \<longrightarrow>
       bs_attachments r = card (users (attachments_of (surfaces R')) k) \<and>
       (bs_destroyed r \<longrightarrow> users (attachments_of (surfaces R')) k \<noteq> {}))"
proof -
  note st = registry_step_sound[OF assms(2) registry_reachable_ok[OF assms(1)]]
  have bok: "buffers_ok (attachments_of (surfaces R')) (buffers R')" using st registry_okD(1) by blast
  have "users (attachments_of (surfaces R')) k = {}" if "buffers R' k = None" for k
    using buffers_okD(4)[OF bok, of _ k] that by (fastforce simp: users_def)
  moreover have "set rel = {bs_id r |k r. buffers R k = Some r \<and> buffers R' k = None}" using st by (auto simp: set_eq_iff)
  ultimately show ?thesis using st buffers_okD(2,3)[OF bok] by blast
qed

definition unit_sample :: "unit sampler" where "unit_sample sz sc tr src = ()"

definition cursor_registry :: "(nat, nat) registry" where
  "cursor_registry = snd (register_imported_buffer 9 1 (Size 64 64) (snd (allocate_buffer_id registry_default)))"

lemma cursor_registry_reachable: "registry_reachable unit_sample cursor_registry"
proof -
  have "registry_reachable unit_sample (snd (allocate_buffer_id registry_default) :: (nat, nat) registry)"
    by (rule registry_reachable.step[OF registry_reachable.empty registry_step.allocate])
  then show ?thesis unfolding cursor_registry_def
    by (rule registry_reachable.step)
      (rule registry_step.import_buffer, simp_all add: allocate_buffer_id_def registry_default_def Let_def)
qed

theorem registry_release_exact_witness:
  "buffer_destroyed 9 cursor_registry = ([1], cursor_registry\<lparr>buffers := Map.empty\<rparr>) \<and>
   {bs_id r |k r. buffers cursor_registry k = Some r \<and> (Map.empty :: nat \<rightharpoonup> buffer_state) k = None} = {1}"
proof -
  have eq: "buffer_destroyed 9 cursor_registry = ([1], cursor_registry\<lparr>buffers := Map.empty\<rparr>)"
    by (simp add: buffer_destroyed_def cursor_registry_def register_imported_buffer_def allocate_buffer_id_def
        registry_default_def collect_destroyed_def Let_def)
  from registry_release_exact[OF cursor_registry_reachable registry_step.destroyed[OF eq]] show ?thesis
    using eq by auto
qed

text \<open>A commit to one surface does not change what any other surface shows.\<close>

lemma current_content_other:
  assumes "registry_ok R" "s \<noteq> s'"
  shows "current_content sample s (snd (update_surface sample' s' snap R)) = current_content sample s R"
proof (cases "surfaces R s'")
  case None
  then show ?thesis by (simp add: update_surface_def)
next
  case (Some st')
  define R' where "R' = snd (update_surface sample' s' snap R)"
  have ok': "registry_ok R'" and rel: "releases (buffers R) (su_released (fst (update_surface sample' s' snap R))) (buffers R')"
    using update_surface_sound[of R sample' s' snap] assms(1) by (simp_all add: sound_step_def R'_def)
  have S: "surfaces R' s = surfaces R s" using assms(2) by (simp add: R'_def update_surface_eq[OF Some refl refl])
  show ?thesis
  proof (cases "surfaces R s")
    case None
    then show ?thesis using S by (simp add: current_content_def flip: R'_def)
  next
    case st: (Some st)
    have "content_of sample (buffers R') st = content_of sample (buffers R) st"
    proof (cases "ss_current st")
      case (Some a)
      have A: "attachments_of (surfaces R') s = Some (att_object a, att_id a)"
        using S st Some by (simp add: attachments_of_def attachment_of_def)
      obtain r' where r': "buffers R' (att_object a) = Some r'"
        using buffers_okD(4)[OF registry_okD(1)[OF ok'] A] by blast
      then obtain r where "buffers R (att_object a) = Some r" "bs_size r = bs_size r'"
        using rel unfolding releases_def by blast
      then show ?thesis using r' Some by (simp add: content_of_def)
    qed (simp add: content_of_def)
    then show ?thesis using S st by (simp add: current_content_def flip: R'_def)
  qed
qed

lemma update_surface_content:
  "su_content (fst (update_surface sample s snap R)) = current_content sample s (snd (update_surface sample s snap R))"
proof (cases "surfaces R s")
  case None
  then show ?thesis by (simp add: update_surface_def current_content_def)
next
  case (Some st)
  then show ?thesis by (simp add: update_surface_eq[OF Some refl refl] current_content_def)
qed

lemma update_surface_members [simp]:
  "view_members (snd (update_surface sample s snap R)) = view_members R"
proof (cases "surfaces R s")
  case (Some st)
  then show ?thesis by (simp add: update_surface_eq[OF Some refl refl])
qed (simp add: update_surface_def)

lemma apply_commits_members [simp]:
  "view_members (snd (snd (snd (apply_commits sample cs R)))) = view_members R"
proof (induction cs arbitrary: R)
  case (Cons c cs)
  then show ?case by (cases c) (simp add: case_prod_beta Let_def)
qed simp

lemma apply_commits_other:
  assumes "registry_ok R" "s \<notin> fst ` set cs"
  shows "current_content sample' s (snd (snd (snd (apply_commits sample cs R)))) = current_content sample' s R"
  using assms
proof (induction cs arbitrary: R)
  case (Cons c cs)
  have "registry_ok (snd (update_surface sample (fst c) (snd c) R))"
    using update_surface_sound[of R sample "fst c" "snd c"] Cons.prems(1) by (simp add: sound_step_def)
  with Cons current_content_other[OF Cons.prems(1), of s "fst c"] show ?case
    by (cases c) (simp add: case_prod_beta Let_def)
qed simp

lemma apply_commits_contents:
  assumes "registry_ok R" "distinct (map fst cs)"
  shows "fst (snd (snd (apply_commits sample cs R))) =
    List.map_filter (\<lambda>s. current_content sample s (snd (snd (snd (apply_commits sample cs R))))) (map fst cs)"
  using assms
proof (induction cs arbitrary: R)
  case (Cons c cs)
  obtain s snap where c: "c = (s, snap)" by (cases c)
  define R1 where "R1 = snd (update_surface sample s snap R)"
  have ok1: "registry_ok R1"
    using update_surface_sound[of R sample s snap] Cons.prems(1) by (simp add: sound_step_def R1_def)
  have here: "current_content sample s (snd (snd (snd (apply_commits sample cs R1)))) =
      su_content (fst (update_surface sample s snap R))"
    using apply_commits_other[OF ok1, of s cs] Cons.prems(2) update_surface_content[of sample s snap R]
    by (simp add: c R1_def)
  show ?case
    using Cons.IH[OF ok1] Cons.prems(2) here
    by (simp add: c case_prod_beta Let_def R1_def[symmetric] map_filter_simps split: option.splits)
qed (simp add: map_filter_simps)

lemma dedup_commits_distinct:
  "distinct (map fst (dedup_commits seen cs)) \<and> fst ` set (dedup_commits seen cs) \<inter> seen = {}"
  by (induction seen cs rule: dedup_commits.induct) (auto simp: image_iff)

lemma drop_previous_members:
  "view_members R root = Some ms \<Longrightarrow> set ms \<subseteq> cur \<Longrightarrow>
   view_members (snd (snd (drop_previous cur ss R))) root = Some ms"
proof (induction ss arbitrary: R)
  case (Cons s ss)
  show ?case
  proof (cases "s \<in> cur")
    case False
    then have "filter (\<lambda>m. m \<noteq> s) ms = ms" using Cons.prems(2) by (auto intro: filter_True)
    then have "view_members (snd (remove_surface s R)) root = Some ms"
      using Cons.prems(1) by (auto simp: remove_surface_def Let_def detach_buffer_eq split: option.splits)
    with Cons.IH[OF this] Cons.prems(2) False show ?thesis by (simp add: case_prod_beta Let_def)
  qed (use Cons in simp)
qed simp

text \<open>C31. A tree commit reports what the tree then shows: after a successful update the members of the view
  are the committed surfaces, each once and in commit order, and the returned contents are exactly
  the contents of the tree, in member order, with every surface's own revision and geometry.\<close>

theorem view_tree_update_shows:
  assumes "registry_reachable sample R" "update_view_tree sample root cs R = (Some t, R')"
  shows "view_members R' root = Some (map fst (dedup_commits {} cs)) \<and>
         distinct (map fst (dedup_commits {} cs)) \<and>
         tu_contents t = view_tree_contents sample root R'"
proof -
  define commits where "commits = dedup_commits {} cs"
  define members where "members = map fst commits"
  define R1 where "R1 = snd (register_members members [] R)"
  define previous where "previous = (case view_members R1 root of None \<Rightarrow> [] | Some ms \<Rightarrow> ms)"
  define R2 where "R2 = R1\<lparr>view_members := (view_members R1)(root \<mapsto> members)\<rparr>"
  define dp where "dp = drop_previous (set members) previous R2"
  define R4 where "R4 = set_roots root members (snd (snd dp))"
  define ac where "ac = apply_commits sample commits R4"
  have t: "tu_contents t = fst (snd (snd ac))" "R' = snd (snd (snd ac))"
    using assms(2) unfolding update_view_tree_def Let_def case_prod_beta commits_def[symmetric] members_def[symmetric]
    by (auto simp: ac_def R4_def dp_def R2_def previous_def R1_def split: bool.splits)
  have ok: "registry_ok R" by (rule registry_reachable_ok[OF assms(1)])
  have "sound_step R [] R1" unfolding R1_def by (rule register_members_sound) simp
  then have "registry_ok R1" using ok by (simp add: sound_step_def)
  then have "registry_ok R2" by (simp add: registry_ok_def R2_def)
  then have "registry_ok (snd (snd dp))" using drop_previous_sound[of R2 "set members" previous] by (simp add: sound_step_def dp_def)
  then have ok4: "registry_ok R4" by (simp add: registry_ok_def R4_def set_roots_def)
  have dist: "distinct (map fst commits)" using dedup_commits_distinct[of "{}" cs] by (simp add: commits_def)
  have "view_members (snd (snd dp)) root = Some members"
    unfolding dp_def by (rule drop_previous_members) (simp_all add: R2_def)
  then have vm: "view_members R' root = Some members" by (simp add: t(2) ac_def R4_def set_roots_def)
  have "tu_contents t = List.map_filter (\<lambda>s. current_content sample s R') members"
    using apply_commits_contents[OF ok4 dist, of sample] by (simp add: t members_def ac_def)
  with vm dist show ?thesis by (simp add: view_tree_contents_def members_def commits_def)
qed

definition cursor_commit :: "(nat, nat) surface_commit" where
  "cursor_commit = \<lparr>sc_buffer = Some 9, sc_logical_size = None, sc_local_offset = (0, 0), sc_commit = 1,
     sc_buffer_scale = 1, sc_transform = Normal, sc_source = None, sc_layer = LayerView, sc_alpha = OPAQUE,
     sc_color = default_color_state\<rparr>"

theorem view_tree_update_shows_witness:
  "\<exists>t R'. update_view_tree unit_sample 3 [(3, cursor_commit)] cursor_registry = (Some t, R') \<and>
     view_members R' 3 = Some [3] \<and> tu_contents t = view_tree_contents unit_sample 3 R'"
proof -
  have "\<exists>t R'. update_view_tree unit_sample 3 [(3, cursor_commit)] cursor_registry = (Some t, R')"
    by (simp add: update_view_tree_def cursor_registry_def register_imported_buffer_def allocate_buffer_id_def
        registry_default_def register_surface_def allocate_surface_id_def Let_def case_prod_beta)
  then obtain t R' where "update_view_tree unit_sample 3 [(3, cursor_commit)] cursor_registry = (Some t, R')" by blast
  with view_tree_update_shows[OF cursor_registry_reachable this] show ?thesis by auto
qed

section \<open>Explicit synchronisation\<close>

record 'p surface_sync =
  sync_buffer :: surface_buffer_id
  sync_acquire :: "'p option"
  sync_release :: 'p

type_synonym 'p sync_registry = "surface_id \<rightharpoonup> 'p surface_sync"

definition sync_replace ::
  "surface_id \<Rightarrow> surface_buffer_id \<Rightarrow> 'p \<Rightarrow> 'p \<Rightarrow> 'p sync_registry \<Rightarrow> 'p surface_sync option \<times> 'p sync_registry"
where
  "sync_replace s b acquire release act =
     (act s, act(s \<mapsto> \<lparr>sync_buffer = b, sync_acquire = Some acquire, sync_release = release\<rparr>))"

definition reconcile_implicit ::
  "surface_id \<Rightarrow> surface_buffer_id option \<Rightarrow> 'p sync_registry \<Rightarrow> 'p surface_sync option \<times> 'p sync_registry"
where
  "reconcile_implicit s current act =
     (let same_buffer = (case act s of Some sync \<Rightarrow> Some (sync_buffer sync) = current | None \<Rightarrow> False)
      in if \<not> same_buffer then (act s, act(s := None)) else (None, act))"

definition pending_acquire :: "surface_id \<Rightarrow> surface_buffer_id \<Rightarrow> 'p sync_registry \<Rightarrow> 'p option" where
  "pending_acquire s b act =
     (case act s of Some sync \<Rightarrow> if sync_buffer sync = b then sync_acquire sync else None | None \<Rightarrow> None)"

definition mark_acquire_imported :: "surface_id \<Rightarrow> 'p sync_registry \<Rightarrow> bool \<times> 'p sync_registry" where
  "mark_acquire_imported s act =
     (case act s of
        None \<Rightarrow> (False, act)
      | Some sync \<Rightarrow> (sync_acquire sync \<noteq> None, act(s \<mapsto> sync\<lparr>sync_acquire := None\<rparr>)))"

definition sync_remove :: "surface_id \<Rightarrow> 'p sync_registry \<Rightarrow> 'p surface_sync option \<times> 'p sync_registry" where
  "sync_remove s act = (act s, act(s := None))"

definition active_buffer :: "surface_id \<Rightarrow> 'p sync_registry \<Rightarrow> surface_buffer_id option" where
  "active_buffer s act = map_option sync_buffer (act s)"

text \<open>The operations on one registry, in any order; the last is every way to forget a surface.\<close>

datatype 'p sync_op =
    SyncReplace surface_id surface_buffer_id 'p 'p
  | SyncReconcile surface_id "surface_buffer_id option"
  | SyncImported surface_id
  | SyncRemove surface_id

fun sync_step :: "'p sync_op \<Rightarrow> 'p sync_registry \<Rightarrow> 'p sync_registry" where
  "sync_step (SyncReplace s b a r) act = snd (sync_replace s b a r act)"
| "sync_step (SyncReconcile s cur) act = snd (reconcile_implicit s cur act)"
| "sync_step (SyncImported s) act = snd (mark_acquire_imported s act)"
| "sync_step (SyncRemove s) act = snd (sync_remove s act)"

fun replaces :: "surface_id \<Rightarrow> 'p sync_op \<Rightarrow> bool" where
  "replaces s (SyncReplace s' b a r) \<longleftrightarrow> s' = s"
| "replaces s _ \<longleftrightarrow> False"

text \<open>An acquire point is consumed at most once: once it has been marked as imported, no sequence of
  operations makes it pending or importable again until the surface commits a new pair of points,
  and a damage-only commit to the same buffer keeps the pair while any other implicit commit hands
  it back.\<close>

lemma sync_acquire_once:
  assumes "\<not> list_ex (replaces s) ops"
  shows "(let act' = fold sync_step ops (snd (mark_acquire_imported s act))
          in pending_acquire s b act' = None \<and> \<not> fst (mark_acquire_imported s act')) \<and>
         reconcile_implicit s cur act =
           (if act s \<noteq> None \<and> active_buffer s act = cur then (None, act) else (act s, act(s := None)))"
proof -
  define quiet where "quiet = (\<lambda>a :: 'a sync_registry. \<forall>y. a s = Some y \<longrightarrow> sync_acquire y = None)"
  have start: "quiet (snd (mark_acquire_imported s act))"
    by (auto simp: quiet_def mark_acquire_imported_def split: option.splits)
  have step: "quiet (sync_step o' a)" if "quiet a" "\<not> replaces s o'" for o' a
    using that
    by (cases o') (auto simp: quiet_def sync_replace_def reconcile_implicit_def mark_acquire_imported_def
        sync_remove_def Let_def split: option.splits if_splits)
  have "quiet (fold sync_step ops a)" if "quiet a" for a
    using assms that by (induction ops arbitrary: a) (simp_all add: step)
  from this[OF start] show ?thesis
    by (auto simp: quiet_def Let_def pending_acquire_def mark_acquire_imported_def reconcile_implicit_def
        active_buffer_def split: option.splits)
qed

end
