(* ===== verification/Scene_Model.thy ===== *)
theory Scene_Model
  imports Overview Surface_Content "HOL-Library.Product_Lexorder"
begin

text \<open>
  The renderer-independent scene of \<^verbatim>\<open>apps/tensor-wm/src/scene\<close>: appearance policy
  (\<^verbatim>\<open>appearance.rs\<close>), content spans (\<^verbatim>\<open>content.rs\<close>) and the immutable snapshot with its nodes,
  their visual bounds, the draw order and the table of submitted surfaces (\<^verbatim>\<open>model.rs\<close>).

  A panic of the sources (a slice out of range, a failed \<open>expect\<close>) is a value of
  \<open>scene_panic\<close>, so that the lemmas can say that it does not happen: a snapshot built from
  well-formed nodes (\<open>nodes_ok\<close>) never panics, and its submission table lists exactly the
  surfaces with a visible pixel, once each, with bounds that cover all of them.

  The sources sort with \<open>sort_unstable_by_key\<close>; the model uses the stable sort, which is the same
  function where the keys are distinct, as the view identifiers of a scene are.
\<close>

section \<open>Panics as values\<close>

datatype scene_panic =
    AssertFailed
  | SpanOutOfTable
  | EmptyCompaction
  | NoPairToMerge
  | BlurMissesViewport

section \<open>Style values\<close>

type_synonym unit_fraction = u16

definition FRACTION_TRANSPARENT :: unit_fraction where "FRACTION_TRANSPARENT = 0"
definition FRACTION_OPAQUE :: unit_fraction where "FRACTION_OPAQUE = U16_MAX"

record linear_rgba16 =
  rgba_red :: u16
  rgba_green :: u16
  rgba_blue :: u16
  rgba_alpha :: u16

definition Rgba16 :: "u16 \<Rightarrow> u16 \<Rightarrow> u16 \<Rightarrow> u16 \<Rightarrow> linear_rgba16" where
  "Rgba16 r g b a = \<lparr>rgba_red = r, rgba_green = g, rgba_blue = b, rgba_alpha = a\<rparr>"

record focus_outline =
  outline_width :: u32
  outline_color :: linear_rgba16

definition default_outline :: focus_outline where
  "default_outline = \<lparr>outline_width = 4, outline_color = Rgba16 32639 51400 U16_MAX U16_MAX\<rparr>"

definition outline_visible :: "focus_outline \<Rightarrow> bool" where
  "outline_visible f \<longleftrightarrow> outline_width f > 0 \<and> rgba_alpha (outline_color f) > 0"

definition outline_bounds :: "focus_outline \<Rightarrow> rect \<Rightarrow> rect option" where
  "outline_bounds f geometry =
     (if outline_visible f then Some (rect_inflated geometry (outline_width f)) else None)"

record shadow_style =
  shadow_offset_x :: i32
  shadow_offset_y :: i32
  shadow_blur_radius :: u32
  shadow_spread :: u32
  shadow_color :: linear_rgba16

definition shadow_bounds :: "shadow_style \<Rightarrow> rect \<Rightarrow> rect option" where
  "shadow_bounds s geometry =
     (if rgba_alpha (shadow_color s) > 0
      then Some (rect_inflated (rect_translated geometry (shadow_offset_x s) (shadow_offset_y s))
                   (sat_u32 (shadow_blur_radius s + shadow_spread s)))
      else None)"

record backdrop_blur =
  blur_radius :: u32

type_synonym backdrop_region = "rect list"

definition backdrop_region_new :: "rect list \<Rightarrow> backdrop_region option" where
  "backdrop_region_new rects = (if rects \<noteq> [] then Some rects else None)"

record effect_style =
  effect_opacity :: unit_fraction
  effect_corner_radius :: u32
  effect_shadow :: "shadow_style option"
  effect_backdrop_blur :: "backdrop_blur option"

definition resolved_for :: "effect_style \<Rightarrow> rect \<Rightarrow> effect_style" where
  "resolved_for e geometry =
     (let maximum_radius = min (rect_width geometry) (rect_height geometry) div 2
      in e\<lparr>effect_corner_radius := min (effect_corner_radius e) maximum_radius\<rparr>)"

definition default_effects :: effect_style where
  "default_effects = \<lparr>effect_opacity = FRACTION_OPAQUE, effect_corner_radius = 0,
     effect_shadow = None, effect_backdrop_blur = None\<rparr>"

section \<open>Appearance policy\<close>

record focus_ring_style =
  ring_enabled :: bool
  ring_width :: u32
  ring_color :: linear_rgba16

definition ring_outline :: "focus_ring_style \<Rightarrow> focus_outline option" where
  "ring_outline r =
     (if ring_enabled r \<and> ring_width r > 0 \<and> rgba_alpha (ring_color r) > 0
      then Some \<lparr>outline_width = ring_width r, outline_color = ring_color r\<rparr> else None)"

definition default_ring :: focus_ring_style where
  "default_ring = \<lparr>ring_enabled = True, ring_width = outline_width default_outline,
     ring_color = outline_color default_outline\<rparr>"

record window_shadow_style =
  ws_enabled :: bool
  ws_offset_x :: i32
  ws_offset_y :: i32
  ws_blur_radius :: u32
  ws_spread :: u32
  ws_color :: linear_rgba16

definition window_shadow_effect :: "window_shadow_style \<Rightarrow> shadow_style option" where
  "window_shadow_effect w =
     (if ws_enabled w \<and> rgba_alpha (ws_color w) > 0
      then Some \<lparr>shadow_offset_x = ws_offset_x w, shadow_offset_y = ws_offset_y w,
                shadow_blur_radius = ws_blur_radius w, shadow_spread = ws_spread w,
                shadow_color = ws_color w\<rparr>
      else None)"

definition default_window_shadow :: window_shadow_style where
  "default_window_shadow = \<lparr>ws_enabled = False, ws_offset_x = 0, ws_offset_y = 6,
     ws_blur_radius = 18, ws_spread = 0, ws_color = Rgba16 0 0 0 28784\<rparr>"

record window_corner_style =
  corner_radius :: u32

record scene_appearance =
  appearance_focus_ring :: focus_ring_style
  appearance_window_shadow :: window_shadow_style
  appearance_window_corners :: window_corner_style

definition default_appearance :: scene_appearance where
  "default_appearance = \<lparr>appearance_focus_ring = default_ring,
     appearance_window_shadow = default_window_shadow,
     appearance_window_corners = \<lparr>corner_radius = 0\<rparr>\<rparr>"

section \<open>Content spans\<close>

text \<open>The fields are \<open>u32\<close> used as indices; a \<open>usize\<close> has 64 bits on the targets of the
  compositor.\<close>

record content_span =
  span_start :: nat
  span_len :: nat

definition default_span :: content_span where
  "default_span = \<lparr>span_start = 0, span_len = 0\<rparr>"

definition content_span_new :: "nat \<Rightarrow> nat \<Rightarrow> content_span option" where
  "content_span_new start len =
     (if int start \<le> U32_MAX \<and> int len \<le> U32_MAX
      then Some \<lparr>span_start = start, span_len = len\<rparr> else None)"

definition span_is_empty :: "content_span \<Rightarrow> bool" where
  "span_is_empty s \<longleftrightarrow> span_len s = 0"

definition span_range :: "content_span \<Rightarrow> (nat \<times> nat) option" where
  "span_range s =
     (if int (span_start s) + int (span_len s) \<le> U64_MAX
      then Some (span_start s, span_start s + span_len s) else None)"

section \<open>Scene nodes\<close>

datatype surface_presentation_hint = Vsync | Async

record scene_node =
  node_view_id :: view_id
  node_stacking_order :: u64
  node_placement :: layout_placement
  node_effects :: effect_style
  node_focus_outline :: "focus_outline option"
  node_presentation_hint :: surface_presentation_hint
  node_backdrop_region :: "backdrop_region option"
  node_content :: content_span

definition scene_node_new :: "view_id \<Rightarrow> u64 \<Rightarrow> layout_placement \<Rightarrow> effect_style \<Rightarrow> scene_node" where
  "scene_node_new vid stacking placement effects =
     \<lparr>node_view_id = vid, node_stacking_order = stacking, node_placement = placement,
      node_effects = resolved_for effects (placement_geometry placement),
      node_focus_outline = None, node_presentation_hint = Vsync,
      node_backdrop_region = None, node_content = default_span\<rparr>"

definition node_with_content :: "scene_node \<Rightarrow> content_span \<Rightarrow> scene_node" where
  "node_with_content n span = n\<lparr>node_content := span\<rparr>"

definition node_with_focus_outline :: "scene_node \<Rightarrow> focus_outline option \<Rightarrow> scene_node" where
  "node_with_focus_outline n fo =
     n\<lparr>node_focus_outline :=
        (case fo of None \<Rightarrow> None | Some f \<Rightarrow> if outline_visible f then Some f else None)\<rparr>"

definition node_with_presentation_hint :: "scene_node \<Rightarrow> surface_presentation_hint \<Rightarrow> scene_node" where
  "node_with_presentation_hint n hint = n\<lparr>node_presentation_hint := hint\<rparr>"

definition node_with_backdrop_region :: "scene_node \<Rightarrow> backdrop_region option \<Rightarrow> scene_node" where
  "node_with_backdrop_region n region = n\<lparr>node_backdrop_region := region\<rparr>"

definition node_geometry :: "scene_node \<Rightarrow> rect" where
  "node_geometry n = placement_geometry (node_placement n)"

definition backdrop_regions :: "scene_node \<Rightarrow> rect \<Rightarrow> rect list" where
  "backdrop_regions n viewport =
     (let visible = Option.bind (placement_visible (node_placement n)) (\<lambda>v. rect_intersection v viewport)
      in case node_backdrop_region n of
           None \<Rightarrow> (case visible of None \<Rightarrow> [] | Some v \<Rightarrow> [v])
         | Some rects \<Rightarrow>
             List.map_filter
               (\<lambda>region. Option.bind visible
                  (rect_intersection
                     (rect_translated region (rect_x (node_geometry n)) (rect_y (node_geometry n)))))
               rects)"

definition node_visual_bounds :: "scene_node \<Rightarrow> rect \<Rightarrow> rect option" where
  "node_visual_bounds n viewport =
     (if effect_opacity (node_effects n) = FRACTION_TRANSPARENT then None
      else let bounds0 = node_geometry n;
               bounds1 = (case Option.bind (effect_shadow (node_effects n)) (\<lambda>s. shadow_bounds s bounds0) of
                            Some shadow \<Rightarrow> rect_union bounds0 shadow | None \<Rightarrow> bounds0);
               bounds2 = (case Option.bind (node_focus_outline n) (\<lambda>f. outline_bounds f (node_geometry n)) of
                            Some outline \<Rightarrow> rect_union bounds1 outline | None \<Rightarrow> bounds1)
           in rect_intersection bounds2 viewport)"

definition samples_background :: "scene_node \<Rightarrow> bool" where
  "samples_background n \<longleftrightarrow> effect_backdrop_blur (node_effects n) \<noteq> None"

section \<open>Snapshots\<close>

record scene_surface_submission =
  submission_surface :: surface_id
  submission_view :: view_id
  submission_bounds :: rect

record 'm scene_snapshot =
  scene_workspace :: workspace_id
  scene_viewport :: rect
  scene_nodes :: "scene_node list"
  scene_contents :: "'m surface_content list"
  scene_draw_indices :: "nat list"
  scene_submitted :: "scene_surface_submission list"

definition contents_for :: "'m scene_snapshot \<Rightarrow> scene_node \<Rightarrow> scene_panic + 'm surface_content list" where
  "contents_for scene n =
     (case span_range (node_content n) of
        None \<Rightarrow> Inl SpanOutOfTable
      | Some (start, stop) \<Rightarrow>
          if stop \<le> length (scene_contents scene)
          then Inr (take (stop - start) (drop start (scene_contents scene)))
          else Inl SpanOutOfTable)"

text \<open>The draw order indexes the node table with \<open>u32\<close> indices.\<close>

definition scene_draw_order :: "'m scene_snapshot \<Rightarrow> scene_node list" where
  "scene_draw_order scene = map (\<lambda>i. scene_nodes scene ! i) (scene_draw_indices scene)"

definition content_destination :: "scene_node \<Rightarrow> 'm surface_content \<Rightarrow> rect" where
  "content_destination n c =
     rect_translated (local_geometry c) (rect_x (node_geometry n)) (rect_y (node_geometry n))"

definition join_bounds :: "rect option \<Rightarrow> rect \<Rightarrow> rect option" where
  "join_bounds bounds r = Some (case bounds of Some b \<Rightarrow> rect_union b r | None \<Rightarrow> r)"

fun add_popup_bounds :: "rect \<Rightarrow> scene_node \<Rightarrow> 'm surface_content list \<Rightarrow> rect option \<Rightarrow> rect option" where
  "add_popup_bounds viewport n [] bounds = bounds"
| "add_popup_bounds viewport n (c # cs) bounds =
     (if content_layer c = LayerPopup
      then (case rect_intersection (content_destination n c) viewport of
              None \<Rightarrow> add_popup_bounds viewport n cs bounds
            | Some popup \<Rightarrow> add_popup_bounds viewport n cs (join_bounds bounds popup))
      else add_popup_bounds viewport n cs bounds)"

definition scene_visual_bounds :: "'m scene_snapshot \<Rightarrow> scene_node \<Rightarrow> scene_panic + rect option" where
  "scene_visual_bounds scene n =
     (let bounds = node_visual_bounds n (scene_viewport scene)
      in if effect_opacity (node_effects n) = FRACTION_TRANSPARENT then Inr None
         else bind_ok (contents_for scene n)
                (\<lambda>cs. Inr (add_popup_bounds (scene_viewport scene) n cs bounds)))"

definition submitted_content_bounds :: "'m scene_snapshot \<Rightarrow> scene_node \<Rightarrow> 'm surface_content \<Rightarrow> rect option" where
  "submitted_content_bounds scene n c =
     (case content_layer c of
        LayerView \<Rightarrow> Option.bind (placement_visible (node_placement n))
                       (rect_intersection (content_destination n c))
      | LayerPopup \<Rightarrow> rect_intersection (content_destination n c) (scene_viewport scene))"

text \<open>The hash map of submissions: the values, keyed by their surface. Its iteration order does not
  matter, since the values are sorted by their key at the end.\<close>

fun submit_surface ::
  "surface_id \<Rightarrow> view_id \<Rightarrow> rect \<Rightarrow> scene_surface_submission list \<Rightarrow> scene_surface_submission list" where
  "submit_surface s v b [] =
     [\<lparr>submission_surface = s, submission_view = v, submission_bounds = b\<rparr>]"
| "submit_surface s v b (e # es) =
     (if submission_surface e = s
      then e\<lparr>submission_view := v, submission_bounds := rect_union (submission_bounds e) b\<rparr> # es
      else e # submit_surface s v b es)"

fun submit_contents ::
  "'m scene_snapshot \<Rightarrow> scene_node \<Rightarrow> 'm surface_content list \<Rightarrow>
   scene_surface_submission list \<Rightarrow> scene_surface_submission list" where
  "submit_contents scene n [] subs = subs"
| "submit_contents scene n (c # cs) subs =
     (case submitted_content_bounds scene n c of
        None \<Rightarrow> submit_contents scene n cs subs
      | Some b \<Rightarrow> submit_contents scene n cs
                    (submit_surface (content_surface c) (node_view_id n) b subs))"

definition submit_node ::
  "'m scene_snapshot \<Rightarrow> scene_node \<Rightarrow> scene_surface_submission list \<Rightarrow>
   scene_panic + scene_surface_submission list" where
  "submit_node scene n subs =
     bind_ok (scene_visual_bounds scene n)
       (\<lambda>bounds. case bounds of
          None \<Rightarrow> Inr subs
        | Some _ \<Rightarrow> bind_ok (contents_for scene n) (\<lambda>cs. Inr (submit_contents scene n cs subs)))"

definition build_surface_submissions ::
  "'m scene_snapshot \<Rightarrow> scene_panic + scene_surface_submission list" where
  "build_surface_submissions scene =
     bind_ok (fold_ok (submit_node scene) (scene_draw_order scene) [])
       (\<lambda>subs. Inr (sort_key submission_surface subs))"

definition span_in_table :: "'m surface_content list \<Rightarrow> scene_node \<Rightarrow> bool" where
  "span_in_table contents n =
     (case span_range (node_content n) of None \<Rightarrow> False | Some (start, stop) \<Rightarrow> stop \<le> length contents)"

definition scene_with_content ::
  "workspace_id \<Rightarrow> rect \<Rightarrow> scene_node list \<Rightarrow> 'm surface_content list \<Rightarrow>
   scene_panic + 'm scene_snapshot" where
  "scene_with_content ws viewport nodes0 contents =
     (if \<not> list_all (span_in_table contents) nodes0 then Inl AssertFailed
      else let nodes = sort_key node_view_id nodes0;
               order = sort_key (\<lambda>i. (node_stacking_order (nodes ! i), node_view_id (nodes ! i)))
                         (map (\<lambda>i. min i 4294967295) [0..<length nodes]);
               scene = \<lparr>scene_workspace = ws, scene_viewport = viewport, scene_nodes = nodes,
                        scene_contents = contents, scene_draw_indices = order, scene_submitted = []\<rparr>
           in bind_ok (build_surface_submissions scene)
                (\<lambda>subs. Inr (scene\<lparr>scene_submitted := subs\<rparr>)))"

definition scene_new ::
  "workspace_id \<Rightarrow> rect \<Rightarrow> scene_node list \<Rightarrow> scene_panic + 'm scene_snapshot" where
  "scene_new ws viewport nodes = scene_with_content ws viewport nodes []"

text \<open>\<open>seen.insert(id)\<close> keeps the first occurrence of each buffer.\<close>

fun first_seen :: "surface_buffer_id list \<Rightarrow> surface_buffer_id list \<Rightarrow> surface_buffer_id list" where
  "first_seen seen [] = []"
| "first_seen seen (b # bs) =
     (if b \<in> set seen then first_seen seen bs else b # first_seen (b # seen) bs)"

definition buffer_ids :: "'m scene_snapshot \<Rightarrow> surface_buffer_id list" where
  "buffer_ids scene = first_seen [] (map content_buffer (scene_contents scene))"

section \<open>Rectangles inside a viewport\<close>

definition in_view :: "rect \<Rightarrow> rect \<Rightarrow> bool" where
  "in_view v r \<longleftrightarrow> rect_ok r \<and> rect_contains_rect v r \<and> \<not> rect_empty r"

lemma in_view_intersection:
  assumes "rect_ok a" "rect_ok v" "rect_intersection a v = Some c"
  shows "in_view v c"
  using rect_intersection_Some[OF assms] rect_intersection_within[OF assms]
  by (auto simp: in_view_def rect_empty_def)

lemma in_view_intersection_clip:
  assumes "rect_ok v" "rect_ok a" "rect_ok w" "rect_contains_rect v w" "rect_intersection a w = Some c"
  shows "in_view v c"
  using in_view_intersection[OF assms(2,3,5)] assms(4) rect_contains_rect_trans
  by (auto simp: in_view_def)

lemma in_view_union:
  assumes "rect_ok v" "in_view v a" "in_view v b"
  shows "in_view v (rect_union a b)" "rect_contains_rect (rect_union a b) a"
    "rect_contains_rect (rect_union a b) b"
proof -
  have ok: "rect_ok a" "rect_ok b" and fits: "union_fits a b"
    using assms union_fits_within[OF assms(1)] by (auto simp: in_view_def)
  show c: "rect_contains_rect (rect_union a b) a" "rect_contains_rect (rect_union a b) b"
    using rect_union_contains[OF ok fits] by auto
  have "\<not> rect_empty (rect_union a b)"
    using c(1) assms(2) by (auto simp: in_view_def rect_empty_def rect_contains_rect_def)
  moreover have "rect_contains_rect v (rect_union a b)"
    using assms(2,3) by (intro rect_union_least[OF ok fits]) (auto simp: in_view_def)
  ultimately show "in_view v (rect_union a b)"
    using rect_union_ok[OF ok] by (simp add: in_view_def)
qed

lemma in_view_pixels: "in_view v r \<Longrightarrow> pixel_set r \<subseteq> pixel_set v"
  by (auto simp: in_view_def dest: rect_contains_rect_pixels)

section \<open>Well-formed snapshots\<close>

text \<open>What extraction establishes of a node: rectangles of the machine types, the visible part of
  the placement inside the viewport, and a content span inside the table.\<close>

definition node_ok :: "rect \<Rightarrow> 'm surface_content list \<Rightarrow> scene_node \<Rightarrow> bool" where
  "node_ok v contents n \<longleftrightarrow>
     rect_ok (node_geometry n) \<and>
     (case placement_visible (node_placement n) of None \<Rightarrow> True
      | Some r \<Rightarrow> rect_ok r \<and> rect_contains_rect v r) \<and>
     (case node_backdrop_region n of None \<Rightarrow> True | Some rs \<Rightarrow> list_all rect_ok rs) \<and>
     span_in_table contents n"

definition nodes_ok :: "rect \<Rightarrow> scene_node list \<Rightarrow> 'm surface_content list \<Rightarrow> bool" where
  "nodes_ok v nodes contents \<longleftrightarrow>
     rect_ok v \<and> list_all (node_ok v contents) nodes \<and> distinct (map node_view_id nodes) \<and>
     int (length nodes) \<le> U32_MAX \<and> list_all (\<lambda>c. rect_ok (local_geometry c)) contents"

definition scene_ok :: "'m scene_snapshot \<Rightarrow> bool" where
  "scene_ok scene \<longleftrightarrow>
     nodes_ok (scene_viewport scene) (scene_nodes scene) (scene_contents scene) \<and>
     sorted (map node_view_id (scene_nodes scene))"

lemma scene_okD:
  assumes "scene_ok scene"
  shows "rect_ok (scene_viewport scene)"
    "n \<in> set (scene_nodes scene) \<Longrightarrow> node_ok (scene_viewport scene) (scene_contents scene) n"
    "c \<in> set (scene_contents scene) \<Longrightarrow> rect_ok (local_geometry c)"
  using assms by (auto simp: scene_ok_def nodes_ok_def list_all_iff)

lemma node_bounds_ok:
  assumes "rect_ok (node_geometry n)" "rect_ok v" "node_visual_bounds n v = Some r"
  shows "in_view v r"
proof -
  note ok = assms(1)[THEN rect_inflated_ok] assms(1)[THEN rect_translated_ok, THEN rect_inflated_ok]
  define b1 where "b1 = (case Option.bind (effect_shadow (node_effects n)) (\<lambda>s. shadow_bounds s (node_geometry n)) of
      Some shadow \<Rightarrow> rect_union (node_geometry n) shadow | None \<Rightarrow> node_geometry n)"
  define b2 where "b2 = (case Option.bind (node_focus_outline n) (\<lambda>f. outline_bounds f (node_geometry n)) of
      Some outline \<Rightarrow> rect_union b1 outline | None \<Rightarrow> b1)"
  have "rect_ok b1"
    using assms(1) ok by (auto simp: b1_def shadow_bounds_def rect_union_ok split: option.splits bind_splits)
  then have "rect_ok b2"
    using ok by (auto simp: b2_def outline_bounds_def rect_union_ok split: option.splits bind_splits)
  moreover have "rect_intersection b2 v = Some r"
    using assms(3) unfolding node_visual_bounds_def Let_def b2_def b1_def by (simp split: if_splits)
  ultimately show ?thesis using in_view_intersection[OF _ assms(2)] by blast
qed

lemma contents_for_ok:
  assumes "span_in_table (scene_contents scene) n"
  obtains cs where "contents_for scene n = Inr cs" "set cs \<subseteq> set (scene_contents scene)"
proof -
  have sub: "set (take k (drop j xs)) \<subseteq> set xs" for k j and xs :: "'a surface_content list"
    by (auto dest!: in_set_takeD in_set_dropD)
  show thesis
    using assms sub that by (auto simp: span_in_table_def contents_for_def split: option.splits)
qed

lemma content_destination_ok:
  "rect_ok (local_geometry c) \<Longrightarrow> rect_ok (content_destination n c)"
  by (simp add: content_destination_def rect_translated_ok)

text \<open>The popups only enlarge the bounds, inside the viewport, and each of them is covered.\<close>

lemma add_popup_bounds_spec:
  assumes v: "rect_ok v" and cs: "\<forall>c \<in> set cs. rect_ok (local_geometry c)"
    and b: "\<forall>r. b = Some r \<longrightarrow> in_view v r"
  shows "(\<forall>r. add_popup_bounds v n cs b = Some r \<longrightarrow> in_view v r) \<and>
    (\<forall>r. b = Some r \<longrightarrow> (\<exists>r'. add_popup_bounds v n cs b = Some r' \<and> rect_contains_rect r' r)) \<and>
    (\<forall>c \<in> set cs. \<forall>p. content_layer c = LayerPopup \<and> rect_intersection (content_destination n c) v = Some p \<longrightarrow>
       (\<exists>r'. add_popup_bounds v n cs b = Some r' \<and> rect_contains_rect r' p))"
  using cs b
proof (induction cs arbitrary: b)
  case Nil
  then show ?case by simp
next
  case (Cons c cs)
  show ?case
  proof (cases "content_layer c = LayerPopup \<and> rect_intersection (content_destination n c) v \<noteq> None")
    case False
    then have e: "add_popup_bounds v n (c # cs) b = add_popup_bounds v n cs b" by auto
    show ?thesis using Cons.IH[of b] Cons.prems False unfolding e by auto
  next
    case True
    then obtain p where p: "content_layer c = LayerPopup" "rect_intersection (content_destination n c) v = Some p"
      by blast
    have pv: "in_view v p"
      using Cons.prems(1) by (intro in_view_intersection[OF content_destination_ok v p(2)]) simp
    obtain q where q: "join_bounds b p = Some q" "in_view v q" "rect_contains_rect q p"
      "\<forall>r. b = Some r \<longrightarrow> rect_contains_rect q r"
      using pv Cons.prems(2) in_view_union[OF v _ pv] by (cases b) (auto simp: join_bounds_def)
    have e: "add_popup_bounds v n (c # cs) b = add_popup_bounds v n cs (Some q)"
      using p q(1) by simp
    have ih: "\<forall>r. add_popup_bounds v n cs (Some q) = Some r \<longrightarrow> in_view v r"
      "\<exists>r'. add_popup_bounds v n cs (Some q) = Some r' \<and> rect_contains_rect r' q"
      "\<forall>c \<in> set cs. \<forall>p. content_layer c = LayerPopup \<and> rect_intersection (content_destination n c) v = Some p \<longrightarrow>
         (\<exists>r'. add_popup_bounds v n cs (Some q) = Some r' \<and> rect_contains_rect r' p)"
      using Cons.IH[of "Some q"] Cons.prems(1) q(2) by auto
    then obtain r' where r': "add_popup_bounds v n cs (Some q) = Some r'" "rect_contains_rect r' q" by blast
    have "rect_contains_rect r' p" "\<forall>r. b = Some r \<longrightarrow> rect_contains_rect r' r"
      using r'(2) q(3,4) rect_contains_rect_trans by blast+
    then show ?thesis unfolding e using ih(1,3) r'(1) p(2) by auto
  qed
qed

lemma scene_visual_bounds_ok:
  assumes "scene_ok scene" "n \<in> set (scene_nodes scene)"
  obtains b where "scene_visual_bounds scene n = Inr b" "\<forall>r. b = Some r \<longrightarrow> in_view (scene_viewport scene) r"
proof -
  have n: "rect_ok (node_geometry n)" "span_in_table (scene_contents scene) n"
    using scene_okD(2)[OF assms] by (auto simp: node_ok_def)
  obtain cs where cs: "contents_for scene n = Inr cs" "set cs \<subseteq> set (scene_contents scene)"
    by (rule contents_for_ok[OF n(2)])
  have rects: "\<forall>c \<in> set cs. rect_ok (local_geometry c)"
    using cs(2) scene_okD(3)[OF assms(1)] by auto
  have "\<forall>r. add_popup_bounds (scene_viewport scene) n cs (node_visual_bounds n (scene_viewport scene)) = Some r
      \<longrightarrow> in_view (scene_viewport scene) r"
    using add_popup_bounds_spec[OF scene_okD(1)[OF assms(1)] rects, of "node_visual_bounds n (scene_viewport scene)" n]
      node_bounds_ok[OF n(1) scene_okD(1)[OF assms(1)]] by auto
  then show thesis
    using that cs(1)
    by (cases "effect_opacity (node_effects n) = FRACTION_TRANSPARENT")
      (auto simp: scene_visual_bounds_def Let_def)
qed

section \<open>Submitted surfaces\<close>

text \<open>The specification: what each drawn node shows, back to front, as triples of a surface, the
  view and the visible bounds of the content.\<close>

type_synonym shown = "surface_id \<times> view_id \<times> rect"

definition shown_contents :: "'m scene_snapshot \<Rightarrow> scene_node \<Rightarrow> 'm surface_content list \<Rightarrow> shown list" where
  "shown_contents scene n cs =
     List.map_filter (\<lambda>c. map_option (\<lambda>b. (content_surface c, node_view_id n, b))
       (submitted_content_bounds scene n c)) cs"

definition shown_by :: "'m scene_snapshot \<Rightarrow> scene_node \<Rightarrow> shown list" where
  "shown_by scene n =
     (case scene_visual_bounds scene n of
        Inr (Some _) \<Rightarrow>
          (case contents_for scene n of Inr cs \<Rightarrow> shown_contents scene n cs | Inl _ \<Rightarrow> [])
      | _ \<Rightarrow> [])"

definition shown_in :: "'m scene_snapshot \<Rightarrow> shown list" where
  "shown_in scene = concat (map (shown_by scene) (scene_draw_order scene))"

definition submit_all :: "shown list \<Rightarrow> scene_surface_submission list \<Rightarrow> scene_surface_submission list" where
  "submit_all = fold (\<lambda>(s, v, b). submit_surface s v b)"

lemma submit_contents_eq: "submit_contents scene n cs subs = submit_all (shown_contents scene n cs) subs"
  by (induction cs arbitrary: subs)
    (auto simp: shown_contents_def submit_all_def List.map_filter_def split: option.splits)

lemma submit_node_eq:
  assumes "scene_ok scene" "n \<in> set (scene_nodes scene)"
  shows "submit_node scene n subs = Inr (submit_all (shown_by scene n) subs)"
proof -
  obtain b where b: "scene_visual_bounds scene n = Inr b"
    using scene_visual_bounds_ok[OF assms] by blast
  have "span_in_table (scene_contents scene) n"
    using scene_okD(2)[OF assms] by (simp add: node_ok_def)
  then obtain cs where "contents_for scene n = Inr cs" using contents_for_ok by blast
  then show ?thesis
    using b by (auto simp: submit_node_def shown_by_def submit_contents_eq submit_all_def split: option.splits)
qed

lemma fold_ok_submit:
  assumes "scene_ok scene" "set ns \<subseteq> set (scene_nodes scene)"
  shows "fold_ok (submit_node scene) ns subs = Inr (submit_all (concat (map (shown_by scene) ns)) subs)"
  using assms(2)
  by (induction ns arbitrary: subs) (auto simp: submit_node_eq[OF assms(1)] submit_all_def)

lemma submit_surface_keys:
  "map submission_surface (submit_surface s v b subs) =
     map submission_surface subs @ (if s \<in> submission_surface ` set subs then [] else [s])"
  by (induction subs) auto

lemma submit_surface_mem:
  assumes "distinct (map submission_surface subs)" "e \<in> set (submit_surface s v b subs)"
  shows "(submission_surface e \<noteq> s \<and> e \<in> set subs) \<or>
    (submission_surface e = s \<and> submission_view e = v \<and>
      (submission_bounds e = b \<and> s \<notin> submission_surface ` set subs \<or>
       (\<exists>o' \<in> set subs. submission_surface o' = s \<and>
          submission_bounds e = rect_union (submission_bounds o') b)))"
  using assms
proof (induction subs)
  case (Cons a subs)
  show ?case
  proof (cases "submission_surface a = s")
    case True
    then have "submission_surface e \<noteq> s" if "e \<in> set subs" using Cons.prems(1) that by (force simp: image_iff)
    then show ?thesis using Cons.prems(2) True by auto
  next
    case False
    then show ?thesis using Cons by auto
  qed
qed simp

text \<open>The table after submitting a list of shown contents: one entry per surface, with the view
  that showed it last and bounds that cover everything shown of it.\<close>

definition table_for :: "rect \<Rightarrow> shown list \<Rightarrow> scene_surface_submission list \<Rightarrow> bool" where
  "table_for vp xs subs \<longleftrightarrow>
     distinct (map submission_surface subs) \<and>
     submission_surface ` set subs = fst ` set xs \<and>
     (\<forall>e \<in> set subs. in_view vp (submission_bounds e) \<and>
        submission_view e = fst (snd (last (filter (\<lambda>x. fst x = submission_surface e) xs))) \<and>
        (\<forall>x \<in> set xs. fst x = submission_surface e \<longrightarrow>
           rect_contains_rect (submission_bounds e) (snd (snd x))))"

lemma table_for_snoc:
  assumes vp: "rect_ok vp" and T: "table_for vp xs subs" and b: "in_view vp b"
  shows "table_for vp (xs @ [(s, v, b)]) (submit_surface s v b subs)"
proof -
  let ?new = "submit_surface s v b subs"
  have d: "distinct (map submission_surface subs)" and keys: "submission_surface ` set subs = fst ` set xs"
    using T by (auto simp: table_for_def)
  have k: "map submission_surface ?new =
      map submission_surface subs @ (if s \<in> submission_surface ` set subs then [] else [s])"
    by (rule submit_surface_keys)
  have "distinct (map submission_surface ?new)" unfolding k using d by auto
  moreover have "submission_surface ` set ?new = fst ` set (xs @ [(s, v, b)])"
  proof -
    have "submission_surface ` set ?new = set (map submission_surface ?new)" by simp
    also have "\<dots> = fst ` set xs \<union> {s}" unfolding k using keys by auto
    finally show ?thesis by auto
  qed
  moreover have "in_view vp (submission_bounds e) \<and>
      submission_view e = fst (snd (last (filter (\<lambda>x. fst x = submission_surface e) (xs @ [(s, v, b)])))) \<and>
      (\<forall>x \<in> set (xs @ [(s, v, b)]). fst x = submission_surface e \<longrightarrow>
         rect_contains_rect (submission_bounds e) (snd (snd x)))" if e: "e \<in> set ?new" for e
    using submit_surface_mem[OF d e]
  proof (elim disjE conjE bexE)
    assume "submission_surface e \<noteq> s" "e \<in> set subs"
    then show ?thesis using T by (auto simp: table_for_def)
  next
    assume es: "submission_surface e = s" "submission_view e = v"
      and "submission_bounds e = b" "s \<notin> submission_surface ` set subs"
    then show ?thesis using b keys by force
  next
    fix old
    assume es: "submission_surface e = s" "submission_view e = v"
      and old: "old \<in> set subs" "submission_surface old = s"
      and u: "submission_bounds e = rect_union (submission_bounds old) b"
    have o: "in_view vp (submission_bounds old)"
      "\<forall>x \<in> set xs. fst x = s \<longrightarrow> rect_contains_rect (submission_bounds old) (snd (snd x))"
      using T old by (auto simp: table_for_def)
    show ?thesis
      using in_view_union[OF vp o(1) b] o(2) es u rect_contains_rect_trans by fastforce
  qed
  ultimately show ?thesis by (auto simp: table_for_def)
qed

lemma table_for_submit_all:
  assumes "rect_ok vp" "\<forall>x \<in> set xs. in_view vp (snd (snd x))"
  shows "table_for vp xs (submit_all xs [])"
  using assms(2)
proof (induction xs rule: rev_induct)
  case Nil
  then show ?case by (simp add: table_for_def submit_all_def)
next
  case (snoc x xs)
  obtain s v b where x: "x = (s, v, b)" by (cases x) auto
  have "table_for vp (xs @ [(s, v, b)]) (submit_surface s v b (submit_all xs []))"
    using snoc x by (intro table_for_snoc[OF assms(1)]) auto
  then show ?case by (simp add: x submit_all_def)
qed

lemma table_for_sort: "table_for vp xs subs \<Longrightarrow> table_for vp xs (sort_key f subs)"
  by (simp add: table_for_def distinct_map)

lemma shown_by_in_view:
  assumes ok: "scene_ok scene" and n: "n \<in> set (scene_nodes scene)" and x: "x \<in> set (shown_by scene n)"
  shows "in_view (scene_viewport scene) (snd (snd x))"
proof -
  have nok: "node_ok (scene_viewport scene) (scene_contents scene) n"
    by (rule scene_okD(2)[OF ok n])
  obtain cs where cs: "contents_for scene n = Inr cs" "set cs \<subseteq> set (scene_contents scene)"
    using contents_for_ok nok unfolding node_ok_def by metis
  then obtain c b where c: "c \<in> set cs" "submitted_content_bounds scene n c = Some b" "snd (snd x) = b"
    using x by (auto simp: shown_by_def shown_contents_def List.map_filter_def split: sum.splits option.splits)
  have d: "rect_ok (content_destination n c)"
    using c(1) cs(2) scene_okD(3)[OF ok] by (intro content_destination_ok) auto
  show ?thesis
    using c(2,3) nok in_view_intersection[OF d scene_okD(1)[OF ok]]
      in_view_intersection_clip[OF scene_okD(1)[OF ok] d]
    by (auto simp: submitted_content_bounds_def node_ok_def bind_eq_Some_conv split: surface_layer.splits)
qed

lemma submitted_update_simps [simp]:
  "contents_for (scene\<lparr>scene_submitted := subs\<rparr>) = contents_for scene"
  "scene_visual_bounds (scene\<lparr>scene_submitted := subs\<rparr>) = scene_visual_bounds scene"
  "submitted_content_bounds (scene\<lparr>scene_submitted := subs\<rparr>) = submitted_content_bounds scene"
  "scene_draw_order (scene\<lparr>scene_submitted := subs\<rparr>) = scene_draw_order scene"
  "scene_ok (scene\<lparr>scene_submitted := subs\<rparr>) = scene_ok scene"
proof -
  show c: "contents_for (scene\<lparr>scene_submitted := subs\<rparr>) = contents_for scene"
    by (simp add: fun_eq_iff contents_for_def cong: option.case_cong if_cong)
  show "scene_visual_bounds (scene\<lparr>scene_submitted := subs\<rparr>) = scene_visual_bounds scene"
    by (simp add: fun_eq_iff scene_visual_bounds_def c)
  show "submitted_content_bounds (scene\<lparr>scene_submitted := subs\<rparr>) = submitted_content_bounds scene"
    by (auto simp: fun_eq_iff submitted_content_bounds_def split: surface_layer.splits)
qed (simp_all add: scene_draw_order_def scene_ok_def)

lemma shown_in_update [simp]: "shown_in (scene\<lparr>scene_submitted := subs\<rparr>) = shown_in scene"
  by (simp add: shown_in_def shown_by_def[abs_def] shown_contents_def cong: sum.case_cong option.case_cong)

lemma build_surface_submissions_ok:
  assumes "scene_ok scene" "set (scene_draw_order scene) \<subseteq> set (scene_nodes scene)"
  shows "\<exists>subs. build_surface_submissions scene = Inr subs \<and>
    sorted (map submission_surface subs) \<and> table_for (scene_viewport scene) (shown_in scene) subs"
proof -
  have "\<forall>x \<in> set (shown_in scene). in_view (scene_viewport scene) (snd (snd x))"
    using assms shown_by_in_view[OF assms(1)] unfolding shown_in_def by fastforce
  then have "table_for (scene_viewport scene) (shown_in scene)
      (sort_key submission_surface (submit_all (shown_in scene) []))"
    by (intro table_for_sort table_for_submit_all scene_okD(1)[OF assms(1)])
  then show ?thesis
    using fold_ok_submit[OF assms] by (simp add: build_surface_submissions_def shown_in_def)
qed

text \<open>The painter's order: by stacking order, then by view.\<close>

definition paint_key :: "scene_node \<Rightarrow> u64 \<times> view_id" where
  "paint_key n = (node_stacking_order n, node_view_id n)"

lemma draw_indices_order:
  assumes "int (length nodes) \<le> U32_MAX"
  shows "let order = map (\<lambda>i. nodes ! i) (sort_key (\<lambda>i. (node_stacking_order (nodes ! i), node_view_id (nodes ! i)))
      (map (\<lambda>i. min i 4294967295) [0..<length nodes]))
    in mset order = mset nodes \<and> sorted (map paint_key order)"
proof -
  have idx: "map (\<lambda>i. min i 4294967295) [0..<length nodes] = [0..<length nodes]"
    using assms by (intro map_idI) auto
  let ?o = "sort_key (\<lambda>i. (node_stacking_order (nodes ! i), node_view_id (nodes ! i))) [0..<length nodes]"
  have "mset (map (\<lambda>i. nodes ! i) ?o) = mset (map (\<lambda>i. nodes ! i) [0..<length nodes])"
    by (simp only: mset_map mset_sort)
  moreover have "sorted (map (\<lambda>i. paint_key (nodes ! i)) ?o)"
    unfolding paint_key_def by (rule sorted_sort_key)
  ultimately show ?thesis by (simp only: idx Let_def map_nth map_map comp_def)
qed

lemma nodes_ok_sort: "nodes_ok vp nodes contents \<Longrightarrow> nodes_ok vp (sort_key f nodes) contents"
  by (auto simp: nodes_ok_def list_all_iff distinct_map)

section \<open>Properties\<close>

lemma scene_with_content_ok:
  assumes "nodes_ok vp nodes contents"
  shows "\<exists>scene. scene_with_content ws vp nodes contents = Inr scene \<and> scene_ok scene \<and>
     scene_workspace scene = ws \<and> scene_viewport scene = vp \<and> scene_contents scene = contents \<and>
     scene_nodes scene = sort_key node_view_id nodes \<and> mset (scene_draw_order scene) = mset nodes \<and>
     sorted (map paint_key (scene_draw_order scene)) \<and>
     sorted (map submission_surface (scene_submitted scene)) \<and>
     table_for vp (shown_in scene) (scene_submitted scene)"
proof -
  define ns where "ns = sort_key node_view_id nodes"
  define order where "order = sort_key (\<lambda>i. (node_stacking_order (ns ! i), node_view_id (ns ! i)))
      (map (\<lambda>i. min i 4294967295) [0..<length ns])"
  define scene where "scene = \<lparr>scene_workspace = ws, scene_viewport = vp, scene_nodes = ns,
      scene_contents = contents, scene_draw_indices = order, scene_submitted = []\<rparr>"
  have fields: "scene_nodes scene = ns" "scene_viewport scene = vp" "scene_workspace scene = ws"
    "scene_contents scene = contents" by (simp_all add: scene_def)
  have spans: "list_all (span_in_table contents) nodes"
    using assms by (auto simp: nodes_ok_def list_all_iff node_ok_def)
  have ok: "scene_ok scene"
    using nodes_ok_sort[OF assms] by (simp add: scene_ok_def scene_def ns_def)
  have draw: "mset (scene_draw_order scene) = mset ns" "sorted (map paint_key (scene_draw_order scene))"
    using draw_indices_order[of ns] assms
    by (simp_all add: scene_draw_order_def scene_def order_def ns_def nodes_ok_def Let_def)
  have "set (scene_draw_order scene) \<subseteq> set (scene_nodes scene)"
    using draw(1) by (metis scene_def scene_snapshot.select_convs(3) set_mset_mset subset_refl)
  then obtain subs where subs: "build_surface_submissions scene = Inr subs"
    "sorted (map submission_surface subs)" "table_for vp (shown_in scene) subs"
    using build_surface_submissions_ok[OF ok] by (auto simp: scene_def)
  have "scene\<lparr>scene_submitted := subs\<rparr> = \<lparr>scene_workspace = ws, scene_viewport = vp, scene_nodes = ns,
      scene_contents = contents, scene_draw_indices = order, scene_submitted = subs\<rparr>"
    by (simp add: scene_def)
  then have "scene_with_content ws vp nodes contents = Inr (scene\<lparr>scene_submitted := subs\<rparr>)"
    using spans subs(1)
    by (simp add: scene_with_content_def Let_def ns_def[symmetric] order_def[symmetric] scene_def[symmetric])
  then show ?thesis
    using ok draw subs(2,3) fields by (intro exI[of _ "scene\<lparr>scene_submitted := subs\<rparr>"]) (simp add: ns_def)
qed

text \<open>C26. Building a snapshot from well-formed nodes never panics. The node table is the given nodes
  in view order, the draw order is the same nodes from back to front, and the submission table lists
  exactly the surfaces of which some pixel is shown: once each, sorted, credited to the topmost view
  that shows it, with bounds inside the viewport that cover all its shown content.\<close>

theorem scene_submissions_exact:
  assumes "nodes_ok vp nodes contents"
  shows "\<exists>scene. scene_with_content ws vp nodes contents = Inr scene \<and> scene_ok scene \<and>
     mset (scene_nodes scene) = mset nodes \<and> mset (scene_draw_order scene) = mset nodes \<and>
     sorted (map paint_key (scene_draw_order scene)) \<and>
     sorted (map submission_surface (scene_submitted scene)) \<and>
     table_for vp (shown_in scene) (scene_submitted scene)"
  using scene_with_content_ok[OF assms, of ws] mset_sort[of node_view_id nodes] by metis

text \<open>A scene of two overlapping views that show the same surface: the upper view gets it.\<close>

definition demo_content :: "surface_id \<Rightarrow> rect \<Rightarrow> unit surface_content" where
  "demo_content s g = \<lparr>content_surface = s, content_buffer = s, content_revision = 1,
     content_layer = LayerView, content_alpha = OPAQUE, content_color = default_color_state,
     local_geometry = g, sample_transform = ()\<rparr>"

definition demo_node :: "view_id \<Rightarrow> u64 \<Rightarrow> rect \<Rightarrow> nat \<Rightarrow> nat \<Rightarrow> scene_node" where
  "demo_node v z g start len =
     node_with_content (scene_node_new v z (layout_placement_new g (Rect 0 0 100 100)) default_effects)
       \<lparr>span_start = start, span_len = len\<rparr>"

lemmas demo_simps = demo_node_def demo_content_def node_with_content_def scene_node_new_def
  layout_placement_new_def node_geometry_def rect_intersection_def rect_right_def rect_bottom_def
  rect_contains_rect_def rect_ok_def as_u32_def machine_defs Let_def

lemma demo_nodes_ok:
  "nodes_ok (Rect 0 0 100 100)
     [demo_node 2 1 (Rect 10 10 40 40) 0 1, demo_node 1 2 (Rect 30 30 40 90) 1 1]
     [demo_content 7 (Rect 0 0 40 40), demo_content 7 (Rect 0 0 40 90)]"
  by (simp add: nodes_ok_def node_ok_def span_in_table_def span_range_def demo_simps)

theorem scene_submissions_exact_witness:
  "\<exists>scene. scene_with_content 1 (Rect 0 0 100 100)
       [demo_node 2 1 (Rect 10 10 40 40) 0 1, demo_node 1 2 (Rect 30 30 40 90) 1 1]
       [demo_content 7 (Rect 0 0 40 40), demo_content 7 (Rect 0 0 40 90)] = Inr scene \<and>
     table_for (Rect 0 0 100 100) (shown_in scene) (scene_submitted scene)"
  using scene_submissions_exact[OF demo_nodes_ok, of 1] by blast

end
