(* ===== verification/Scene_Damage.thy ===== *)
theory Scene_Damage
  imports Scene_Model Output_Scale
begin

text \<open>
  Incremental repaint, \<^verbatim>\<open>apps/tensor-wm/src/scene/damage.rs\<close>: a damage set is a bounded list of
  rectangles of the viewport; two snapshots are compared node by node, and damage under a blurred
  backdrop spreads to the blurred region until nothing changes.

  The lemmas establish the contract of a damage set (\<open>damage_ok\<close>: at most 64 rectangles inside
  the viewport, none of them empty, no two of them touching), that adding a region keeps it and
  never loses a damaged pixel, that the propagation loop terminates (every round that changes
  something puts one more blurred region inside a single damage rectangle), and from these that the
  damage between two snapshots covers everything that changed.

  The loops of \<open>add\<close> and \<open>merge_cheapest_pair\<close> are total functions with a measure;
  the propagation loop is a partial function into \<open>option\<close>, where \<open>None\<close> means that
  it does not return.
\<close>

section \<open>Damage sets\<close>

type_synonym damage_set = "rect list"

definition MAX_DAMAGE_REGIONS :: nat where "MAX_DAMAGE_REGIONS = 64"
definition DAMAGE_EXTENTS_FACTOR :: u64 where "DAMAGE_EXTENTS_FACTOR = 2"

definition non_empty :: "rect \<Rightarrow> rect option" where
  "non_empty r = (if rect_width r > 0 \<and> rect_height r > 0 then Some r else None)"

text \<open>The product of two \<open>u32\<close> values fits in a \<open>u64\<close>.\<close>

definition rect_area :: "rect \<Rightarrow> u64" where
  "rect_area r = rect_width r * rect_height r"

definition damage_full :: "rect \<Rightarrow> damage_set" where
  "damage_full viewport = (case non_empty viewport of None \<Rightarrow> [] | Some r \<Rightarrow> [r])"

definition damage_is_empty :: "damage_set \<Rightarrow> bool" where
  "damage_is_empty d \<longleftrightarrow> d = []"

definition damage_is_full :: "damage_set \<Rightarrow> rect \<Rightarrow> bool" where
  "damage_is_full d viewport \<longleftrightarrow> d = [viewport]"

text \<open>The loop that merges a region with every rectangle it touches, from the start again after
  each merge; \<open>add\<close> and \<open>merge_cheapest_pair\<close> both have it.\<close>

function absorb :: "damage_set \<Rightarrow> nat \<Rightarrow> rect \<Rightarrow> rect \<times> damage_set" where
  "absorb regions index region =
     (if index < length regions
      then if rect_touches_or_overlaps (regions ! index) region
           then absorb (remove_nth index regions) 0 (rect_union region (regions ! index))
           else absorb regions (Suc index) region
      else (region, regions))"
  by pat_completeness auto
termination
  by (relation "measures [\<lambda>(regions, index, region). length regions,
        \<lambda>(regions, index, region). length regions - index]") auto

declare absorb.simps [simp del]

type_synonym merge_key = "u64 \<times> u64 \<times> nat \<times> nat"

definition index_pairs :: "nat \<Rightarrow> (nat \<times> nat) list" where
  "index_pairs n = concat (map (\<lambda>left. map (\<lambda>right. (left, right)) [Suc left..<n]) [0..<n])"

definition consider_pair ::
  "damage_set \<Rightarrow> nat \<times> nat \<Rightarrow> (merge_key \<times> rect) option \<Rightarrow> (merge_key \<times> rect) option" where
  "consider_pair regions p best =
     (let union = rect_union (regions ! fst p) (regions ! snd p);
          source_area = sat_u64 (rect_area (regions ! fst p) + rect_area (regions ! snd p));
          key = (sat_u64 (rect_area union - source_area), rect_area union, fst p, snd p)
      in case best of
           None \<Rightarrow> Some (key, union)
         | Some (current, _) \<Rightarrow> if key < current then Some (key, union) else best)"

definition cheapest_pair :: "damage_set \<Rightarrow> (merge_key \<times> rect) option" where
  "cheapest_pair regions = fold (consider_pair regions) (index_pairs (length regions)) None"

definition merge_cheapest_pair :: "damage_set \<Rightarrow> scene_panic + damage_set" where
  "merge_cheapest_pair regions =
     (case cheapest_pair regions of
        None \<Rightarrow> Inl NoPairToMerge
      | Some ((_, _, left, right), merged) \<Rightarrow>
          let (merged', rest) = absorb (remove_nth left (remove_nth right regions)) 0 merged
          in Inr (rest @ [merged']))"

lemma index_pairs_set: "set (index_pairs n) = {(l, r). l < r \<and> r < n}"
proof -
  have "set (index_pairs n) = (\<Union>l \<in> {0..<n}. Pair l ` {Suc l..<n})" by (simp add: index_pairs_def)
  moreover have "(a, b) \<in> Pair l ` {Suc l..<n} \<longleftrightarrow> l = a \<and> a < b \<and> b < n" for a b l by auto
  ultimately show ?thesis by fastforce
qed

text \<open>The chosen pair is one of the pairs, and cheapest of them.\<close>

lemma fold_consider_pair:
  assumes "fold (consider_pair regions) ps best = res"
    and "\<forall>k u. best = Some (k, u) \<longrightarrow>
          (case k of (_, _, l, r) \<Rightarrow> (l, r) \<in> P \<and> u = rect_union (regions ! l) (regions ! r))"
    and "set ps \<subseteq> P"
  shows "(\<forall>k u. res = Some (k, u) \<longrightarrow>
          (case k of (_, _, l, r) \<Rightarrow> (l, r) \<in> P \<and> u = rect_union (regions ! l) (regions ! r))) \<and>
         (ps \<noteq> [] \<or> best \<noteq> None \<longrightarrow> res \<noteq> None)"
  using assms
proof (induction ps arbitrary: best)
  case (Cons p ps)
  have "consider_pair regions p best \<noteq> None"
    by (auto simp: consider_pair_def Let_def split: option.splits)
  moreover have "\<forall>k u. consider_pair regions p best = Some (k, u) \<longrightarrow>
      (case k of (_, _, l, r) \<Rightarrow> (l, r) \<in> P \<and> u = rect_union (regions ! l) (regions ! r))"
    using Cons.prems(2,3) by (auto simp: consider_pair_def Let_def split: option.splits if_splits)
  ultimately show ?case using Cons.IH[of "consider_pair regions p best"] Cons.prems(1,3) by auto
qed auto

lemma cheapest_pair_Some:
  assumes "cheapest_pair regions = Some ((a, b, l, r), u)"
  shows "l < r" "r < length regions" "u = rect_union (regions ! l) (regions ! r)"
  using fold_consider_pair[of regions "index_pairs (length regions)" None _ "set (index_pairs (length regions))"]
    assms by (auto simp: cheapest_pair_def index_pairs_set)

lemma cheapest_pair_exists:
  assumes "2 \<le> length regions"
  shows "cheapest_pair regions \<noteq> None"
proof -
  have "(0, 1) \<in> set (index_pairs (length regions))" using assms by (auto simp: index_pairs_set)
  then have "index_pairs (length regions) \<noteq> []" by auto
  then show ?thesis
    using fold_consider_pair[of regions "index_pairs (length regions)" None _ "set (index_pairs (length regions))"]
    by (auto simp: cheapest_pair_def)
qed

lemma absorb_length: "absorb rs i r = (m, rest) \<Longrightarrow> length rest \<le> length rs"
proof (induction rs i r rule: absorb.induct)
  case (1 rs i r)
  then show ?case by (subst (asm) (3) absorb.simps) (fastforce split: if_splits)
qed

lemma merge_cheapest_pair_shrinks:
  "merge_cheapest_pair regions = Inr regions' \<Longrightarrow> length regions' < length regions"
  using cheapest_pair_Some[of regions] absorb_length
  by (fastforce simp: merge_cheapest_pair_def split: option.splits prod.splits)

function compact_loop :: "damage_set \<Rightarrow> scene_panic + damage_set" where
  "compact_loop regions =
     (if length regions > MAX_DAMAGE_REGIONS
      then case merge_cheapest_pair regions of
             Inl e \<Rightarrow> Inl e
           | Inr regions' \<Rightarrow> compact_loop regions'
      else Inr regions)"
  by pat_completeness auto
termination
  by (relation "measure length") (auto simp: merge_cheapest_pair_shrinks)

declare compact_loop.simps [simp del]

definition compact :: "damage_set \<Rightarrow> scene_panic + damage_set" where
  "compact regions =
     (case regions of
        [] \<Rightarrow> Inl EmptyCompaction
      | first # rest \<Rightarrow>
          let extents = foldl rect_union first rest;
              damaged_area = foldl (\<lambda>a r. sat_u64 (a + rect_area r)) 0 regions
          in if rect_area extents \<le> sat_u64 (damaged_area * DAMAGE_EXTENTS_FACTOR)
             then Inr [extents]
             else compact_loop regions)"

definition damage_add :: "rect \<Rightarrow> rect \<Rightarrow> damage_set \<Rightarrow> scene_panic + damage_set" where
  "damage_add region viewport regions =
     (case rect_intersection region viewport of
        None \<Rightarrow> Inr regions
      | Some clipped \<Rightarrow>
          let (region', rest) = absorb regions 0 clipped;
              regions' = rest @ [region']
          in if length regions' > MAX_DAMAGE_REGIONS then compact regions' else Inr regions')"

definition damage_sort :: "damage_set \<Rightarrow> damage_set" where
  "damage_sort = sort_key (\<lambda>r. (rect_y r, rect_x r))"

definition damage_add_region :: "rect \<Rightarrow> rect \<Rightarrow> damage_set \<Rightarrow> scene_panic + damage_set" where
  "damage_add_region region viewport d =
     bind_ok (damage_add region viewport d) (\<lambda>d'. Inr (damage_sort d'))"

text \<open>Negation of an \<open>i32\<close> wraps at the minimum.\<close>

definition neg_i32 :: "i32 \<Rightarrow> i32" where
  "neg_i32 z = (if z = I32_MIN then I32_MIN else - z)"

definition damage_to_physical :: "damage_set \<Rightarrow> rect \<Rightarrow> rect \<Rightarrow> output_scale \<Rightarrow> damage_set" where
  "damage_to_physical regions logical_viewport physical_viewport scale =
     List.map_filter (\<lambda>r. rect_intersection r physical_viewport)
       (map (physical_rect_cover scale)
         (map (\<lambda>r. rect_translated r (neg_i32 (rect_x logical_viewport)) (neg_i32 (rect_y logical_viewport)))
           (List.map_filter (\<lambda>r. rect_intersection r logical_viewport) regions)))"

section \<open>Damage between two snapshots\<close>

definition add_node_bounds ::
  "'m scene_snapshot \<Rightarrow> scene_node \<Rightarrow> damage_set \<Rightarrow> scene_panic + damage_set" where
  "add_node_bounds scene n d =
     bind_ok (scene_visual_bounds scene n)
       (\<lambda>bounds. case bounds of None \<Rightarrow> Inr d | Some b \<Rightarrow> damage_add b (scene_viewport scene) d)"

definition node_changed ::
  "'m scene_snapshot \<Rightarrow> 'm scene_snapshot \<Rightarrow> scene_node \<Rightarrow> scene_node \<Rightarrow> scene_panic + bool" where
  "node_changed previous current old new =
     (if old \<noteq> new then Inr True
      else bind_ok (contents_for previous old)
             (\<lambda>a. bind_ok (contents_for current new) (\<lambda>b. Inr (a \<noteq> b))))"

fun diff_nodes ::
  "'m scene_snapshot \<Rightarrow> 'm scene_snapshot \<Rightarrow> scene_node list \<Rightarrow> scene_node list \<Rightarrow> damage_set \<Rightarrow>
   scene_panic + damage_set" where
  "diff_nodes previous current (old # olds) (new # news) d =
     (if node_view_id old = node_view_id new then
        bind_ok (node_changed previous current old new) (\<lambda>changed.
          if changed
          then bind_ok (add_node_bounds previous old d) (\<lambda>d1.
               bind_ok (add_node_bounds current new d1) (diff_nodes previous current olds news))
          else diff_nodes previous current olds news d)
      else if node_view_id old < node_view_id new then
        bind_ok (add_node_bounds previous old d) (diff_nodes previous current olds (new # news))
      else
        bind_ok (add_node_bounds current new d) (diff_nodes previous current (old # olds) news))"
| "diff_nodes previous current (old # olds) [] d =
     bind_ok (add_node_bounds previous old d) (diff_nodes previous current olds [])"
| "diff_nodes previous current [] (new # news) d =
     bind_ok (add_node_bounds current new d) (diff_nodes previous current [] news)"
| "diff_nodes previous current [] [] d = Inr d"

text \<open>The blurred regions of the current scene, in the order the two nested loops visit them.\<close>

definition node_blur :: "scene_node \<Rightarrow> u32 option" where
  "node_blur n = (case effect_backdrop_blur (node_effects n) of
      None \<Rightarrow> None | Some blur \<Rightarrow> if blur_radius blur > 0 then Some (blur_radius blur) else None)"

definition blurred_regions :: "'m scene_snapshot \<Rightarrow> (u32 \<times> rect) list" where
  "blurred_regions current =
     concat (map (\<lambda>n. case node_blur n of
                        None \<Rightarrow> []
                      | Some radius \<Rightarrow> map (Pair radius) (backdrop_regions n (scene_viewport current)))
              (filter samples_background (scene_nodes current)))"

definition propagate_region ::
  "rect \<Rightarrow> u32 \<times> rect \<Rightarrow> bool \<times> damage_set \<Rightarrow> scene_panic + bool \<times> damage_set" where
  "propagate_region viewport item st =
     (case rect_intersection (rect_inflated (snd item) (fst item)) viewport of
        None \<Rightarrow> Inl BlurMissesViewport
      | Some dependency \<Rightarrow>
          if list_ex (\<lambda>r. rect_intersection r dependency \<noteq> None) (snd st) \<and>
             \<not> list_ex (\<lambda>r. rect_contains_rect r (snd item)) (snd st)
          then bind_ok (damage_add (snd item) viewport (snd st)) (\<lambda>d. Inr (True, d))
          else Inr st)"

definition propagate_pass ::
  "'m scene_snapshot \<Rightarrow> damage_set \<Rightarrow> scene_panic + bool \<times> damage_set" where
  "propagate_pass current d =
     fold_ok (propagate_region (scene_viewport current)) (blurred_regions current) (False, d)"

partial_function (option) propagate_background_dependencies ::
  "'m scene_snapshot \<Rightarrow> damage_set \<Rightarrow> (scene_panic + damage_set) option" where
  "propagate_background_dependencies current d =
     (case propagate_pass current d of
        Inl e \<Rightarrow> Some (Inl e)
      | Inr (changed, d') \<Rightarrow>
          if changed then propagate_background_dependencies current d' else Some (Inr d'))"

definition damage_between ::
  "'m scene_snapshot option \<Rightarrow> 'm scene_snapshot \<Rightarrow> (scene_panic + damage_set) option" where
  "damage_between previous current =
     (case previous of
        None \<Rightarrow> Some (Inr (damage_full (scene_viewport current)))
      | Some prev \<Rightarrow>
          if scene_workspace prev \<noteq> scene_workspace current \<or> scene_viewport prev \<noteq> scene_viewport current
          then Some (Inr (damage_full (scene_viewport current)))
          else case diff_nodes prev current (scene_nodes prev) (scene_nodes current) [] of
                 Inl e \<Rightarrow> Some (Inl e)
               | Inr d \<Rightarrow>
                   map_option (map_sum id damage_sort) (propagate_background_dependencies current d))"

definition damage_since ::
  "'m scene_snapshot \<Rightarrow> 'm scene_snapshot option \<Rightarrow> (scene_panic + damage_set) option" where
  "damage_since current previous = damage_between previous current"

section \<open>The contract of a damage set\<close>

definition apart_regions :: "damage_set \<Rightarrow> bool" where
  "apart_regions rs \<longleftrightarrow>
     distinct rs \<and> (\<forall>a \<in> set rs. \<forall>b \<in> set rs. a \<noteq> b \<longrightarrow> \<not> rect_touches_or_overlaps a b)"

definition damage_shape :: "rect \<Rightarrow> damage_set \<Rightarrow> bool" where
  "damage_shape v rs \<longleftrightarrow> (\<forall>r \<in> set rs. in_view v r) \<and> apart_regions rs"

definition damage_ok :: "rect \<Rightarrow> damage_set \<Rightarrow> bool" where
  "damage_ok v rs \<longleftrightarrow> damage_shape v rs \<and> length rs \<le> MAX_DAMAGE_REGIONS"

text \<open>Every rectangle of the second set lies inside one of the first.\<close>

definition region_covered :: "damage_set \<Rightarrow> rect \<Rightarrow> bool" where
  "region_covered rs r \<longleftrightarrow> (\<exists>y \<in> set rs. rect_contains_rect y r)"

definition covers :: "damage_set \<Rightarrow> damage_set \<Rightarrow> bool" where
  "covers rs' rs \<longleftrightarrow> (\<forall>x \<in> set rs. region_covered rs' x)"

definition damaged_pixels :: "damage_set \<Rightarrow> (int \<times> int) set" where
  "damaged_pixels rs = (\<Union>r \<in> set rs. pixel_set r)"

lemma covers_refl [simp]: "covers rs rs"
  unfolding covers_def region_covered_def using rect_contains_rect_refl by blast

lemma region_covered_mono: "covers rs' rs \<Longrightarrow> region_covered rs r \<Longrightarrow> region_covered rs' r"
  unfolding covers_def region_covered_def by (meson rect_contains_rect_trans)

lemma covers_trans: "covers a b \<Longrightarrow> covers b c \<Longrightarrow> covers a c"
  using region_covered_mono unfolding covers_def by blast

lemma region_covered_pixels: "region_covered rs r \<Longrightarrow> pixel_set r \<subseteq> damaged_pixels rs"
  unfolding region_covered_def damaged_pixels_def using rect_contains_rect_pixels by blast

lemma damage_shape_subset:
  "damage_shape v rs \<Longrightarrow> set rs' \<subseteq> set rs \<Longrightarrow> distinct rs' \<Longrightarrow> damage_shape v rs'"
  by (auto simp: damage_shape_def apart_regions_def)

lemma distinct_remove_nth: "distinct xs \<Longrightarrow> distinct (remove_nth i xs)"
  using set_take_disj_set_drop_if_distinct[of xs i "Suc i"] by (simp add: remove_nth_def)

lemma damage_shape_remove: "damage_shape v rs \<Longrightarrow> damage_shape v (remove_nth i rs)"
  by (rule damage_shape_subset[OF _ set_remove_nth_subset])
    (simp_all add: damage_shape_def apart_regions_def distinct_remove_nth)

lemma damage_shape_snoc:
  assumes "damage_shape v rs" "in_view v r" "\<forall>x \<in> set rs. \<not> rect_touches_or_overlaps x r"
  shows "damage_shape v (rs @ [r])"
proof -
  have "rect_touches_or_overlaps r r"
    using assms(2) rect_right_bounds(1)[of r] rect_bottom_bounds(1)[of r]
    by (auto simp: in_view_def rect_touches_or_overlaps_def)
  then have "r \<notin> set rs" using assms(3) by blast
  moreover have "\<forall>x \<in> set rs. \<not> rect_touches_or_overlaps r x"
    using assms(3) rect_touches_commute by blast
  ultimately show ?thesis
    using assms unfolding damage_shape_def apart_regions_def by simp
qed

lemma remove_nth_mem: "i < length rs \<Longrightarrow> x \<in> set rs \<Longrightarrow> x = rs ! i \<or> x \<in> set (remove_nth i rs)"
  using set_remove_nth[of i rs] by auto

text \<open>The merge loop: the result contains the region and every rectangle taken out of the list, and
  touches none of those that stay.\<close>

lemma absorb_spec:
  assumes "rect_ok v" "damage_shape v rs" "in_view v r" "\<forall>j < i. \<not> rect_touches_or_overlaps (rs ! j) r"
    and "absorb rs i r = (m, rest)"
  shows "in_view v m \<and> damage_shape v rest \<and> (\<forall>x \<in> set rest. \<not> rect_touches_or_overlaps x m) \<and>
         rect_contains_rect m r \<and> (\<forall>x \<in> set rs. x \<in> set rest \<or> rect_contains_rect m x)"
  using assms
proof (induction rs i r rule: absorb.induct)
  case (1 rs i r)
  show ?case
  proof (cases "i < length rs")
    case False
    then have "m = r" "rest = rs" using "1.prems"(5) by (auto simp: absorb.simps[of rs i r])
    then show ?thesis using "1.prems" False by (auto simp: in_set_conv_nth)
  next
    case True
    show ?thesis
    proof (cases "rect_touches_or_overlaps (rs ! i) r")
      case False
      then have "\<forall>j < Suc i. \<not> rect_touches_or_overlaps (rs ! j) r"
        using "1.prems"(4) by (auto simp: less_Suc_eq)
      then show ?thesis
        using "1.IH"(2)[OF True False "1.prems"(1-3)] "1.prems"(5) True False
        by (simp add: absorb.simps[of rs i r])
    next
      case touch: True
      have ri: "in_view v (rs ! i)" using "1.prems"(2) True by (simp add: damage_shape_def)
      note u = in_view_union[OF "1.prems"(1) "1.prems"(3) ri]
      have "in_view v m \<and> damage_shape v rest \<and> (\<forall>x \<in> set rest. \<not> rect_touches_or_overlaps x m) \<and>
         rect_contains_rect m (rect_union r (rs ! i)) \<and>
         (\<forall>x \<in> set (remove_nth i rs). x \<in> set rest \<or> rect_contains_rect m x)"
        using "1.prems"(5) True touch
        by (intro "1.IH"(1)[OF True touch "1.prems"(1) damage_shape_remove[OF "1.prems"(2)] u(1)])
          (simp_all add: absorb.simps[of rs i r])
      then show ?thesis
        using u(2,3) remove_nth_mem[OF True] rect_contains_rect_trans by metis
    qed
  qed
qed

lemma absorb_snoc:
  assumes "rect_ok v" "damage_shape v rs" "in_view v r" "absorb rs 0 r = (m, rest)"
  shows "damage_shape v (rest @ [m])" "region_covered (rest @ [m]) r" "covers (rest @ [m]) rs"
proof -
  have a: "in_view v m" "damage_shape v rest" "\<forall>x \<in> set rest. \<not> rect_touches_or_overlaps x m"
    "rect_contains_rect m r" "\<forall>x \<in> set rs. x \<in> set rest \<or> rect_contains_rect m x"
    using absorb_spec[OF assms(1-3) _ assms(4)] by auto
  show "damage_shape v (rest @ [m])" by (rule damage_shape_snoc[OF a(2,1,3)])
  show "region_covered (rest @ [m]) r" using a(4) by (auto simp: region_covered_def)
  show "covers (rest @ [m]) rs"
    unfolding covers_def region_covered_def using a(5) rect_contains_rect_refl by fastforce
qed

lemma merge_cheapest_pair_ok:
  assumes "rect_ok v" "damage_shape v rs" "2 \<le> length rs"
  shows "\<exists>rs'. merge_cheapest_pair rs = Inr rs' \<and> damage_shape v rs' \<and> covers rs' rs"
proof -
  obtain a b l r u where c: "cheapest_pair rs = Some ((a, b, l, r), u)"
    using cheapest_pair_exists[OF assms(3)] by auto
  note lr = cheapest_pair_Some[OF c]
  define rs0 where "rs0 = remove_nth l (remove_nth r rs)"
  obtain m rest where ab: "absorb rs0 0 u = (m, rest)" by fastforce
  have v: "in_view v (rs ! l)" "in_view v (rs ! r)"
    using assms(2) lr(1,2) by (auto simp: damage_shape_def)
  note u = in_view_union[OF assms(1) v, folded lr(3)]
  have s0: "damage_shape v rs0" unfolding rs0_def by (intro damage_shape_remove assms(2))
  note ab' = absorb_snoc[OF assms(1) s0 u(1) ab]
  have "x = rs ! r \<or> x = rs ! l \<or> x \<in> set rs0" if "x \<in> set rs" for x
  proof -
    have "remove_nth r rs ! l = rs ! l" using lr(1,2) by (simp add: remove_nth_def nth_append)
    then show ?thesis
      using remove_nth_mem[OF lr(2) that] remove_nth_mem[of l "remove_nth r rs" x] lr
      by (auto simp: rs0_def)
  qed
  moreover have "region_covered (rest @ [m]) (rs ! l)" "region_covered (rest @ [m]) (rs ! r)"
    using ab'(2) u(2,3) rect_contains_rect_trans unfolding region_covered_def by blast+
  ultimately have "covers (rest @ [m]) rs" using ab'(3) unfolding covers_def by metis
  then show ?thesis using ab'(1) c ab by (simp add: merge_cheapest_pair_def rs0_def)
qed

lemma compact_loop_ok:
  assumes "rect_ok v" "damage_shape v rs"
  shows "\<exists>rs'. compact_loop rs = Inr rs' \<and> damage_ok v rs' \<and> covers rs' rs"
  using assms(2)
proof (induction rs rule: compact_loop.induct)
  case (1 rs)
  show ?case
  proof (cases "length rs > MAX_DAMAGE_REGIONS")
    case True
    then have "2 \<le> length rs" by (simp add: MAX_DAMAGE_REGIONS_def)
    then obtain rs1 where rs1: "merge_cheapest_pair rs = Inr rs1" "damage_shape v rs1" "covers rs1 rs"
      using merge_cheapest_pair_ok[OF assms(1) "1.prems"] by blast
    obtain rs2 where "compact_loop rs1 = Inr rs2" "damage_ok v rs2" "covers rs2 rs1"
      using "1.IH"[OF True rs1(1,2)] by blast
    then show ?thesis
      using True rs1 covers_trans by (auto simp: compact_loop.simps[of rs])
  next
    case False
    then show ?thesis using "1.prems" by (auto simp: compact_loop.simps[of rs] damage_ok_def)
  qed
qed

lemma foldl_union_ok:
  assumes "rect_ok v" "in_view v r" "\<forall>x \<in> set rs. in_view v x"
  shows "in_view v (foldl rect_union r rs) \<and> rect_contains_rect (foldl rect_union r rs) r \<and>
    (\<forall>x \<in> set rs. rect_contains_rect (foldl rect_union r rs) x)"
  using assms(2,3)
proof (induction rs arbitrary: r)
  case (Cons x rs)
  note u = in_view_union[OF assms(1) Cons.prems(1), of x]
  then show ?case
    using Cons.IH[of "rect_union r x"] Cons.prems(2) rect_contains_rect_trans by (simp, blast)
qed simp

lemma compact_ok:
  assumes "rect_ok v" "damage_shape v rs" "rs \<noteq> []"
  shows "\<exists>rs'. compact rs = Inr rs' \<and> damage_ok v rs' \<and> covers rs' rs"
proof -
  obtain r rest where rs: "rs = r # rest" using assms(3) by (cases rs) auto
  have "in_view v (foldl rect_union r rest) \<and> (\<forall>x \<in> set rs. rect_contains_rect (foldl rect_union r rest) x)"
    using foldl_union_ok[OF assms(1), of r rest] assms(2) by (auto simp: rs damage_shape_def)
  then have "damage_ok v [foldl rect_union r rest]" "covers [foldl rect_union r rest] rs"
    by (auto simp: damage_ok_def damage_shape_def apart_regions_def covers_def region_covered_def
        MAX_DAMAGE_REGIONS_def)
  then show ?thesis
    using compact_loop_ok[OF assms(1,2)] by (auto simp: compact_def rs Let_def)
qed

lemma damage_add_ok:
  assumes "rect_ok v" "damage_ok v d" "rect_ok r"
  shows "\<exists>d'. damage_add r v d = Inr d' \<and> damage_ok v d' \<and> covers d' d \<and>
    (\<forall>c. rect_intersection r v = Some c \<longrightarrow> region_covered d' c)"
proof (cases "rect_intersection r v")
  case None
  then show ?thesis using assms by (simp add: damage_add_def)
next
  case (Some c)
  obtain m rest where ab: "absorb d 0 c = (m, rest)" by fastforce
  have "damage_shape v d" using assms(2) by (simp add: damage_ok_def)
  note s = absorb_snoc[OF assms(1) this in_view_intersection[OF assms(3,1) Some] ab]
  show ?thesis
  proof (cases "length (rest @ [m]) > MAX_DAMAGE_REGIONS")
    case True
    obtain d' where "compact (rest @ [m]) = Inr d'" "damage_ok v d'" "covers d' (rest @ [m])"
      using compact_ok[OF assms(1) s(1)] by auto
    then show ?thesis
      using True Some ab s(2,3) covers_trans region_covered_mono by (fastforce simp: damage_add_def Let_def)
  next
    case False
    then show ?thesis using Some ab s by (simp add: damage_add_def Let_def damage_ok_def)
  qed
qed

lemma damage_sort_ok [simp]:
  "damage_ok v (damage_sort d) = damage_ok v d"
  "covers (damage_sort d) d' = covers d d'" "region_covered (damage_sort d) = region_covered d"
  by (simp_all add: damage_ok_def damage_shape_def apart_regions_def damage_sort_def covers_def
      region_covered_def fun_eq_iff)

section \<open>Comparing two snapshots\<close>

lemma in_view_clip:
  assumes "rect_ok v" "in_view v r"
  obtains c where "rect_intersection r v = Some c" "rect_contains_rect c r"
proof -
  have r: "rect_ok r" "rect_contains_rect v r" "\<not> rect_empty r" using assms(2) by (auto simp: in_view_def)
  then have "rect_intersection r v \<noteq> None"
    by (auto simp: rect_intersection_None_iff rect_contains_rect_def rect_empty_def)
  then obtain c where c: "rect_intersection r v = Some c" by blast
  then have "rect_contains_rect c r"
    using rect_intersection_Some[OF r(1) assms(1) c] r(2) by (auto simp: rect_contains_rect_def)
  then show thesis using that c by blast
qed

lemma region_covered_trans: "region_covered d c \<Longrightarrow> rect_contains_rect c r \<Longrightarrow> region_covered d r"
  unfolding region_covered_def using rect_contains_rect_trans by blast

lemma add_node_bounds_ok:
  assumes "scene_ok scene" "n \<in> set (scene_nodes scene)" "damage_ok (scene_viewport scene) d"
  shows "\<exists>d'. add_node_bounds scene n d = Inr d' \<and> damage_ok (scene_viewport scene) d' \<and> covers d' d \<and>
    (\<forall>b. scene_visual_bounds scene n = Inr (Some b) \<longrightarrow> region_covered d' b)"
proof -
  have v: "rect_ok (scene_viewport scene)" by (rule scene_okD(1)[OF assms(1)])
  obtain b where b: "scene_visual_bounds scene n = Inr b"
    "\<forall>r. b = Some r \<longrightarrow> in_view (scene_viewport scene) r"
    by (rule scene_visual_bounds_ok[OF assms(1,2)])
  show ?thesis
  proof (cases b)
    case None
    then show ?thesis using b assms(3) by (simp add: add_node_bounds_def)
  next
    case (Some r)
    then have r: "in_view (scene_viewport scene) r" using b(2) by simp
    obtain c where c: "rect_intersection r (scene_viewport scene) = Some c" "rect_contains_rect c r"
      by (rule in_view_clip[OF v r])
    obtain d' where "damage_add r (scene_viewport scene) d = Inr d'"
      "damage_ok (scene_viewport scene) d'" "covers d' d" "region_covered d' c"
      using damage_add_ok[OF v assms(3), of r] r c(1) by (auto simp: in_view_def)
    then show ?thesis
      using b(1) Some region_covered_trans[OF _ c(2)] by (auto simp: add_node_bounds_def)
  qed
qed

text \<open>A node of one snapshot that the other has unchanged, with the same content.\<close>

definition same_node :: "'m scene_snapshot \<Rightarrow> 'm scene_snapshot \<Rightarrow> scene_node \<Rightarrow> scene_node \<Rightarrow> bool" where
  "same_node previous current old new \<longleftrightarrow>
     old = new \<and> contents_for previous old = contents_for current new"

text \<open>The bounds of a node are covered by a single damage rectangle.\<close>

definition node_covered :: "damage_set \<Rightarrow> 'm scene_snapshot \<Rightarrow> scene_node \<Rightarrow> bool" where
  "node_covered d scene n \<longleftrightarrow>
     (\<forall>b. scene_visual_bounds scene n = Inr (Some b) \<longrightarrow> region_covered d b)"

lemma node_covered_mono: "covers d' d \<Longrightarrow> node_covered d s n \<Longrightarrow> node_covered d' s n"
  unfolding node_covered_def using region_covered_mono by blast

lemma node_changed_ok:
  assumes "scene_ok p" "scene_ok c" "old \<in> set (scene_nodes p)" "new \<in> set (scene_nodes c)"
  shows "node_changed p c old new = Inr (\<not> same_node p c old new)"
proof -
  obtain a where a: "contents_for p old = Inr a"
    using scene_okD(2)[OF assms(1,3)] contents_for_ok unfolding node_ok_def by metis
  obtain b where b: "contents_for c new = Inr b"
    using scene_okD(2)[OF assms(2,4)] contents_for_ok unfolding node_ok_def by metis
  show ?thesis using a b by (auto simp: node_changed_def same_node_def)
qed

text \<open>What is left to prove of a comparison once some nodes are done.\<close>

definition diff_result ::
  "'m scene_snapshot \<Rightarrow> 'm scene_snapshot \<Rightarrow> scene_node list \<Rightarrow> scene_node list \<Rightarrow> damage_set \<Rightarrow>
   damage_set \<Rightarrow> bool" where
  "diff_result p c olds news d d' \<longleftrightarrow>
     damage_ok (scene_viewport c) d' \<and> covers d' d \<and>
     (\<forall>old \<in> set olds. (\<forall>new \<in> set news. \<not> same_node p c old new) \<longrightarrow> node_covered d' p old) \<and>
     (\<forall>new \<in> set news. (\<forall>old \<in> set olds. \<not> same_node p c old new) \<longrightarrow> node_covered d' c new)"

lemma diff_result_old:
  assumes "covers d1 d" "node_covered d1 p old" "diff_result p c olds news d1 d'"
  shows "diff_result p c (old # olds) news d d'"
  using assms covers_trans node_covered_mono[OF _ assms(2)] unfolding diff_result_def by auto

lemma diff_result_new:
  assumes "covers d1 d" "node_covered d1 c new" "diff_result p c olds news d1 d'"
  shows "diff_result p c olds (new # news) d d'"
  using assms covers_trans node_covered_mono[OF _ assms(2)] unfolding diff_result_def by auto

lemma diff_result_same:
  "same_node p c old new \<Longrightarrow> diff_result p c olds news d d' \<Longrightarrow>
   diff_result p c (old # olds) (new # news) d d'"
  unfolding diff_result_def by auto

lemma diff_nodes_ok:
  assumes "scene_ok p" "scene_ok c" "scene_viewport p = scene_viewport c"
    and "set olds \<subseteq> set (scene_nodes p)" "set news \<subseteq> set (scene_nodes c)"
    and "damage_ok (scene_viewport c) d"
  shows "\<exists>d'. diff_nodes p c olds news d = Inr d' \<and> diff_result p c olds news d d'"
  using assms
proof (induction p c olds news d rule: diff_nodes.induct)
  case (1 p c old olds new news d)
  note ok = "1.prems"(1-3)
  have mem: "old \<in> set (scene_nodes p)" "new \<in> set (scene_nodes c)"
    "set olds \<subseteq> set (scene_nodes p)" "set news \<subseteq> set (scene_nodes c)" using "1.prems"(4,5) by auto
  obtain d1 where d1: "add_node_bounds p old d = Inr d1" "damage_ok (scene_viewport c) d1" "covers d1 d"
    "node_covered d1 p old"
    using add_node_bounds_ok[OF ok(1) mem(1), of d] "1.prems"(3,6) by (auto simp: node_covered_def)
  obtain d2 where d2: "add_node_bounds c new d = Inr d2" "damage_ok (scene_viewport c) d2" "covers d2 d"
    "node_covered d2 c new"
    using add_node_bounds_ok[OF ok(2) mem(2) "1.prems"(6)] by (auto simp: node_covered_def)
  obtain d3 where d3: "add_node_bounds c new d1 = Inr d3" "damage_ok (scene_viewport c) d3" "covers d3 d1"
    "node_covered d3 c new"
    using add_node_bounds_ok[OF ok(2) mem(2) d1(2)] by (auto simp: node_covered_def)
  note ch = node_changed_ok[OF ok(1,2) mem(1,2)]
  consider (same) "node_view_id old = node_view_id new" "same_node p c old new"
    | (changed) "node_view_id old = node_view_id new" "\<not> same_node p c old new"
    | (removed) "node_view_id old \<noteq> node_view_id new" "node_view_id old < node_view_id new"
    | (added) "node_view_id old \<noteq> node_view_id new" "\<not> node_view_id old < node_view_id new"
    by blast
  then show ?case
  proof cases
    case same
    then obtain d' where "diff_nodes p c olds news d = Inr d'" "diff_result p c olds news d d'"
      using "1.IH"(2)[OF same(1) _ ok mem(3,4) "1.prems"(6)] by auto
    then show ?thesis using same ch diff_result_same by auto
  next
    case changed
    then obtain d' where "diff_nodes p c olds news d3 = Inr d'" "diff_result p c olds news d3 d'"
      using "1.IH"(1)[OF changed(1) _ ok mem(3,4) d3(2)] by auto
    then show ?thesis
      using changed ch d1 d3 by (auto intro!: diff_result_old[OF d1(3,4)] diff_result_new[OF d3(3,4)])
  next
    case removed
    then obtain d' where "diff_nodes p c olds (new # news) d1 = Inr d'" "diff_result p c olds (new # news) d1 d'"
      using "1.IH"(3)[OF removed ok mem(3) "1.prems"(5) d1(2)] by auto
    then show ?thesis using removed d1(1) by (auto intro!: diff_result_old[OF d1(3,4)])
  next
    case added
    then obtain d' where "diff_nodes p c (old # olds) news d2 = Inr d'" "diff_result p c (old # olds) news d2 d'"
      using "1.IH"(4)[OF added ok "1.prems"(4) mem(4) d2(2)] by auto
    then show ?thesis using added d2(1) by (auto intro!: diff_result_new[OF d2(3,4)])
  qed
next
  case (2 p c old olds d)
  obtain d1 where d1: "add_node_bounds p old d = Inr d1" "damage_ok (scene_viewport c) d1" "covers d1 d"
    "node_covered d1 p old"
    using add_node_bounds_ok[OF "2.prems"(1), of old d] "2.prems"(3,4,6) by (auto simp: node_covered_def)
  obtain d' where "diff_nodes p c olds [] d1 = Inr d'" "diff_result p c olds [] d1 d'"
    using "2.IH"[OF "2.prems"(1-3) _ _ d1(2)] "2.prems"(4) by auto
  then show ?case using d1(1) by (auto intro!: diff_result_old[OF d1(3,4)])
next
  case (3 p c new news d)
  obtain d1 where d1: "add_node_bounds c new d = Inr d1" "damage_ok (scene_viewport c) d1" "covers d1 d"
    "node_covered d1 c new"
    using add_node_bounds_ok[OF "3.prems"(2), of new d] "3.prems"(5,6) by (auto simp: node_covered_def)
  obtain d' where "diff_nodes p c [] news d1 = Inr d'" "diff_result p c [] news d1 d'"
    using "3.IH"[OF "3.prems"(1-3) _ _ d1(2)] "3.prems"(5) by auto
  then show ?case using d1(1) by (auto intro!: diff_result_new[OF d1(3,4)])
next
  case (4 p c d)
  then show ?case by (simp add: diff_result_def)
qed

section \<open>Blurred backdrops\<close>

text \<open>The inflation of a blurred region must stay within the machine range: twice the radius plus
  the extent of the viewport fits in an \<open>i32\<close>.\<close>

definition blur_bounded :: "'m scene_snapshot \<Rightarrow> bool" where
  "blur_bounded scene \<longleftrightarrow>
     (\<forall>n \<in> set (scene_nodes scene). \<forall>radius. node_blur n = Some radius \<longrightarrow>
        2 * radius + rect_width (scene_viewport scene) \<le> I32_MAX \<and>
        2 * radius + rect_height (scene_viewport scene) \<le> I32_MAX)"

lemma rect_intersection_extent:
  assumes "rect_ok a" "rect_ok b" "rect_intersection a b = Some c"
  shows "rect_width c = rect_right c - rect_x c" "rect_height c = rect_bottom c - rect_y c"
proof -
  note s = rect_intersection_Some[OF assms]
  have "0 \<le> rect_right c - rect_x c" "rect_right c - rect_x c \<le> U32_MAX"
    "0 \<le> rect_bottom c - rect_y c" "rect_bottom c - rect_y c \<le> U32_MAX"
    using rect_right_bounds(3)[OF s(5)] rect_bottom_bounds(3)[OF s(5)] s(10,11) by auto
  note exact = as_u32_exact[OF this(1,2)] as_u32_exact[OF this(3,4)]
  have "rect_width c = as_u32 (rect_right c - rect_x c)" "rect_height c = as_u32 (rect_bottom c - rect_y c)"
    unfolding s(1-4) using assms(3) by (auto simp: rect_intersection_def Let_def split: if_splits)
  then show "rect_width c = rect_right c - rect_x c" "rect_height c = rect_bottom c - rect_y c"
    by (simp_all only: exact)
qed

lemma in_view_extent:
  assumes "rect_ok a" "rect_ok b" "rect_intersection a b = Some e" "rect_ok v" "rect_contains_rect v e"
  shows "rect_width e \<le> rect_width v" "rect_height e \<le> rect_height v"
  using rect_intersection_extent[OF assms(1-3)] assms(5) rect_right_bounds(2)[OF assms(4)]
    rect_bottom_bounds(2)[OF assms(4)] by (auto simp: rect_contains_rect_def)

lemma backdrop_regions_ok:
  assumes v: "rect_ok v" and n: "node_ok v contents n" and e: "e \<in> set (backdrop_regions n v)"
  shows "in_view v e" "rect_width e \<le> rect_width v" "rect_height e \<le> rect_height v"
proof -
  have "\<exists>a b. rect_ok a \<and> rect_ok b \<and> rect_contains_rect v b \<and> rect_intersection a b = Some e"
  proof (cases "node_backdrop_region n")
    case None
    then obtain w where "placement_visible (node_placement n) = Some w" "rect_intersection w v = Some e"
      using e by (auto simp: backdrop_regions_def Let_def split: option.splits bind_splits)
    moreover have "rect_ok w" using n calculation(1) by (simp add: node_ok_def)
    ultimately show ?thesis using v rect_contains_rect_refl by blast
  next
    case (Some rs)
    then obtain r w u where r: "r \<in> set rs" "placement_visible (node_placement n) = Some w"
      "rect_intersection w v = Some u"
      "rect_intersection (rect_translated r (rect_x (node_geometry n)) (rect_y (node_geometry n))) u = Some e"
      using e by (auto simp: backdrop_regions_def Let_def List.map_filter_def bind_eq_Some_conv)
    have w: "rect_ok w" "rect_ok r" using n Some r(1,2) by (auto simp: node_ok_def list_all_iff)
    show ?thesis
      using r(4) rect_translated_ok[OF w(2)] in_view_intersection[OF w(1) v r(3)] by (auto simp: in_view_def)
  qed
  then obtain a b where ab: "rect_ok a" "rect_ok b" "rect_contains_rect v b" "rect_intersection a b = Some e"
    by blast
  show "in_view v e" by (rule in_view_intersection_clip[OF v ab])
  then show "rect_width e \<le> rect_width v" "rect_height e \<le> rect_height v"
    using in_view_extent[OF ab(1,2,4) v] by (auto simp: in_view_def)
qed

lemma blurred_regions_mem:
  assumes "scene_ok scene" "(radius, e) \<in> set (blurred_regions scene)"
  obtains n where "n \<in> set (scene_nodes scene)" "node_blur n = Some radius" "0 < radius"
    "in_view (scene_viewport scene) e" "rect_width e \<le> rect_width (scene_viewport scene)"
    "rect_height e \<le> rect_height (scene_viewport scene)"
proof -
  obtain n where n: "n \<in> set (scene_nodes scene)" "node_blur n = Some radius"
    "e \<in> set (backdrop_regions n (scene_viewport scene))"
    using assms(2) by (auto simp: blurred_regions_def split: option.splits)
  have "0 < radius" using n(2) by (auto simp: node_blur_def split: option.splits if_splits)
  with n show thesis
    using that backdrop_regions_ok[OF scene_okD(1)[OF assms(1)] scene_okD(2)[OF assms(1) n(1)] n(3)] by blast
qed

text \<open>Where the blur of a region reaches inside the viewport; it is never empty.\<close>

definition dependency_of :: "rect \<Rightarrow> u32 \<times> rect \<Rightarrow> rect option" where
  "dependency_of v item = rect_intersection (rect_inflated (snd item) (fst item)) v"

lemma dependency_exists:
  assumes "scene_ok scene" "blur_bounded scene" "item \<in> set (blurred_regions scene)"
  shows "dependency_of (scene_viewport scene) item \<noteq> None"
proof -
  obtain radius e where item: "item = (radius, e)" by (cases item)
  obtain n where n: "n \<in> set (scene_nodes scene)" "node_blur n = Some radius" "0 < radius"
    "in_view (scene_viewport scene) e" "rect_width e \<le> rect_width (scene_viewport scene)"
    "rect_height e \<le> rect_height (scene_viewport scene)"
    using blurred_regions_mem assms(1,3) item by metis
  have "2 * radius + rect_width (scene_viewport scene) \<le> I32_MAX"
    "2 * radius + rect_height (scene_viewport scene) \<le> I32_MAX"
    using assms(2) n(1,2) by (auto simp: blur_bounded_def)
  then have "rect_contains_rect (rect_inflated e radius) e"
    using n(3-6) by (intro rect_inflated_contains) (auto simp: in_view_def)
  then show ?thesis
    using n(4) by (auto simp: dependency_of_def item rect_intersection_None_iff in_view_def
        rect_contains_rect_def rect_empty_def)
qed

text \<open>Damage that reaches into the blur of a region has that region inside one rectangle.\<close>

definition backdrop_closed :: "'m scene_snapshot \<Rightarrow> damage_set \<Rightarrow> bool" where
  "backdrop_closed scene d \<longleftrightarrow>
     (\<forall>item \<in> set (blurred_regions scene). \<forall>dep. dependency_of (scene_viewport scene) item = Some dep \<longrightarrow>
        (\<exists>r \<in> set d. rect_intersection r dep \<noteq> None) \<longrightarrow> region_covered d (snd item))"

definition uncovered :: "'m scene_snapshot \<Rightarrow> damage_set \<Rightarrow> nat" where
  "uncovered scene d = card {e \<in> snd ` set (blurred_regions scene). \<not> region_covered d e}"

lemma uncovered_antimono: "covers d' d \<Longrightarrow> uncovered scene d' \<le> uncovered scene d"
  unfolding uncovered_def by (rule card_mono) (auto intro: region_covered_mono)

lemma uncovered_less:
  assumes "covers d' d" "e \<in> snd ` set (blurred_regions scene)" "\<not> region_covered d e" "region_covered d' e"
  shows "uncovered scene d' < uncovered scene d"
  unfolding uncovered_def using assms region_covered_mono
  by (intro psubset_card_mono) (auto 0 3)

text \<open>One step of a pass: nothing happens, or the flag is set and one more region is covered.\<close>

definition pass_progress :: "'m scene_snapshot \<Rightarrow> bool \<times> damage_set \<Rightarrow> bool \<times> damage_set \<Rightarrow> bool" where
  "pass_progress scene st st' \<longleftrightarrow>
     covers (snd st') (snd st) \<and>
     (st' = st \<or> fst st' \<and> uncovered scene (snd st') < uncovered scene (snd st))"

lemma pass_progress_refl [simp]: "pass_progress scene st st"
  by (simp add: pass_progress_def)

lemma pass_progress_trans:
  "pass_progress scene a b \<Longrightarrow> pass_progress scene b c \<Longrightarrow> pass_progress scene a c"
  unfolding pass_progress_def using covers_trans order.strict_trans by blast

lemma propagate_region_ok:
  assumes "scene_ok scene" "blur_bounded scene" "item \<in> set (blurred_regions scene)"
    and "damage_ok (scene_viewport scene) (snd st)"
  shows "\<exists>st'. propagate_region (scene_viewport scene) item st = Inr st' \<and>
    damage_ok (scene_viewport scene) (snd st') \<and> pass_progress scene st st'"
proof -
  let ?v = "scene_viewport scene"
  obtain dep where dep: "rect_intersection (rect_inflated (snd item) (fst item)) ?v = Some dep"
    using dependency_exists[OF assms(1-3)] by (auto simp: dependency_of_def)
  have v: "rect_ok ?v" by (rule scene_okD(1)[OF assms(1)])
  have e: "in_view ?v (snd item)" using blurred_regions_mem[OF assms(1), of "fst item" "snd item"] assms(3) by auto
  obtain c where c: "rect_intersection (snd item) ?v = Some c" "rect_contains_rect c (snd item)"
    by (rule in_view_clip[OF v e])
  obtain d' where d': "damage_add (snd item) ?v (snd st) = Inr d'" "damage_ok ?v d'" "covers d' (snd st)"
    "region_covered d' c"
    using damage_add_ok[OF v assms(4), of "snd item"] e c(1) by (auto simp: in_view_def)
  show ?thesis
  proof (cases "list_ex (\<lambda>r. rect_intersection r dep \<noteq> None) (snd st) \<and>
      \<not> list_ex (\<lambda>r. rect_contains_rect r (snd item)) (snd st)")
    case True
    then have "\<not> region_covered (snd st) (snd item)" by (auto simp: region_covered_def list_ex_iff)
    then have "uncovered scene d' < uncovered scene (snd st)"
      using assms(3) region_covered_trans[OF d'(4) c(2)]
      by (intro uncovered_less[OF d'(3), of "snd item"]) auto
    moreover have "propagate_region ?v item st = Inr (True, d')"
      using True dep d'(1) by (simp add: propagate_region_def)
    ultimately show ?thesis using d'(2,3) by (auto simp: pass_progress_def)
  next
    case False
    then have "propagate_region ?v item st = Inr st"
      unfolding propagate_region_def dep by auto
    then show ?thesis using assms(4) by (auto simp: pass_progress_def)
  qed
qed

lemma propagate_pass_ok:
  assumes "scene_ok scene" "blur_bounded scene" "damage_ok (scene_viewport scene) d"
  shows "\<exists>st. propagate_pass scene d = Inr st \<and> damage_ok (scene_viewport scene) (snd st) \<and>
    pass_progress scene (False, d) st"
  unfolding propagate_pass_def
  using propagate_region_ok[OF assms(1,2)] assms(3)
  by (intro fold_ok_invariant[where I = "\<lambda>st. damage_ok (scene_viewport scene) (snd st)"])
    (assumption | simp | rule pass_progress_refl | erule (1) pass_progress_trans)+

text \<open>A pass that ends with the flag unset has tried every region and changed nothing.\<close>

lemma propagate_region_quiet:
  "propagate_region v item st = Inr (False, d) \<Longrightarrow> st = (False, d)"
  by (auto simp: propagate_region_def bind_ok_eq_Inr split: option.splits if_splits)

lemma fold_propagate_quiet:
  "fold_ok (propagate_region v) items st = Inr (False, d) \<Longrightarrow>
   st = (False, d) \<and> (\<forall>item \<in> set items. propagate_region v item (False, d) = Inr (False, d))"
proof (induction items arbitrary: st)
  case (Cons item items)
  then obtain st1 where s: "propagate_region v item st = Inr st1"
    "fold_ok (propagate_region v) items st1 = Inr (False, d)" by (auto simp: bind_ok_eq_Inr)
  have "st1 = (False, d)" using Cons.IH[OF s(2)] by blast
  then show ?case using s Cons.IH[OF s(2)] propagate_region_quiet by fastforce
qed simp

lemma propagate_pass_closed:
  assumes "propagate_pass scene d = Inr (False, d')"
  shows "d' = d" "backdrop_closed scene d"
proof -
  note q = fold_propagate_quiet[OF assms[unfolded propagate_pass_def]]
  show "d' = d" using q by simp
  have "region_covered d (snd item)" if "item \<in> set (blurred_regions scene)"
    "dependency_of (scene_viewport scene) item = Some dep" "r \<in> set d" "rect_intersection r dep \<noteq> None"
    for item dep r
  proof (rule ccontr)
    assume n: "\<not> region_covered d (snd item)"
    have "propagate_region (scene_viewport scene) item (False, d) =
        bind_ok (damage_add (snd item) (scene_viewport scene) d) (\<lambda>d. Inr (True, d))"
      using that(2-4) n by (auto simp: propagate_region_def dependency_of_def list_ex_iff region_covered_def)
    then have "bind_ok (damage_add (snd item) (scene_viewport scene) d) (\<lambda>d. Inr (True, d)) = Inr (False, d')"
      using q that(1) by simp
    then show False by (auto simp: bind_ok_eq_Inr)
  qed
  then show "backdrop_closed scene d" by (auto simp: backdrop_closed_def)
qed

lemma propagate_ok:
  assumes "scene_ok scene" "blur_bounded scene" "damage_ok (scene_viewport scene) d"
  shows "\<exists>d'. propagate_background_dependencies scene d = Some (Inr d') \<and>
    damage_ok (scene_viewport scene) d' \<and> covers d' d \<and> backdrop_closed scene d'"
  using assms(3)
proof (induction "uncovered scene d" arbitrary: d rule: less_induct)
  case less
  obtain ch d1 where p: "propagate_pass scene d = Inr (ch, d1)" "damage_ok (scene_viewport scene) d1"
    "pass_progress scene (False, d) (ch, d1)"
    using propagate_pass_ok[OF assms(1,2) less.prems] by auto
  show ?case
  proof (cases ch)
    case True
    then have "uncovered scene d1 < uncovered scene d" "covers d1 d"
      using p(3) by (auto simp: pass_progress_def)
    then obtain d' where "propagate_background_dependencies scene d1 = Some (Inr d')"
      "damage_ok (scene_viewport scene) d'" "covers d' d1" "backdrop_closed scene d'"
      using less.hyps[OF _ p(2)] by blast
    then show ?thesis
      using p(1) True \<open>covers d1 d\<close> covers_trans
      by (auto simp: propagate_background_dependencies.simps[of scene d])
  next
    case False
    then have "d1 = d" "backdrop_closed scene d" using propagate_pass_closed p(1) by auto
    then show ?thesis
      using p(1,2) False by (simp add: propagate_background_dependencies.simps[of scene d])
  qed
qed

lemma backdrop_closed_sort [simp]: "backdrop_closed scene (damage_sort d) = backdrop_closed scene d"
  by (simp add: backdrop_closed_def) (simp add: damage_sort_def)

text \<open>The damage between two snapshots of one workspace on one viewport.\<close>

lemma damage_between_ok:
  assumes "scene_ok p" "scene_ok c" "blur_bounded c"
    and "scene_workspace p = scene_workspace c" "scene_viewport p = scene_viewport c"
  shows "\<exists>d. damage_between (Some p) c = Some (Inr d) \<and> damage_ok (scene_viewport c) d \<and>
    sorted (map (\<lambda>r. (rect_y r, rect_x r)) d) \<and> backdrop_closed c d \<and>
    diff_result p c (scene_nodes p) (scene_nodes c) [] d"
proof -
  have "damage_ok (scene_viewport c) []"
    by (simp add: damage_ok_def damage_shape_def apart_regions_def)
  then obtain d1 where d1: "diff_nodes p c (scene_nodes p) (scene_nodes c) [] = Inr d1"
    "diff_result p c (scene_nodes p) (scene_nodes c) [] d1"
    using diff_nodes_ok[OF assms(1,2,5)] by blast
  then obtain d2 where d2: "propagate_background_dependencies c d1 = Some (Inr d2)"
    "damage_ok (scene_viewport c) d2" "covers d2 d1" "backdrop_closed c d2"
    using propagate_ok[OF assms(2,3), of d1] by (auto simp: diff_result_def)
  have "covers (damage_sort d2) d1" using d2(3) by simp
  then have "diff_result p c (scene_nodes p) (scene_nodes c) [] (damage_sort d2)"
    using d1(2) d2(2) node_covered_mono covers_trans unfolding diff_result_def by (simp, blast)
  moreover have "sorted (map (\<lambda>r. (rect_y r, rect_x r)) (damage_sort d2))"
    by (simp add: damage_sort_def)
  ultimately show ?thesis
    using assms(4,5) d1(1) d2 by (simp add: damage_between_def)
qed

section \<open>Physical damage\<close>

text \<open>A physical pixel meets the interior of a logical rectangle given by its edges, relative to the
  origin of the logical viewport.\<close>

definition meets_scaled :: "output_scale \<Rightarrow> rect \<Rightarrow> rect \<Rightarrow> int \<times> int \<Rightarrow> bool" where
  "meets_scaled s v r p \<longleftrightarrow>
     (rect_x r - rect_x v) * int s < 120 * (fst p + 1) \<and> 120 * fst p < (rect_right r - rect_x v) * int s \<and>
     (rect_y r - rect_y v) * int s < 120 * (snd p + 1) \<and> 120 * snd p < (rect_bottom r - rect_y v) * int s"

text \<open>A viewport whose position and extent stay below a hundred million logical pixels.\<close>

definition desktop_view :: "rect \<Rightarrow> bool" where
  "desktop_view v \<longleftrightarrow> desktop_rect v \<and> rect_right v - rect_x v \<le> 100000000 \<and>
     rect_bottom v - rect_y v \<le> 100000000"

lemma translated_edges:
  assumes v: "desktop_view v" and c: "in_view v c"
    and ext: "rect_width c = rect_right c - rect_x c" "rect_height c = rect_bottom c - rect_y c"
  defines "t \<equiv> rect_translated c (neg_i32 (rect_x v)) (neg_i32 (rect_y v))"
  shows "rect_x t = rect_x c - rect_x v" "rect_y t = rect_y c - rect_y v"
    "rect_right t = rect_right c - rect_x v" "rect_bottom t = rect_bottom c - rect_y v"
    "desktop_rect t"
proof -
  have vb: "rect_ok v" "- 100000000 \<le> rect_x v" "rect_right v \<le> 100000000"
    "- 100000000 \<le> rect_y v" "rect_bottom v \<le> 100000000"
    "rect_right v - rect_x v \<le> 100000000" "rect_bottom v - rect_y v \<le> 100000000"
    using v by (auto simp: desktop_view_def desktop_rect_def)
  have cb: "rect_ok c" "rect_x v \<le> rect_x c" "rect_y v \<le> rect_y c" "rect_right c \<le> rect_right v"
    "rect_bottom c \<le> rect_bottom v" "rect_x c < rect_right c" "rect_y c < rect_bottom c"
    using c by (auto simp: in_view_def rect_contains_rect_def rect_empty_def)
  have neg: "neg_i32 (rect_x v) = - rect_x v" "neg_i32 (rect_y v) = - rect_y v"
    using vb by (auto simp: neg_i32_def)
  show x: "rect_x t = rect_x c - rect_x v" "rect_y t = rect_y c - rect_y v"
    using vb cb by (simp_all add: t_def rect_translated_def neg machine)
  have wh: "rect_width t = rect_right c - rect_x c" "rect_height t = rect_bottom c - rect_y c"
    by (simp_all add: t_def rect_translated_def ext)
  have tok: "rect_ok t" unfolding t_def by (rule rect_translated_ok[OF cb(1)])
  show r: "rect_right t = rect_right c - rect_x v" "rect_bottom t = rect_bottom c - rect_y v"
    using rect_right_exact[OF tok] rect_bottom_exact[OF tok] x wh vb cb by auto
  show "desktop_rect t" using tok x r wh vb cb by (auto simp: desktop_rect_def)
qed

lemma clip_same_edges:
  assumes "rect_ok v" "in_view v r" "rect_intersection r v = Some c"
  shows "rect_x c = rect_x r" "rect_y c = rect_y r" "rect_right c = rect_right r" "rect_bottom c = rect_bottom r"
    "in_view v c"
proof -
  have r: "rect_ok r" "rect_contains_rect v r" using assms(2) by (auto simp: in_view_def)
  show "rect_x c = rect_x r" "rect_y c = rect_y r" "rect_right c = rect_right r" "rect_bottom c = rect_bottom r"
    using rect_intersection_Some[OF r(1) assms(1,3)] r(2) by (auto simp: rect_contains_rect_def)
  show "in_view v c" by (rule in_view_intersection[OF r(1) assms(1,3)])
qed

text \<open>One region of the pipeline of \<open>damage_to_physical\<close>.\<close>

lemma physical_region_mem:
  assumes s: "scale_ok s" and v: "desktop_view v" and pv: "rect_ok pv" and r: "in_view v r"
  shows "p \<in> damaged_pixels (damage_to_physical [r] v pv s) \<longleftrightarrow> p \<in> pixel_set pv \<and> meets_scaled s v r p"
proof -
  have vok: "rect_ok v" using v by (simp add: desktop_view_def desktop_rect_def)
  have rok: "rect_ok r" using r by (simp add: in_view_def)
  obtain c where c: "rect_intersection r v = Some c" by (rule in_view_clip[OF vok r])
  note e = clip_same_edges[OF vok r c]
  define t where "t = rect_translated c (neg_i32 (rect_x v)) (neg_i32 (rect_y v))"
  note t = translated_edges[OF v e(5) rect_intersection_extent[OF rok vok c], folded t_def]
  have cov: "p \<in> pixel_set (physical_rect_cover s t) \<longleftrightarrow> meets_scaled s v r p"
    using physical_rect_cover_mem[OF s t(5), of "fst p" "snd p"] t(1-4) e(1-4) by (simp add: meets_scaled_def)
  have "damage_to_physical [r] v pv s = List.map_filter (\<lambda>r. rect_intersection r pv) [physical_rect_cover s t]"
    by (simp add: damage_to_physical_def List.map_filter_def c t_def)
  then show ?thesis
    using rect_intersection_pixels[OF physical_rect_cover_edges(5)[OF s t(5)] pv] cov
    by (auto simp: damaged_pixels_def List.map_filter_def split: option.splits)
qed

lemma damage_to_physical_Cons:
  "damage_to_physical (r # d) v pv s = damage_to_physical [r] v pv s @ damage_to_physical d v pv s"
  by (simp add: damage_to_physical_def List.map_filter_def)

lemma damaged_pixels_append [simp]: "damaged_pixels (a @ b) = damaged_pixels a \<union> damaged_pixels b"
  by (simp add: damaged_pixels_def)

lemma damage_to_physical_mem:
  assumes "scale_ok s" "desktop_view v" "rect_ok pv" "\<forall>r \<in> set d. in_view v r"
  shows "p \<in> damaged_pixels (damage_to_physical d v pv s) \<longleftrightarrow>
    p \<in> pixel_set pv \<and> (\<exists>r \<in> set d. meets_scaled s v r p)"
  using assms(4)
proof (induction d)
  case Nil
  then show ?case by (simp add: damage_to_physical_def damaged_pixels_def List.map_filter_def)
next
  case (Cons r d)
  then show ?case
    using physical_region_mem[OF assms(1-3), of r p] damage_to_physical_Cons[of r d v pv s] by auto
qed

section \<open>Properties\<close>

lemma apart_regions_disjoint:
  "apart_regions d \<Longrightarrow> a \<in> set d \<Longrightarrow> b \<in> set d \<Longrightarrow> a \<noteq> b \<Longrightarrow> pixel_set a \<inter> pixel_set b = {}"
  by (auto simp: apart_regions_def dest!: not_touching_disjoint)

text \<open>Adding a region to a damage set never panics and keeps its contract: at most 64 rectangles
  inside the viewport, none empty and no two touching; no damaged pixel is lost, and the part of the
  new region inside the viewport is damaged.\<close>

lemma damage_add_keeps_contract:
  assumes "rect_ok v" "damage_ok v d" "rect_ok r"
  shows "\<exists>d'. damage_add r v d = Inr d' \<and> damage_ok v d' \<and> length d' \<le> 64 \<and>
     damaged_pixels d \<union> (pixel_set r \<inter> pixel_set v) \<subseteq> damaged_pixels d' \<and>
     damaged_pixels d' \<subseteq> pixel_set v"
proof -
  obtain d' where d': "damage_add r v d = Inr d'" "damage_ok v d'" "covers d' d"
    "\<forall>c. rect_intersection r v = Some c \<longrightarrow> region_covered d' c"
    using damage_add_ok[OF assms] by blast
  have "damaged_pixels d \<subseteq> damaged_pixels d'"
    using d'(3) region_covered_pixels unfolding covers_def damaged_pixels_def[of d] by blast
  moreover have "pixel_set r \<inter> pixel_set v \<subseteq> damaged_pixels d'"
    using rect_intersection_pixels[OF assms(3,1)] d'(4) region_covered_pixels
    by (cases "rect_intersection r v") auto
  moreover have "damaged_pixels d' \<subseteq> pixel_set v"
    using d'(2) in_view_pixels unfolding damage_ok_def damage_shape_def damaged_pixels_def by blast
  ultimately show ?thesis using d'(1,2) by (auto simp: damage_ok_def MAX_DAMAGE_REGIONS_def)
qed

lemma damage_demo_simps:
  "damage_ok (Rect 0 0 100 100) [Rect 0 0 10 10]" "rect_ok (Rect 0 0 100 100)" "rect_ok (Rect 10 0 10 500)"
  by (simp_all add: damage_ok_def damage_shape_def apart_regions_def in_view_def rect_empty_def
      MAX_DAMAGE_REGIONS_def rect_ok_def rect_contains_rect_def rect_right_def rect_bottom_def machine)

text \<open>C12. Incremental repaint is complete: for two snapshots of one workspace on one viewport, the
  computed damage contains the whole visual bounds, shadows, focus ring and popups included, of every
  old node that is not in the new snapshot unchanged and of every new node that was not in the old one
  unchanged.\<close>

theorem scene_damage_covers_changes:
  assumes "scene_ok p" "scene_ok c" "blur_bounded c"
    and "scene_workspace p = scene_workspace c" "scene_viewport p = scene_viewport c"
  shows "\<exists>d. damage_since c (Some p) = Some (Inr d) \<and>
     (\<forall>old \<in> set (scene_nodes p). (\<forall>new \<in> set (scene_nodes c). \<not> same_node p c old new) \<longrightarrow>
        (\<forall>b. scene_visual_bounds p old = Inr (Some b) \<longrightarrow> pixel_set b \<subseteq> damaged_pixels d)) \<and>
     (\<forall>new \<in> set (scene_nodes c). (\<forall>old \<in> set (scene_nodes p). \<not> same_node p c old new) \<longrightarrow>
        (\<forall>b. scene_visual_bounds c new = Inr (Some b) \<longrightarrow> pixel_set b \<subseteq> damaged_pixels d))"
proof -
  obtain d where "damage_since c (Some p) = Some (Inr d)"
    "diff_result p c (scene_nodes p) (scene_nodes c) [] d"
    using damage_between_ok[OF assms] by (auto simp: damage_since_def)
  then show ?thesis
    using region_covered_pixels unfolding diff_result_def node_covered_def by blast
qed


text \<open>C24. Blurred backdrops are repainted as a whole: in the final damage, whenever some damage lies
  within the blur radius of a blurred region, that region is inside one damage rectangle.\<close>

theorem scene_damage_backdrop_closed:
  assumes "scene_ok p" "scene_ok c" "blur_bounded c"
    and "scene_workspace p = scene_workspace c" "scene_viewport p = scene_viewport c"
  shows "\<exists>d. damage_since c (Some p) = Some (Inr d) \<and>
     (\<forall>(radius, region) \<in> set (blurred_regions c).
        \<forall>dep. rect_intersection (rect_inflated region radius) (scene_viewport c) = Some dep \<longrightarrow>
          damaged_pixels d \<inter> pixel_set dep \<noteq> {} \<longrightarrow> (\<exists>r \<in> set d. rect_contains_rect r region))"
proof -
  obtain d where d: "damage_since c (Some p) = Some (Inr d)" "backdrop_closed c d" "damage_ok (scene_viewport c) d"
    using damage_between_ok[OF assms] by (auto simp: damage_since_def)
  have v: "rect_ok (scene_viewport c)" by (rule scene_okD(1)[OF assms(2)])
  have "\<exists>r \<in> set d. rect_contains_rect r region"
    if m: "(radius, region) \<in> set (blurred_regions c)"
      and dep: "rect_intersection (rect_inflated region radius) (scene_viewport c) = Some dep"
      and hit: "damaged_pixels d \<inter> pixel_set dep \<noteq> {}" for radius region dep
  proof -
    have "rect_ok region" using blurred_regions_mem[OF assms(2) m] by (auto simp: in_view_def)
    then have dok: "rect_ok dep" using rect_intersection_Some(5)[OF rect_inflated_ok v dep] by simp
    obtain r where r: "r \<in> set d" "pixel_set r \<inter> pixel_set dep \<noteq> {}"
      using hit by (auto simp: damaged_pixels_def)
    then have "rect_intersection r dep \<noteq> None"
      using rect_intersection_None_pixels[OF _ dok, of r] d(3)
      by (auto simp: damage_ok_def damage_shape_def in_view_def)
    then show ?thesis
      using d(2) m dep r(1) unfolding backdrop_closed_def dependency_of_def region_covered_def by fastforce
  qed
  then show ?thesis using d(1) by blast
qed

lemma diff_nodes_same:
  assumes "scene_ok p" "scene_ok c" "set ns \<subseteq> set (scene_nodes p)" "set ns \<subseteq> set (scene_nodes c)"
    and "\<forall>n \<in> set ns. contents_for p n = contents_for c n"
  shows "diff_nodes p c ns ns d = Inr d"
  using assms(3-)
  by (induction ns) (auto simp: node_changed_ok[OF assms(1,2)] same_node_def)

lemma propagate_empty:
  assumes "scene_ok c" "blur_bounded c"
  shows "propagate_background_dependencies c [] = Some (Inr [])"
proof -
  have "fold_ok (propagate_region (scene_viewport c)) items (False, []) = Inr (False, [])"
    if "set items \<subseteq> set (blurred_regions c)" for items
    using that
  proof (induction items)
    case (Cons item items)
    then have "rect_intersection (rect_inflated (snd item) (fst item)) (scene_viewport c) \<noteq> None"
      using dependency_exists[OF assms, of item] by (simp add: dependency_of_def)
    then show ?case using Cons by (auto simp: propagate_region_def)
  qed simp
  then have "propagate_pass c [] = Inr (False, [])" by (simp add: propagate_pass_def)
  then show ?thesis by (simp add: propagate_background_dependencies.simps)
qed

text \<open>A snapshot that shows the same nodes with the same content as the previous one is not
  repainted at all.\<close>

lemma scene_damage_quiet:
  assumes "scene_ok p" "scene_ok c" "blur_bounded c"
    and "scene_workspace p = scene_workspace c" "scene_viewport p = scene_viewport c"
    and "scene_nodes p = scene_nodes c" "\<forall>n \<in> set (scene_nodes c). contents_for p n = contents_for c n"
  shows "damage_since c (Some p) = Some (Inr [])"
  using assms(4,5,6) diff_nodes_same[OF assms(1,2), of "scene_nodes c"] assms(7) propagate_empty[OF assms(2,3)]
  by (simp add: damage_since_def damage_between_def damage_sort_def)

text \<open>C25. Damage crosses to physical pixels exactly: a pixel of the physical viewport is repainted if
  and only if its unit square meets the interior of a scaled logical damage rectangle.\<close>

theorem damage_to_physical_exact:
  assumes "scale_ok s" "desktop_view v" "rect_ok pv" "damage_ok v d"
  shows "p \<in> damaged_pixels (damage_to_physical d v pv s) \<longleftrightarrow>
    p \<in> pixel_set pv \<and> (\<exists>r \<in> set d. meets_scaled s v r p)"
  using assms(4) by (intro damage_to_physical_mem[OF assms(1-3)]) (auto simp: damage_ok_def damage_shape_def)

theorem damage_to_physical_exact_witness:
  "(11, 0) \<in> damaged_pixels (damage_to_physical [Rect 0 0 10 10] (Rect 0 0 100 100) (Rect 0 0 125 125) 150)"
proof -
  have "scale_ok 150" "desktop_view (Rect 0 0 100 100)" "rect_ok (Rect 0 0 125 125)"
    by (simp_all add: scale_ok_def desktop_view_def desktop_rect_def rect_ok_def rect_right_def rect_bottom_def machine)
  from damage_to_physical_exact[OF this damage_demo_simps(1)] show ?thesis
    by (simp add: meets_scaled_def mem_pixel_set rect_right_def rect_bottom_def machine)
qed

text \<open>Two snapshots for the witnesses: a window moves under a blurred panel.\<close>

definition blurred_panel :: scene_node where
  "blurred_panel = (scene_node_new 9 5 (layout_placement_new (Rect 0 0 100 20) (Rect 0 0 100 100))
     default_effects)\<lparr>node_effects := default_effects\<lparr>effect_backdrop_blur := Some \<lparr>blur_radius = 8\<rparr>\<rparr>\<rparr>"

definition demo_scene :: "rect \<Rightarrow> unit scene_snapshot" where
  "demo_scene window = \<lparr>scene_workspace = 1, scene_viewport = Rect 0 0 100 100,
     scene_nodes = [demo_node 1 1 window 0 1, blurred_panel],
     scene_contents = [demo_content 7 (Rect 0 0 40 40)], scene_draw_indices = [0, 1], scene_submitted = []\<rparr>"

lemma blurred_panel_ok:
  "node_ok (Rect 0 0 100 100) cs blurred_panel" "node_view_id blurred_panel = 9"
  "node_blur blurred_panel = Some 8"
  by (simp_all add: node_ok_def span_in_table_def span_range_def blurred_panel_def default_span_def
      demo_simps node_blur_def default_effects_def)

lemma demo_node_ok:
  assumes "window = Rect 10 30 40 40 \<or> window = Rect 10 40 40 40"
  shows "node_ok (Rect 0 0 100 100) [c] (demo_node 1 1 window 0 1)" "node_view_id (demo_node 1 1 window 0 1) = 1"
    "node_blur (demo_node 1 1 window 0 1) = None"
    "node_visual_bounds (demo_node 1 1 window 0 1) (Rect 0 0 100 100) = Some window"
  using assms
  by (elim disjE; simp add: node_ok_def span_in_table_def span_range_def demo_simps node_blur_def
      default_effects_def resolved_for_def node_visual_bounds_def FRACTION_OPAQUE_def FRACTION_TRANSPARENT_def)+

lemma demo_scene_ok:
  assumes "window = Rect 10 30 40 40 \<or> window = Rect 10 40 40 40"
  shows "scene_ok (demo_scene window)" "blur_bounded (demo_scene window)"
    "\<not> rect_empty (scene_viewport (demo_scene window))"
  by (simp_all add: demo_node_ok[OF assms] blurred_panel_ok scene_ok_def nodes_ok_def demo_scene_def blur_bounded_def rect_empty_def
      demo_content_def rect_ok_def rect_right_def rect_bottom_def machine del: One_nat_def)

lemma demo_scene_bounds:
  assumes "window = Rect 10 30 40 40 \<or> window = Rect 10 40 40 40"
  shows "scene_visual_bounds (demo_scene window) (demo_node 1 1 window 0 1) = Inr (Some window)"
  using demo_node_ok(4)[OF assms]
  by (simp add: scene_visual_bounds_def demo_scene_def contents_for_def span_range_def demo_content_def
      demo_node_def node_with_content_def scene_node_new_def default_effects_def resolved_for_def
      FRACTION_OPAQUE_def FRACTION_TRANSPARENT_def Let_def)

lemmas demo_scenes = demo_scene_ok[OF disjI1[OF refl]] demo_scene_ok[OF disjI2[OF refl]]

lemma demo_window_moved:
  "\<not> same_node (demo_scene (Rect 10 30 40 40)) (demo_scene (Rect 10 40 40 40)) (demo_node 1 1 (Rect 10 30 40 40) 0 1) n"
  if "n \<in> set (scene_nodes (demo_scene (Rect 10 40 40 40)))"
  using that by (auto simp: same_node_def demo_scene_def demo_node_def blurred_panel_def node_with_content_def
      scene_node_new_def layout_placement_new_def)

lemma demo_scene_simps:
  "scene_workspace (demo_scene w) = scene_workspace (demo_scene w')"
  "scene_viewport (demo_scene w) = scene_viewport (demo_scene w')"
  by (simp_all add: demo_scene_def)

theorem scene_damage_covers_changes_witness:
  "\<exists>d. damage_since (demo_scene (Rect 10 40 40 40)) (Some (demo_scene (Rect 10 30 40 40))) = Some (Inr d) \<and>
     pixel_set (Rect 10 30 40 40) \<subseteq> damaged_pixels d"
proof -
  have "demo_node 1 1 (Rect 10 30 40 40) 0 1 \<in> set (scene_nodes (demo_scene (Rect 10 30 40 40)))"
    by (simp add: demo_scene_def)
  then show ?thesis
    using scene_damage_covers_changes[OF demo_scenes(1,4,5) demo_scene_simps] demo_window_moved
      demo_scene_bounds[OF disjI1[OF refl]] by blast
qed


theorem scene_damage_backdrop_closed_witness:
  "(8, Rect 0 0 100 20) \<in> set (blurred_regions (demo_scene (Rect 10 40 40 40))) \<and>
   (\<exists>d. damage_since (demo_scene (Rect 10 40 40 40)) (Some (demo_scene (Rect 10 30 40 40))) = Some (Inr d) \<and>
     (damaged_pixels d \<inter> pixel_set (Rect 0 0 100 28) = {} \<or>
      (\<exists>r \<in> set d. rect_contains_rect r (Rect 0 0 100 20))))"
proof -
  have m: "(8, Rect 0 0 100 20) \<in> set (blurred_regions (demo_scene (Rect 10 40 40 40)))"
    by (simp add: blurred_regions_def demo_scene_def samples_background_def blurred_panel_def node_blur_def
        default_effects_def backdrop_regions_def demo_simps)
  moreover have "rect_intersection (rect_inflated (Rect 0 0 100 20) 8)
      (scene_viewport (demo_scene (Rect 10 40 40 40))) = Some (Rect 0 0 100 28)"
    by (simp add: demo_scene_def rect_inflated_def rect_intersection_def rect_right_def rect_bottom_def
        as_u32_def machine Let_def)
  ultimately show ?thesis
    using scene_damage_backdrop_closed[OF demo_scenes(1,4,5) demo_scene_simps] by fast
qed

end
