(* ===== verification/Ecs_Model.thy ===== *)
theory Ecs_Model
  imports Scene_Model
begin

text \<open>
  The window-manager state of \<^verbatim>\<open>apps/tensor-wm/src/ecs\<close>: the components of a view
  (\<^verbatim>\<open>components.rs\<close>), the compositor world with its index, stacking counter and layout caches
  (\<^verbatim>\<open>world.rs\<close>), and minimizing, scene extraction and the overview inventory
  (\<^verbatim>\<open>world/minimize.rs\<close>, \<^verbatim>\<open>world/extract.rs\<close>, \<^verbatim>\<open>world/overview.rs\<close>).

  The entity store is the third-party crate \<^verbatim>\<open>bevy_ecs\<close>. It is a parameter: a record
  \<open>ecs_ops\<close> of the calls the sources make. What the sources rely on is the locale
  \<open>entity_store\<close> of the theory \<open>Ecs_World\<close>. All components that
  \<open>spawn_view\<close> inserts and no operation removes are plain fields of \<open>view_row\<close>; the
  components that come and go are options, or a flag for the marker \<open>Focused\<close>.

  An operation takes the world and returns an outcome and the world it leaves: \<open>Done\<close> for
  \<open>Ok\<close>, \<open>Failed\<close> for \<open>Err\<close>, \<open>Panic\<close> for a failed \<open>expect\<close>, index or
  debug assertion, \<open>Hangs\<close> where a loop does not end.
\<close>

section \<open>Outcomes\<close>

datatype view_lifecycle_error =
    DuplicateViewId view_id
  | MissingViewId view_id
  | SelfAttachment view_id
  | CrossWorkspaceAttachment view_id view_id
  | AttachmentCycle view_id view_id
  | AttachedViewCannotMove view_id
  | AttachedChild view_id view_id
  | BrokenAttachment view_id

datatype 'a outcome = Done 'a | Failed view_lifecycle_error | Panic | Hangs

type_synonym ('a, 's) op = "'s \<Rightarrow> 'a outcome \<times> 's"

definition return_op :: "'a \<Rightarrow> ('a, 's) op" where
  "return_op a s = (Done a, s)"

definition fail_op :: "view_lifecycle_error \<Rightarrow> ('a, 's) op" where
  "fail_op e s = (Failed e, s)"

definition bind_op :: "('a, 's) op \<Rightarrow> ('a \<Rightarrow> ('b, 's) op) \<Rightarrow> ('b, 's) op" where
  "bind_op m f s =
     (case m s of
        (Done a, s') \<Rightarrow> f a s'
      | (Failed e, s') \<Rightarrow> (Failed e, s')
      | (Panic, s') \<Rightarrow> (Panic, s')
      | (Hangs, s') \<Rightarrow> (Hangs, s'))"

fun each_op :: "('a \<Rightarrow> (unit, 's) op) \<Rightarrow> 'a list \<Rightarrow> (unit, 's) op" where
  "each_op f [] = return_op ()"
| "each_op f (x # xs) = bind_op (f x) (\<lambda>_. each_op f xs)"

section \<open>Components\<close>

record view_layout =
  vl_constraints :: size_constraints
  vl_primary_size :: "layout_length option"

definition default_view_layout :: view_layout where
  "default_view_layout = \<lparr>vl_constraints = default_constraints, vl_primary_size = None\<rparr>"

definition layout_item_of :: "view_layout \<Rightarrow> layout_item" where
  "layout_item_of l = \<lparr>item_constraints = vl_constraints l, primary_size = vl_primary_size l\<rparr>"

datatype view_placement =
    Tiled
  | Floating rect
  | Attached view_id size2

fun placement_owner :: "view_placement \<Rightarrow> view_id option" where
  "placement_owner Tiled = None"
| "placement_owner (Floating g) = None"
| "placement_owner (Attached owner sz) = Some owner"

definition is_tiled :: "view_placement \<Rightarrow> bool" where
  "is_tiled p \<longleftrightarrow> p = Tiled"

record 'm view_row =
  row_view :: view_id
  row_workspace :: workspace_id
  row_layout :: view_layout
  row_placement :: view_placement
  row_content :: "'m surface_content list"
  row_effects :: effect_style
  row_hint :: surface_presentation_hint
  row_backdrop :: "backdrop_region option"
  row_stacking :: u64
  row_geometry :: "rect option"
  row_last_geometry :: "rect option"
  row_minimized_from :: "workspace_id option"
  row_focused :: bool

definition spawn_row :: "view_id \<Rightarrow> workspace_id \<Rightarrow> u64 \<Rightarrow> 'm view_row" where
  "spawn_row v ws order =
     \<lparr>row_view = v, row_workspace = ws, row_layout = default_view_layout, row_placement = Tiled,
      row_content = [], row_effects = default_effects, row_hint = Vsync, row_backdrop = None,
      row_stacking = order, row_geometry = None, row_last_geometry = None, row_minimized_from = None,
      row_focused = False\<rparr>"

section \<open>The entity store and the world\<close>

text \<open>The calls of \<^verbatim>\<open>bevy_ecs\<close> the sources make: \<open>World::new\<close>, \<open>get\<close>, \<open>spawn\<close>,
  \<open>entity_mut\<close> with \<open>insert\<close> or \<open>remove\<close> of components (a new row for the entity),
  \<open>despawn\<close>, and the iteration of a query.\<close>

record ('w, 'e, 'm) ecs_ops =
  ecs_new :: 'w
  ecs_get :: "'w \<Rightarrow> 'e \<Rightarrow> 'm view_row option"
  ecs_spawn :: "'m view_row \<Rightarrow> 'w \<Rightarrow> 'e \<times> 'w"
  ecs_put :: "'e \<Rightarrow> 'm view_row \<Rightarrow> 'w \<Rightarrow> 'w"
  ecs_despawn :: "'e \<Rightarrow> 'w \<Rightarrow> bool \<times> 'w"
  ecs_iter :: "'w \<Rightarrow> 'e list"

text \<open>The hash map of view entities is iterated, so it is an association list in the order of the
  iteration, with distinct keys.\<close>

record ('w, 'e) compositor_world =
  cw_world :: 'w
  cw_appearance :: scene_appearance
  cw_view_entities :: "(view_id \<times> 'e) list"
  cw_layout_states :: "workspace_id \<rightharpoonup> layout_state"
  cw_layout_snapshots :: "workspace_id \<rightharpoonup> layout_snapshot"
  cw_next_stacking :: u64

definition with_appearance :: "('w, 'e, 'm) ecs_ops \<Rightarrow> scene_appearance \<Rightarrow> ('w, 'e) compositor_world" where
  "with_appearance ops appearance =
     \<lparr>cw_world = ecs_new ops, cw_appearance = appearance, cw_view_entities = [],
      cw_layout_states = Map.empty, cw_layout_snapshots = Map.empty, cw_next_stacking = 1\<rparr>"

definition compositor_world_new :: "('w, 'e, 'm) ecs_ops \<Rightarrow> ('w, 'e) compositor_world" where
  "compositor_world_new ops = with_appearance ops default_appearance"

definition set_appearance :: "scene_appearance \<Rightarrow> (bool, ('w, 'e) compositor_world) op" where
  "set_appearance appearance W =
     (if cw_appearance W = appearance then (Done False, W)
      else (Done True, W\<lparr>cw_appearance := appearance\<rparr>))"

text \<open>A lookup through the index (\<open>self.view_entities.get(..)\<close> and \<open>self.world.get(..)\<close>).\<close>

definition view_row_of :: "('w, 'e, 'm) ecs_ops \<Rightarrow> ('w, 'e) compositor_world \<Rightarrow> view_id \<Rightarrow> 'm view_row option" where
  "view_row_of ops W v = Option.bind (map_of (cw_view_entities W) v) (ecs_get ops (cw_world W))"

definition entity_for :: "view_id \<Rightarrow> ('e, ('w, 'e) compositor_world) op" where
  "entity_for v W =
     (case map_of (cw_view_entities W) v of
        None \<Rightarrow> (Failed (MissingViewId v), W) | Some e \<Rightarrow> (Done e, W))"

text \<open>\<open>self.view_entities[..]\<close> panics on a missing key.\<close>

definition index_entity :: "view_id \<Rightarrow> ('e, ('w, 'e) compositor_world) op" where
  "index_entity v W =
     (case map_of (cw_view_entities W) v of None \<Rightarrow> (Panic, W) | Some e \<Rightarrow> (Done e, W))"

text \<open>\<open>self.world.get(entity).expect(..)\<close>.\<close>

definition get_row :: "('w, 'e, 'm) ecs_ops \<Rightarrow> 'e \<Rightarrow> ('m view_row, ('w, 'e) compositor_world) op" where
  "get_row ops e W = (case ecs_get ops (cw_world W) e of None \<Rightarrow> (Panic, W) | Some r \<Rightarrow> (Done r, W))"

text \<open>\<open>self.world.entity_mut(entity)\<close> with components inserted, changed or removed.\<close>

definition modify_row ::
  "('w, 'e, 'm) ecs_ops \<Rightarrow> 'e \<Rightarrow> ('m view_row \<Rightarrow> 'm view_row) \<Rightarrow> (unit, ('w, 'e) compositor_world) op" where
  "modify_row ops e f W =
     (case ecs_get ops (cw_world W) e of
        None \<Rightarrow> (Panic, W)
      | Some r \<Rightarrow> (Done (), W\<lparr>cw_world := ecs_put ops e (f r) (cw_world W)\<rparr>))"

definition drop_snapshot :: "workspace_id \<Rightarrow> (unit, ('w, 'e) compositor_world) op" where
  "drop_snapshot ws W = (Done (), W\<lparr>cw_layout_snapshots := (cw_layout_snapshots W)(ws := None)\<rparr>)"

definition query_rows :: "('w, 'e, 'm) ecs_ops \<Rightarrow> ('w, 'e) compositor_world \<Rightarrow> ('e \<times> 'm view_row) list" where
  "query_rows ops W =
     List.map_filter (\<lambda>e. map_option (Pair e) (ecs_get ops (cw_world W) e)) (ecs_iter ops (cw_world W))"

section \<open>Queries\<close>

definition view_placement_of :: "('w, 'e, 'm) ecs_ops \<Rightarrow> ('w, 'e) compositor_world \<Rightarrow> view_id \<Rightarrow> view_placement option" where
  "view_placement_of ops W v = map_option row_placement (view_row_of ops W v)"

definition view_effects :: "('w, 'e, 'm) ecs_ops \<Rightarrow> ('w, 'e) compositor_world \<Rightarrow> view_id \<Rightarrow> effect_style option" where
  "view_effects ops W v = map_option row_effects (view_row_of ops W v)"

definition view_content :: "('w, 'e, 'm) ecs_ops \<Rightarrow> ('w, 'e) compositor_world \<Rightarrow> view_id \<Rightarrow> 'm surface_content list option" where
  "view_content ops W v = map_option row_content (view_row_of ops W v)"

definition view_workspace :: "('w, 'e, 'm) ecs_ops \<Rightarrow> ('w, 'e) compositor_world \<Rightarrow> view_id \<Rightarrow> workspace_id option" where
  "view_workspace ops W v = map_option row_workspace (view_row_of ops W v)"

definition presentation_hint :: "('w, 'e, 'm) ecs_ops \<Rightarrow> ('w, 'e) compositor_world \<Rightarrow> view_id \<Rightarrow> surface_presentation_hint option" where
  "presentation_hint ops W v = map_option row_hint (view_row_of ops W v)"

definition view_geometry :: "('w, 'e, 'm) ecs_ops \<Rightarrow> ('w, 'e) compositor_world \<Rightarrow> view_id \<Rightarrow> rect option" where
  "view_geometry ops W v = Option.bind (view_row_of ops W v) row_geometry"

definition view_layout_of :: "('w, 'e, 'm) ecs_ops \<Rightarrow> ('w, 'e) compositor_world \<Rightarrow> view_id \<Rightarrow> view_layout option" where
  "view_layout_of ops W v = map_option row_layout (view_row_of ops W v)"

definition is_focused :: "('w, 'e, 'm) ecs_ops \<Rightarrow> ('w, 'e) compositor_world \<Rightarrow> view_id \<Rightarrow> bool" where
  "is_focused ops W v = (case view_row_of ops W v of None \<Rightarrow> False | Some r \<Rightarrow> row_focused r)"

definition minimized_from :: "('w, 'e, 'm) ecs_ops \<Rightarrow> ('w, 'e) compositor_world \<Rightarrow> view_id \<Rightarrow> workspace_id option" where
  "minimized_from ops W v = Option.bind (view_row_of ops W v) row_minimized_from"

definition minimized_count :: "('w, 'e, 'm) ecs_ops \<Rightarrow> ('w, 'e) compositor_world \<Rightarrow> nat" where
  "minimized_count ops W =
     length (filter (\<lambda>(v, e). case ecs_get ops (cw_world W) e of
        None \<Rightarrow> False | Some r \<Rightarrow> row_minimized_from r \<noteq> None) (cw_view_entities W))"

definition view_count :: "('w, 'e, 'm) ecs_ops \<Rightarrow> ('w, 'e) compositor_world \<Rightarrow> workspace_id \<Rightarrow> nat" where
  "view_count ops W ws = length (filter (\<lambda>(e, r). row_workspace r = ws) (query_rows ops W))"

definition focused_view :: "('w, 'e, 'm) ecs_ops \<Rightarrow> ('w, 'e) compositor_world \<Rightarrow> workspace_id \<Rightarrow> view_id option" where
  "focused_view ops W ws =
     map_option (\<lambda>(e, r). row_view r)
       (find (\<lambda>(e, r). row_workspace r = ws \<and> row_focused r) (query_rows ops W))"

definition focused_entities :: "('w, 'e, 'm) ecs_ops \<Rightarrow> ('w, 'e) compositor_world \<Rightarrow> workspace_id \<Rightarrow> 'e list" where
  "focused_entities ops W ws =
     map fst (filter (\<lambda>(e, r). row_workspace r = ws \<and> row_focused r) (query_rows ops W))"

definition attached_children :: "('w, 'e, 'm) ecs_ops \<Rightarrow> ('w, 'e) compositor_world \<Rightarrow> view_id \<Rightarrow> view_id list" where
  "attached_children ops W owner =
     sort (List.map_filter (\<lambda>(v, e).
        case ecs_get ops (cw_world W) e of
          None \<Rightarrow> None
        | Some r \<Rightarrow> if placement_owner (row_placement r) = Some owner then Some v else None)
        (cw_view_entities W))"

text \<open>\<open>for _ in 0..self.view_entities.len()\<close>.\<close>

fun ancestor_loop :: "nat \<Rightarrow> ('w, 'e, 'm) ecs_ops \<Rightarrow> ('w, 'e) compositor_world \<Rightarrow> view_id \<Rightarrow> view_id option" where
  "ancestor_loop 0 ops W current = None"
| "ancestor_loop (Suc n) ops W current =
     (case view_placement_of ops W current of
        None \<Rightarrow> None
      | Some p \<Rightarrow> (case placement_owner p of
                     None \<Rightarrow> Some current
                   | Some owner \<Rightarrow> ancestor_loop n ops W owner))"

definition tiled_ancestor :: "('w, 'e, 'm) ecs_ops \<Rightarrow> ('w, 'e) compositor_world \<Rightarrow> view_id \<Rightarrow> view_id option" where
  "tiled_ancestor ops W v = ancestor_loop (length (cw_view_entities W)) ops W v"

fun cycle_loop :: "nat \<Rightarrow> ('w, 'e, 'm) ecs_ops \<Rightarrow> ('w, 'e) compositor_world \<Rightarrow> view_id \<Rightarrow> view_id \<Rightarrow> bool" where
  "cycle_loop 0 ops W v current = True"
| "cycle_loop (Suc n) ops W v current =
     (if current = v then True
      else case Option.bind (view_placement_of ops W current) placement_owner of
             None \<Rightarrow> False
           | Some next_owner \<Rightarrow> cycle_loop n ops W v next_owner)"

definition attachment_would_cycle :: "('w, 'e, 'm) ecs_ops \<Rightarrow> ('w, 'e) compositor_world \<Rightarrow> view_id \<Rightarrow> view_id \<Rightarrow> bool" where
  "attachment_would_cycle ops W v owner = cycle_loop (length (cw_view_entities W)) ops W v owner"

partial_function (option) family_loop ::
  "(view_id \<Rightarrow> view_id list) \<Rightarrow> view_id list \<Rightarrow> nat \<Rightarrow> view_id list option" where
  "family_loop children family index =
     (if index < length family
      then family_loop children (family @ children (family ! index)) (Suc index)
      else Some family)"

declare family_loop.simps [code]

definition view_family :: "('w, 'e, 'm) ecs_ops \<Rightarrow> view_id \<Rightarrow> (view_id list, ('w, 'e) compositor_world) op" where
  "view_family ops root W =
     (case family_loop (attached_children ops W) [root] 0 of
        None \<Rightarrow> (Hangs, W) | Some family \<Rightarrow> (Done family, W))"

section \<open>Lifecycle\<close>

definition allocate_stacking_order :: "(u64, ('w, 'e) compositor_world) op" where
  "allocate_stacking_order W =
     (let order = cw_next_stacking W
      in if order + 1 \<le> U64_MAX then (Done order, W\<lparr>cw_next_stacking := order + 1\<rparr>) else (Panic, W))"

definition spawn_view ::
  "('w, 'e, 'm) ecs_ops \<Rightarrow> view_id \<Rightarrow> workspace_id \<Rightarrow> (unit, ('w, 'e) compositor_world) op" where
  "spawn_view ops v ws W =
     (if map_of (cw_view_entities W) v \<noteq> None then (Failed (DuplicateViewId v), W)
      else bind_op allocate_stacking_order (\<lambda>order W1.
             let (e, w') = ecs_spawn ops (spawn_row v ws order) (cw_world W1)
             in drop_snapshot ws (W1\<lparr>cw_world := w', cw_view_entities := (v, e) # cw_view_entities W1\<rparr>)) W)"

definition remove_view ::
  "('w, 'e, 'm) ecs_ops \<Rightarrow> view_id \<Rightarrow> (unit, ('w, 'e) compositor_world) op" where
  "remove_view ops v W =
     (case attached_children ops W v of
        child # _ \<Rightarrow> (Failed (AttachedChild v child), W)
      | [] \<Rightarrow>
          (case map_of (cw_view_entities W) v of
             None \<Rightarrow> (Failed (MissingViewId v), W)
           | Some e \<Rightarrow>
               bind_op (get_row ops e) (\<lambda>r W1.
                 let (removed, w') = ecs_despawn ops e (cw_world W1)
                 in if removed then drop_snapshot (row_workspace r) (W1\<lparr>cw_world := w'\<rparr>) else (Panic, W1))
               (W\<lparr>cw_view_entities := filter (\<lambda>p. fst p \<noteq> v) (cw_view_entities W)\<rparr>)))"

definition clear_focus :: "('w, 'e, 'm) ecs_ops \<Rightarrow> workspace_id \<Rightarrow> (unit, ('w, 'e) compositor_world) op" where
  "clear_focus ops ws W =
     each_op (\<lambda>e. modify_row ops e (\<lambda>r. r\<lparr>row_focused := False\<rparr>)) (focused_entities ops W ws) W"

definition move_member ::
  "('w, 'e, 'm) ecs_ops \<Rightarrow> workspace_id \<Rightarrow> view_id \<Rightarrow> (unit, ('w, 'e) compositor_world) op" where
  "move_member ops ws member =
     bind_op (index_entity member) (\<lambda>e.
       modify_row ops e (\<lambda>r. r\<lparr>row_workspace := ws, row_geometry := None, row_minimized_from := None\<rparr>))"

definition move_view ::
  "('w, 'e, 'm) ecs_ops \<Rightarrow> view_id \<Rightarrow> workspace_id \<Rightarrow> (unit, ('w, 'e) compositor_world) op" where
  "move_view ops v ws =
     bind_op (entity_for v) (\<lambda>e. bind_op (get_row ops e) (\<lambda>r.
       if placement_owner (row_placement r) \<noteq> None then fail_op (AttachedViewCannotMove v)
       else if row_workspace r = ws then return_op ()
       else bind_op (view_family ops v) (\<lambda>family W.
         let was_focused = list_ex (is_focused ops W) family
         in bind_op (if was_focused then clear_focus ops ws else return_op ()) (\<lambda>_.
            bind_op (each_op (move_member ops ws) family) (\<lambda>_.
            bind_op (drop_snapshot (row_workspace r)) (\<lambda>_. drop_snapshot ws))) W)))"

definition check_owner ::
  "('w, 'e, 'm) ecs_ops \<Rightarrow> view_id \<Rightarrow> workspace_id \<Rightarrow> view_placement \<Rightarrow> (unit, ('w, 'e) compositor_world) op" where
  "check_owner ops v ws p =
     (case placement_owner p of
        None \<Rightarrow> return_op ()
      | Some owner \<Rightarrow>
          if owner = v then fail_op (SelfAttachment v)
          else bind_op (entity_for owner) (\<lambda>oe. bind_op (get_row ops oe) (\<lambda>orow W.
            if row_workspace orow \<noteq> ws then (Failed (CrossWorkspaceAttachment v owner), W)
            else if attachment_would_cycle ops W v owner then (Failed (AttachmentCycle v owner), W)
            else (Done (), W))))"

definition set_view_placement ::
  "('w, 'e, 'm) ecs_ops \<Rightarrow> view_id \<Rightarrow> view_placement \<Rightarrow> (bool, ('w, 'e) compositor_world) op" where
  "set_view_placement ops v p =
     bind_op (entity_for v) (\<lambda>e. bind_op (get_row ops e) (\<lambda>r.
       if row_placement r = p then return_op False
       else bind_op (check_owner ops v (row_workspace r) p) (\<lambda>_.
            bind_op (modify_row ops e (\<lambda>r. r\<lparr>row_placement := p\<rparr>)) (\<lambda>_.
            bind_op (drop_snapshot (row_workspace r)) (\<lambda>_. return_op True)))))"

definition update_floating_geometry ::
  "('w, 'e, 'm) ecs_ops \<Rightarrow> view_id \<Rightarrow> rect \<Rightarrow> (bool, ('w, 'e) compositor_world) op" where
  "update_floating_geometry ops v g =
     bind_op (entity_for v) (\<lambda>e. bind_op (get_row ops e) (\<lambda>r.
       case row_placement r of
         Floating current \<Rightarrow>
           if current = g then return_op False
           else bind_op (modify_row ops e (\<lambda>r. r\<lparr>row_placement := Floating g, row_geometry := Some g,
                                            row_last_geometry := Some g\<rparr>)) (\<lambda>_. return_op True)
       | _ \<Rightarrow> return_op False))"

definition set_view_layout ::
  "('w, 'e, 'm) ecs_ops \<Rightarrow> view_id \<Rightarrow> view_layout \<Rightarrow> (unit, ('w, 'e) compositor_world) op" where
  "set_view_layout ops v l =
     bind_op (entity_for v) (\<lambda>e. bind_op (get_row ops e) (\<lambda>r.
       bind_op (modify_row ops e (\<lambda>r. r\<lparr>row_layout := l\<rparr>)) (\<lambda>_. drop_snapshot (row_workspace r))))"

definition set_view_constraints ::
  "('w, 'e, 'm) ecs_ops \<Rightarrow> view_id \<Rightarrow> size_constraints \<Rightarrow> (bool, ('w, 'e) compositor_world) op" where
  "set_view_constraints ops v c =
     bind_op (entity_for v) (\<lambda>e. bind_op (get_row ops e) (\<lambda>r.
       if vl_constraints (row_layout r) = c then return_op False
       else bind_op (modify_row ops e (\<lambda>r. r\<lparr>row_layout := (row_layout r)\<lparr>vl_constraints := c\<rparr>\<rparr>)) (\<lambda>_.
            bind_op (drop_snapshot (row_workspace r)) (\<lambda>_. return_op True))))"

definition reset_layout_states :: "(unit, ('w, 'e) compositor_world) op" where
  "reset_layout_states W =
     (Done (), W\<lparr>cw_layout_states := Map.empty, cw_layout_snapshots := Map.empty\<rparr>)"

section \<open>Focus\<close>

definition raise_member :: "('w, 'e, 'm) ecs_ops \<Rightarrow> view_id \<Rightarrow> (unit, ('w, 'e) compositor_world) op" where
  "raise_member ops v =
     bind_op (entity_for v) (\<lambda>e. bind_op allocate_stacking_order (\<lambda>order.
       modify_row ops e (\<lambda>r. r\<lparr>row_stacking := order\<rparr>)))"

definition raise_view_family :: "('w, 'e, 'm) ecs_ops \<Rightarrow> view_id \<Rightarrow> (unit, ('w, 'e) compositor_world) op" where
  "raise_view_family ops focused W =
     (case tiled_ancestor ops W focused of
        None \<Rightarrow> (Failed (BrokenAttachment focused), W)
      | Some root \<Rightarrow>
          bind_op (view_family ops root) (\<lambda>family.
            if focused \<noteq> root
            then bind_op (view_family ops focused) (\<lambda>subtree.
                   each_op (raise_member ops) (filter (\<lambda>v. v \<notin> set subtree) family @ subtree))
            else each_op (raise_member ops) family) W)"

definition focus_view :: "('w, 'e, 'm) ecs_ops \<Rightarrow> view_id \<Rightarrow> (unit, ('w, 'e) compositor_world) op" where
  "focus_view ops v =
     bind_op (entity_for v) (\<lambda>e W.
       if (case ecs_get ops (cw_world W) e of None \<Rightarrow> False | Some r \<Rightarrow> row_focused r) then (Done (), W)
       else bind_op (get_row ops e) (\<lambda>r.
            bind_op (clear_focus ops (row_workspace r)) (\<lambda>_.
            bind_op (modify_row ops e (\<lambda>r. r\<lparr>row_focused := True\<rparr>)) (\<lambda>_.
            bind_op (raise_view_family ops v) (\<lambda>_. drop_snapshot (row_workspace r))))) W)"

definition topmost :: "('e \<times> 'm view_row) list \<Rightarrow> view_id option" where
  "topmost rows =
     map_option (\<lambda>(e, r). row_view r) (max_by_key (\<lambda>(e, r). (row_stacking r, row_view r)) rows)"

definition focus_replacement_after_removal ::
  "('w, 'e, 'm) ecs_ops \<Rightarrow> view_id \<Rightarrow> (view_id option, ('w, 'e) compositor_world) op" where
  "focus_replacement_after_removal ops v =
     bind_op (entity_for v) (\<lambda>e W.
       if \<not> (case ecs_get ops (cw_world W) e of None \<Rightarrow> False | Some r \<Rightarrow> row_focused r) then (Done None, W)
       else bind_op (get_row ops e) (\<lambda>r.
            case placement_owner (row_placement r) of
              Some owner \<Rightarrow> return_op (Some owner)
            | None \<Rightarrow> return_op (topmost (filter (\<lambda>(e, q). row_view q \<noteq> v \<and> row_workspace q = row_workspace r)
                        (query_rows ops W)))) W)"

definition focus_replacement_after_family_removal ::
  "('w, 'e, 'm) ecs_ops \<Rightarrow> view_id \<Rightarrow> (view_id option, ('w, 'e) compositor_world) op" where
  "focus_replacement_after_family_removal ops root =
     bind_op (entity_for root) (\<lambda>e. bind_op (get_row ops e) (\<lambda>r.
       bind_op (view_family ops root) (\<lambda>family W.
         (Done (topmost (filter (\<lambda>(e, q). row_workspace q = row_workspace r \<and> row_view q \<notin> set family)
                   (query_rows ops W))), W))))"

section \<open>View attributes\<close>

definition set_view_effects ::
  "('w, 'e, 'm) ecs_ops \<Rightarrow> view_id \<Rightarrow> effect_style \<Rightarrow> (bool, ('w, 'e) compositor_world) op" where
  "set_view_effects ops v effects =
     bind_op (entity_for v) (\<lambda>e. bind_op (get_row ops e) (\<lambda>r.
       if row_effects r = effects then return_op False
       else bind_op (modify_row ops e (\<lambda>r. r\<lparr>row_effects := effects\<rparr>)) (\<lambda>_. return_op True)))"

definition set_view_backdrop_effect ::
  "('w, 'e, 'm) ecs_ops \<Rightarrow> view_id \<Rightarrow> backdrop_blur option \<Rightarrow> backdrop_region option \<Rightarrow>
   (bool, ('w, 'e) compositor_world) op" where
  "set_view_backdrop_effect ops v blur region =
     bind_op (entity_for v) (\<lambda>e. bind_op (get_row ops e) (\<lambda>r.
       if effect_backdrop_blur (row_effects r) = blur \<and> row_backdrop r = region then return_op False
       else bind_op (modify_row ops e (\<lambda>r. r\<lparr>row_effects := (row_effects r)\<lparr>effect_backdrop_blur := blur\<rparr>\<rparr>)) (\<lambda>_.
            bind_op (modify_row ops e (\<lambda>r. r\<lparr>row_backdrop := region\<rparr>)) (\<lambda>_. return_op True))))"

definition set_view_content ::
  "('w, 'e, 'm) ecs_ops \<Rightarrow> view_id \<Rightarrow> 'm surface_content list \<Rightarrow> (bool, ('w, 'e) compositor_world) op" where
  "set_view_content ops v surfaces =
     bind_op (entity_for v) (\<lambda>e. bind_op (get_row ops e) (\<lambda>r.
       if row_content r = surfaces then return_op False
       else bind_op (modify_row ops e (\<lambda>r. r\<lparr>row_content := surfaces\<rparr>)) (\<lambda>_. return_op True)))"

definition set_presentation_hint ::
  "('w, 'e, 'm) ecs_ops \<Rightarrow> view_id \<Rightarrow> surface_presentation_hint \<Rightarrow> (bool, ('w, 'e) compositor_world) op" where
  "set_presentation_hint ops v hint =
     bind_op (entity_for v) (\<lambda>e. bind_op (get_row ops e) (\<lambda>r.
       if row_hint r = hint then return_op False
       else bind_op (modify_row ops e (\<lambda>r. r\<lparr>row_hint := hint\<rparr>)) (\<lambda>_. return_op True)))"

section \<open>Minimizing\<close>

definition minimize_view ::
  "('w, 'e, 'm) ecs_ops \<Rightarrow> view_id \<Rightarrow> workspace_id \<Rightarrow> (bool, ('w, 'e) compositor_world) op" where
  "minimize_view ops v hidden =
     bind_op (entity_for v) (\<lambda>e W.
       if (case ecs_get ops (cw_world W) e of None \<Rightarrow> False | Some r \<Rightarrow> row_minimized_from r \<noteq> None)
       then (Done False, W)
       else bind_op (get_row ops e) (\<lambda>r.
         if row_workspace r = hidden then return_op False
         else bind_op (move_view ops v hidden) (\<lambda>_.
              bind_op (entity_for v) (\<lambda>e.
              bind_op (modify_row ops e (\<lambda>q. q\<lparr>row_minimized_from := Some (row_workspace r)\<rparr>)) (\<lambda>_.
                return_op True)))) W)"

definition restore_minimized_view ::
  "('w, 'e, 'm) ecs_ops \<Rightarrow> view_id \<Rightarrow> (workspace_id option, ('w, 'e) compositor_world) op" where
  "restore_minimized_view ops v =
     bind_op (entity_for v) (\<lambda>e W.
       case Option.bind (ecs_get ops (cw_world W) e) row_minimized_from of
         None \<Rightarrow> (Done None, W)
       | Some origin \<Rightarrow> bind_op (move_view ops v origin) (\<lambda>_. return_op (Some origin)) W)"

end
