(* ===== verification/Ecs_World.thy ===== *)
theory Ecs_World
  imports Ecs_Model
begin

text \<open>
  Correctness of the compositor world. The locale \<open>entity_store\<close> states what the sources rely on
  of the entity store: a fresh entity per spawn, reads that see the last write, and queries that
  visit every live entity once.

  Seen through the index, a world is a table from view identifiers to rows. The invariant
  \<open>desk_inv\<close> of that table says that attachments point to registered views of the same workspace
  and form a forest, that a workspace has at most one focused view, that stacking orders are distinct
  and below the counter, and that a workspace with a cached layout has a geometry for every view.
\<close>

section \<open>The entity store\<close>

locale entity_store =
  fixes ops :: "('w, 'e, 'm) ecs_ops"
  assumes new_empty: "ecs_get ops (ecs_new ops) e = None"
    and spawn_fresh: "ecs_spawn ops r w = (e, w') \<Longrightarrow> ecs_get ops w e = None"
    and spawn_get: "ecs_spawn ops r w = (e, w') \<Longrightarrow> ecs_get ops w' = (ecs_get ops w)(e \<mapsto> r)"
    and put_get: "ecs_get ops w e \<noteq> None \<Longrightarrow> ecs_get ops (ecs_put ops e r w) = (ecs_get ops w)(e \<mapsto> r)"
    and despawn_flag: "ecs_despawn ops e w = (b, w') \<Longrightarrow> b = (ecs_get ops w e \<noteq> None)"
    and despawn_get: "ecs_despawn ops e w = (b, w') \<Longrightarrow> ecs_get ops w' = (ecs_get ops w)(e := None)"
    and iter_distinct: "distinct (ecs_iter ops w)"
    and iter_dom: "set (ecs_iter ops w) = dom (ecs_get ops w)"

text \<open>A store with one slot per entity ever spawned satisfies the contract.\<close>

definition slot_ops :: "('m view_row option list, nat, 'm) ecs_ops" where
  "slot_ops =
     \<lparr>ecs_new = [],
      ecs_get = (\<lambda>w e. if e < length w then w ! e else None),
      ecs_spawn = (\<lambda>r w. (length w, w @ [Some r])),
      ecs_put = (\<lambda>e r w. w[e := Some r]),
      ecs_despawn = (\<lambda>e w. (e < length w \<and> w ! e \<noteq> None, w[e := None])),
      ecs_iter = (\<lambda>w. filter (\<lambda>e. w ! e \<noteq> None) [0..<length w])\<rparr>"

interpretation slots: entity_store slot_ops
  by unfold_locales
    (auto simp: slot_ops_def fun_eq_iff nth_append nth_list_update dom_def split: if_splits)

section \<open>The table of views\<close>

definition owner_rel :: "(view_id \<rightharpoonup> 'm view_row) \<Rightarrow> (view_id \<times> view_id) set" where
  "owner_rel T = {(owner, v). \<exists>r. T v = Some r \<and> placement_owner (row_placement r) = Some owner}"

text \<open>A root and everything attached to it, directly or not.\<close>

definition family_of :: "(view_id \<rightharpoonup> 'm view_row) \<Rightarrow> view_id \<Rightarrow> view_id set" where
  "family_of T root = {v. (root, v) \<in> (owner_rel T)\<^sup>*}"

record 'm desk =
  desk_rows :: "view_id \<rightharpoonup> 'm view_row"
  desk_next :: u64
  desk_cached :: "workspace_id set"

definition attachments_ok :: "(view_id \<rightharpoonup> 'm view_row) \<Rightarrow> bool" where
  "attachments_ok T \<longleftrightarrow> acyclic (owner_rel T) \<and>
     (\<forall>v r owner. T v = Some r \<and> placement_owner (row_placement r) = Some owner \<longrightarrow>
        (\<exists>q. T owner = Some q \<and> row_workspace q = row_workspace r))"

definition focus_ok :: "(view_id \<rightharpoonup> 'm view_row) \<Rightarrow> bool" where
  "focus_ok T \<longleftrightarrow>
     (\<forall>u v p q. T u = Some p \<and> T v = Some q \<and> row_focused p \<and> row_focused q \<and>
        row_workspace p = row_workspace q \<longrightarrow> u = v)"

definition stacking_ok :: "(view_id \<rightharpoonup> 'm view_row) \<Rightarrow> u64 \<Rightarrow> bool" where
  "stacking_ok T n \<longleftrightarrow>
     (\<forall>v r. T v = Some r \<longrightarrow> 0 < row_stacking r \<and> row_stacking r < n) \<and>
     (\<forall>u v p q. T u = Some p \<and> T v = Some q \<and> row_stacking p = row_stacking q \<longrightarrow> u = v)"

definition cache_ok :: "(view_id \<rightharpoonup> 'm view_row) \<Rightarrow> workspace_id set \<Rightarrow> bool" where
  "cache_ok T C \<longleftrightarrow> (\<forall>v r. T v = Some r \<and> row_workspace r \<in> C \<longrightarrow> row_geometry r \<noteq> None)"

definition desk_inv :: "'m desk \<Rightarrow> bool" where
  "desk_inv D \<longleftrightarrow>
     finite (dom (desk_rows D)) \<and> (\<forall>v r. desk_rows D v = Some r \<longrightarrow> row_view r = v) \<and>
     attachments_ok (desk_rows D) \<and> focus_ok (desk_rows D) \<and>
     stacking_ok (desk_rows D) (desk_next D) \<and> cache_ok (desk_rows D) (desk_cached D)"

lemma desk_invD:
  assumes "desk_inv D"
  shows "finite (dom (desk_rows D))" "desk_rows D v = Some r \<Longrightarrow> row_view r = v"
    "attachments_ok (desk_rows D)" "focus_ok (desk_rows D)" "stacking_ok (desk_rows D) (desk_next D)"
    "cache_ok (desk_rows D) (desk_cached D)"
  using assms by (auto simp: desk_inv_def)

text \<open>Rows changed one by one, with the attachments kept.\<close>

lemma owner_rel_map:
  assumes "\<And>v r. T v = Some r \<Longrightarrow> \<exists>r'. T' v = Some r' \<and> placement_owner (row_placement r') = placement_owner (row_placement r)"
    and "\<And>v. T v = None \<Longrightarrow> T' v = None"
  shows "owner_rel T' = owner_rel T"
proof -
  have "(o', v) \<in> owner_rel T' \<longleftrightarrow> (o', v) \<in> owner_rel T" for o' v
    using assms[of v] by (cases "T v") (auto simp: owner_rel_def)
  then show ?thesis by auto
qed

lemma attachments_ok_map:
  assumes A: "attachments_ok T"
    and rows: "\<And>v. rel_option (\<lambda>r r'. placement_owner (row_placement r') = placement_owner (row_placement r) \<and>
        row_workspace r' = row_workspace r) (T v) (T' v)"
  shows "attachments_ok T'"
proof -
  have R: "owner_rel T' = owner_rel T"
  proof (rule owner_rel_map)
    show "\<exists>r'. T' v = Some r' \<and> placement_owner (row_placement r') = placement_owner (row_placement r)"
      if "T v = Some r" for v r using rows[of v] that by (cases "T' v") auto
    show "T' v = None" if "T v = None" for v using rows[of v] that by (cases "T' v") auto
  qed
  have "\<exists>q. T' owner = Some q \<and> row_workspace q = row_workspace r"
    if v: "T' v = Some r" "placement_owner (row_placement r) = Some owner" for v r owner
  proof -
    obtain r0 where r0: "T v = Some r0" "placement_owner (row_placement r0) = Some owner"
      "row_workspace r = row_workspace r0"
      using rows[of v] v by (cases "T v") auto
    then obtain q0 where "T owner = Some q0" "row_workspace q0 = row_workspace r0"
      using A unfolding attachments_ok_def by blast
    then show ?thesis using rows[of owner] r0(3) by (cases "T' owner") auto
  qed
  then show ?thesis using A unfolding attachments_ok_def R by blast
qed

lemma desk_inv_upd:
  assumes inv: "desk_inv D" and r: "desk_rows D v = Some r" and v: "row_view r' = v"
    and own: "placement_owner (row_placement r') = placement_owner (row_placement r)"
    and same: "row_workspace r' = row_workspace r" "row_stacking r' = row_stacking r"
      "row_focused r' = row_focused r" "row_geometry r \<noteq> None \<longrightarrow> row_geometry r' \<noteq> None"
    and C: "C \<subseteq> desk_cached D"
  shows "desk_inv \<lparr>desk_rows = (desk_rows D)(v \<mapsto> r'), desk_next = desk_next D, desk_cached = C\<rparr>"
proof -
  have "attachments_ok ((desk_rows D)(v \<mapsto> r'))"
    by (rule attachments_ok_map[OF desk_invD(3)[OF inv]]) (use r own same(1) in \<open>auto intro!: option.rel_refl\<close>)
  moreover have "focus_ok ((desk_rows D)(v \<mapsto> r'))"
    using desk_invD(4)[OF inv] r same(1,3) unfolding focus_ok_def by (auto split: if_splits)
  moreover have "stacking_ok ((desk_rows D)(v \<mapsto> r')) (desk_next D)"
    using desk_invD(5)[OF inv] r same(2) unfolding stacking_ok_def by (auto split: if_splits)
  moreover have "cache_ok ((desk_rows D)(v \<mapsto> r')) C"
    using desk_invD(6)[OF inv] r same(1,4) C unfolding cache_ok_def by (fastforce split: if_splits)
  ultimately show ?thesis
    using desk_invD(1,2)[OF inv] v by (auto simp: desk_inv_def)
qed

lemma owner_rel_dom: "attachments_ok T \<Longrightarrow> owner_rel T \<subseteq> dom T \<times> dom T"
  by (fastforce simp: attachments_ok_def owner_rel_def)

lemma owner_rel_unique: "(a, v) \<in> owner_rel T \<Longrightarrow> (b, v) \<in> owner_rel T \<Longrightarrow> a = b"
  by (auto simp: owner_rel_def)

text \<open>The number of strict ancestors: it goes down towards the root, and is below the number of
  views.\<close>

definition depth_of :: "(view_id \<rightharpoonup> 'm view_row) \<Rightarrow> view_id \<Rightarrow> nat" where
  "depth_of T v = card {a. (a, v) \<in> (owner_rel T)\<^sup>+}"

lemma ancestors_dom: "attachments_ok T \<Longrightarrow> {a. (a, v) \<in> (owner_rel T)\<^sup>+} \<subseteq> dom T"
  using trancl_mono_subset[OF owner_rel_dom] by (auto dest!: tranclD dest: owner_rel_dom[THEN subsetD])

lemma depth_less:
  assumes "attachments_ok T" "finite (dom T)" "(owner, v) \<in> owner_rel T"
  shows "depth_of T owner < depth_of T v"
proof -
  have "{a. (a, owner) \<in> (owner_rel T)\<^sup>+} \<subset> {a. (a, v) \<in> (owner_rel T)\<^sup>+}"
  proof (rule psubsetI)
    show "{a. (a, owner) \<in> (owner_rel T)\<^sup>+} \<subseteq> {a. (a, v) \<in> (owner_rel T)\<^sup>+}"
      using assms(3) by (auto intro: trancl_into_trancl)
    show "{a. (a, owner) \<in> (owner_rel T)\<^sup>+} \<noteq> {a. (a, v) \<in> (owner_rel T)\<^sup>+}"
      using assms(1,3) by (auto simp: attachments_ok_def acyclic_def)
  qed
  then show ?thesis
    unfolding depth_of_def by (rule psubset_card_mono[OF finite_subset[OF ancestors_dom[OF assms(1)] assms(2)]])
qed

lemma depth_bound:
  assumes "attachments_ok T" "finite (dom T)" "v \<in> dom T"
  shows "depth_of T v < card (dom T)"
proof -
  have "{a. (a, v) \<in> (owner_rel T)\<^sup>+} \<subset> dom T"
    using ancestors_dom[OF assms(1), of v] assms(1,3) by (auto simp: attachments_ok_def acyclic_def)
  then show ?thesis unfolding depth_of_def by (rule psubset_card_mono[OF assms(2)])
qed

text \<open>A family stays in the workspace of its root.\<close>

lemma family_workspace:
  assumes "attachments_ok T" "T root = Some r" "v \<in> family_of T root"
  shows "\<exists>q. T v = Some q \<and> row_workspace q = row_workspace r"
proof -
  have "(root, v) \<in> (owner_rel T)\<^sup>*" using assms(3) by (simp add: family_of_def)
  then show ?thesis
  proof (induction rule: rtrancl_induct)
    case (step y z)
    then show ?case using assms(1) by (fastforce simp: attachments_ok_def owner_rel_def)
  qed (simp add: assms(2))
qed

lemma family_root [simp]: "root \<in> family_of T root"
  by (simp add: family_of_def)

section \<open>The breadth-first family loop\<close>

definition family_progress ::
  "(view_id \<times> view_id) set \<Rightarrow> view_id \<Rightarrow> view_id list \<Rightarrow> nat \<Rightarrow> bool" where
  "family_progress R root fam i \<longleftrightarrow>
     distinct fam \<and> i \<le> length fam \<and> root \<in> set fam \<and> set fam \<subseteq> R\<^sup>* `` {root} \<and>
     (\<forall>v \<in> set fam. v = root \<or> (\<exists>j < i. (fam ! j, v) \<in> R)) \<and>
     (\<forall>j < i. R `` {fam ! j} \<subseteq> set fam)"

lemma family_progress_step:
  assumes P: "family_progress R root fam i" and i: "i < length fam"
    and ch: "set cs = R `` {fam ! i}" "distinct cs"
    and unique: "\<And>a b v. (a, v) \<in> R \<Longrightarrow> (b, v) \<in> R \<Longrightarrow> a = b" and acyc: "acyclic R"
  shows "family_progress R root (fam @ cs) (Suc i)"
proof -
  have "fam ! i \<in> R\<^sup>* `` {root}" using P nth_mem[OF i] unfolding family_progress_def by blast
  then have reach: "(root, fam ! i) \<in> R\<^sup>*" by simp
  have new: "c \<notin> set fam" if c: "(fam ! i, c) \<in> R" for c
  proof
    assume "c \<in> set fam"
    then consider "c = root" | j where "j < i" "(fam ! j, c) \<in> R" using P by (auto simp: family_progress_def)
    then show False
    proof cases
      case 1
      then have "(root, root) \<in> R\<^sup>+" using reach c by (meson rtrancl_into_trancl1)
      then show False using acyc by (auto simp: acyclic_def)
    next
      case 2
      then have "fam ! j = fam ! i" using unique c by blast
      then show False using P 2(1) i by (auto simp: family_progress_def nth_eq_iff_index_eq)
    qed
  qed
  have "set cs \<subseteq> R\<^sup>* `` {root}" using ch(1) reach by (auto intro: rtrancl_into_rtrancl)
  moreover have "\<forall>v \<in> set (fam @ cs). v = root \<or> (\<exists>j < Suc i. ((fam @ cs) ! j, v) \<in> R)"
  proof
    fix v assume "v \<in> set (fam @ cs)"
    then consider "v = root" | j where "j < i" "(fam ! j, v) \<in> R" | "(fam ! i, v) \<in> R"
      using P ch(1) by (auto simp: family_progress_def)
    then show "v = root \<or> (\<exists>j < Suc i. ((fam @ cs) ! j, v) \<in> R)"
    proof cases
      case 2
      then show ?thesis using i by (intro disjI2 exI[of _ j]) (simp add: nth_append)
    next
      case 3
      then show ?thesis using i by (intro disjI2 exI[of _ i]) (simp add: nth_append)
    qed simp
  qed
  moreover have "\<forall>j < Suc i. R `` {(fam @ cs) ! j} \<subseteq> set (fam @ cs)"
    using P i ch(1) by (auto simp: family_progress_def nth_append less_Suc_eq)
  ultimately show ?thesis
    using P i ch new by (auto simp: family_progress_def)
qed

lemma family_loop_spec:
  assumes ch: "\<And>v. set (ch v) = R `` {v}" "\<And>v. distinct (ch v)"
    and unique: "\<And>a b v. (a, v) \<in> R \<Longrightarrow> (b, v) \<in> R \<Longrightarrow> a = b" and acyc: "acyclic R"
    and fin: "finite U" "R\<^sup>* `` {root} \<subseteq> U"
    and P: "family_progress R root fam i"
  shows "\<exists>f. family_loop ch fam i = Some f \<and> distinct f \<and> set f = R\<^sup>* `` {root}"
  using P
proof (induction "card U - i" arbitrary: fam i rule: less_induct)
  case less
  show ?case
  proof (cases "i < length fam")
    case True
    have "length fam \<le> card U"
      using less.prems fin card_mono[OF fin(1), of "set fam"] by (auto simp: family_progress_def distinct_card)
    then have "card U - Suc i < card U - i" using True by linarith
    from less.hyps[OF this family_progress_step[OF less.prems True ch(1) ch(2) unique acyc]]
    show ?thesis using True by (simp add: family_loop.simps[of ch fam i])
  next
    case False
    then have i: "i = length fam" using less.prems by (simp add: family_progress_def)
    have closed: "R `` set fam \<subseteq> set fam"
      using less.prems i by (force simp: family_progress_def in_set_conv_nth)
    have "v \<in> set fam" if "(root, v) \<in> R\<^sup>*" for v
      using that less.prems closed by (induction rule: rtrancl_induct) (auto simp: family_progress_def)
    then have "set fam = R\<^sup>* `` {root}" using less.prems by (auto simp: family_progress_def)
    moreover have "family_loop ch fam i = Some fam" using False by (simp add: family_loop.simps[of ch fam i])
    ultimately show ?thesis using less.prems by (simp add: family_progress_def)
  qed
qed

section \<open>Worlds through the index\<close>

definition index_ok :: "('w, 'e, 'm) ecs_ops \<Rightarrow> ('w, 'e) compositor_world \<Rightarrow> bool" where
  "index_ok ops W \<longleftrightarrow>
     distinct (map fst (cw_view_entities W)) \<and> distinct (map snd (cw_view_entities W)) \<and>
     set (map snd (cw_view_entities W)) = dom (ecs_get ops (cw_world W)) \<and>
     (\<forall>v e r. (v, e) \<in> set (cw_view_entities W) \<and> ecs_get ops (cw_world W) e = Some r \<longrightarrow> row_view r = v)"

definition desk_of :: "('w, 'e, 'm) ecs_ops \<Rightarrow> ('w, 'e) compositor_world \<Rightarrow> 'm desk" where
  "desk_of ops W = \<lparr>desk_rows = view_row_of ops W, desk_next = cw_next_stacking W,
     desk_cached = dom (cw_layout_snapshots W)\<rparr>"

definition world_ok :: "('w, 'e, 'm) ecs_ops \<Rightarrow> ('w, 'e) compositor_world \<Rightarrow> bool" where
  "world_ok ops W \<longleftrightarrow> index_ok ops W \<and> desk_inv (desk_of ops W) \<and> 0 < cw_next_stacking W"

lemma desk_of_simps [simp]:
  "desk_rows (desk_of ops W) = view_row_of ops W" "desk_next (desk_of ops W) = cw_next_stacking W"
  "desk_cached (desk_of ops W) = dom (cw_layout_snapshots W)"
  by (simp_all add: desk_of_def)

lemma world_okD:
  assumes "world_ok ops W"
  shows "index_ok ops W" "attachments_ok (view_row_of ops W)" "focus_ok (view_row_of ops W)"
    "stacking_ok (view_row_of ops W) (cw_next_stacking W)"
    "cache_ok (view_row_of ops W) (dom (cw_layout_snapshots W))" "finite (dom (view_row_of ops W))"
    "view_row_of ops W v = Some r \<Longrightarrow> row_view r = v" "0 < cw_next_stacking W" "desk_inv (desk_of ops W)"
  using assms desk_invD[of "desk_of ops W"] by (auto simp: world_ok_def)

lemma map_of_entity:
  "index_ok ops W \<Longrightarrow> map_of (cw_view_entities W) v = Some e \<longleftrightarrow> (v, e) \<in> set (cw_view_entities W)"
  by (auto simp: index_ok_def dest: map_of_SomeD)

lemma entity_live:
  assumes "index_ok ops W" "map_of (cw_view_entities W) v = Some e"
  obtains r where "ecs_get ops (cw_world W) e = Some r" "view_row_of ops W v = Some r" "row_view r = v"
proof -
  have mem: "(v, e) \<in> set (cw_view_entities W)" using assms by (simp add: map_of_entity)
  then have "e \<in> dom (ecs_get ops (cw_world W))" using assms(1) by (force simp: index_ok_def)
  then obtain r where "ecs_get ops (cw_world W) e = Some r" by auto
  then show thesis using that mem assms by (auto simp: index_ok_def view_row_of_def)
qed

lemma entity_unique:
  "index_ok ops W \<Longrightarrow> (v, e) \<in> set (cw_view_entities W) \<Longrightarrow> (u, e) \<in> set (cw_view_entities W) \<Longrightarrow> u = v"
  using inj_onD[of snd "set (cw_view_entities W)" "(v, e)" "(u, e)"] unfolding index_ok_def distinct_map by simp

lemma rows_dom:
  assumes "index_ok ops W"
  shows "dom (view_row_of ops W) = fst ` set (cw_view_entities W)" "card (dom (view_row_of ops W)) = length (cw_view_entities W)"
proof -
  show d: "dom (view_row_of ops W) = fst ` set (cw_view_entities W)"
  proof (intro equalityI subsetI)
    fix v assume "v \<in> dom (view_row_of ops W)"
    then show "v \<in> fst ` set (cw_view_entities W)"
      by (force simp: view_row_of_def bind_eq_Some_conv dest!: map_of_SomeD)
  next
    fix v assume "v \<in> fst ` set (cw_view_entities W)"
    then obtain e where "map_of (cw_view_entities W) v = Some e"
      using assms by (auto simp: map_of_entity)
    then show "v \<in> dom (view_row_of ops W)" by (rule entity_live[OF assms]) auto
  qed
  show "card (dom (view_row_of ops W)) = length (cw_view_entities W)"
    unfolding d using assms distinct_card[of "map fst (cw_view_entities W)"] by (simp add: index_ok_def)
qed

text \<open>A registered view gives its entity and row, an unregistered one gives neither.\<close>

lemma view_cases:
  assumes "index_ok ops W"
  obtains (missing) "map_of (cw_view_entities W) v = None" "view_row_of ops W v = None"
  | (live) e r where "map_of (cw_view_entities W) v = Some e" "ecs_get ops (cw_world W) e = Some r"
      "view_row_of ops W v = Some r" "row_view r = v"
proof (cases "map_of (cw_view_entities W) v")
  case None
  then show thesis using missing by (simp add: view_row_of_def)
next
  case (Some e)
  then show thesis using live entity_live[OF assms Some] by blast
qed

section \<open>The operations on the table\<close>

text \<open>What the operations do, said on the table of rows.\<close>

definition unfocus :: "workspace_id \<Rightarrow> 'm view_row \<Rightarrow> 'm view_row" where
  "unfocus ws r = (if row_workspace r = ws then r\<lparr>row_focused := False\<rparr> else r)"

definition moved :: "workspace_id \<Rightarrow> 'm view_row \<Rightarrow> 'm view_row" where
  "moved ws r = r\<lparr>row_workspace := ws, row_geometry := None, row_minimized_from := None\<rparr>"

definition family_focused :: "(view_id \<rightharpoonup> 'm view_row) \<Rightarrow> view_id \<Rightarrow> bool" where
  "family_focused T root \<longleftrightarrow> (\<exists>v \<in> family_of T root. \<exists>r. T v = Some r \<and> row_focused r)"

definition table_move :: "(view_id \<rightharpoonup> 'm view_row) \<Rightarrow> view_id \<Rightarrow> workspace_id \<Rightarrow> (view_id \<rightharpoonup> 'm view_row)" where
  "table_move T root ws = (\<lambda>v.
     if v \<in> family_of T root then map_option (moved ws) (T v)
     else if family_focused T root then map_option (unfocus ws) (T v) else T v)"

definition table_focus :: "(view_id \<rightharpoonup> 'm view_row) \<Rightarrow> view_id \<Rightarrow> workspace_id \<Rightarrow> (view_id \<rightharpoonup> 'm view_row)" where
  "table_focus T v ws = (\<lambda>u.
     if u = v then map_option (\<lambda>r. r\<lparr>row_focused := True\<rparr>) (T u) else map_option (unfocus ws) (T u))"

fun restack :: "u64 \<Rightarrow> view_id list \<Rightarrow> (view_id \<rightharpoonup> 'm view_row) \<Rightarrow> (view_id \<rightharpoonup> 'm view_row)" where
  "restack n [] T = T"
| "restack n (v # vs) T = restack (n + 1) vs (T(v := map_option (\<lambda>r. r\<lparr>row_stacking := n\<rparr>) (T v)))"

lemma unfocus_simps [simp]:
  "row_view (unfocus ws r) = row_view r" "row_workspace (unfocus ws r) = row_workspace r"
  "row_placement (unfocus ws r) = row_placement r" "row_stacking (unfocus ws r) = row_stacking r"
  "row_geometry (unfocus ws r) = row_geometry r"
  "row_focused (unfocus ws r) \<longleftrightarrow> row_focused r \<and> row_workspace r \<noteq> ws"
  by (auto simp: unfocus_def)

lemma moved_simps [simp]:
  "row_view (moved ws r) = row_view r" "row_workspace (moved ws r) = ws"
  "row_placement (moved ws r) = row_placement r" "row_stacking (moved ws r) = row_stacking r"
  "row_focused (moved ws r) = row_focused r"
  by (simp_all add: moved_def)

lemma restack_other: "v \<notin> set vs \<Longrightarrow> restack n vs T v = T v"
  by (induction vs arbitrary: n T) auto

lemma restack_nth:
  "distinct vs \<Longrightarrow> i < length vs \<Longrightarrow>
   restack n vs T (vs ! i) = map_option (\<lambda>r. r\<lparr>row_stacking := n + int i\<rparr>) (T (vs ! i))"
proof (induction vs arbitrary: n T i)
  case (Cons v vs)
  then show ?case
  proof (cases i)
    case 0
    then show ?thesis using Cons.prems by (simp add: restack_other)
  next
    case (Suc j)
    then have "vs ! j \<noteq> v" using Cons.prems by auto
    then show ?thesis using Cons Suc by (simp add: algebra_simps)
  qed
qed simp

text \<open>Restacking gives each listed view a new order, counted from \<open>n\<close>.\<close>

lemma restack_cases:
  assumes "distinct vs" "restack n vs T v = Some r"
  obtains (kept) "v \<notin> set vs" "T v = Some r"
  | (raised) i q where "i < length vs" "v = vs ! i" "T v = Some q" "r = q\<lparr>row_stacking := n + int i\<rparr>"
proof (cases "v \<in> set vs")
  case True
  then obtain i where i: "i < length vs" "v = vs ! i" by (auto simp: in_set_conv_nth)
  then show thesis using raised restack_nth[OF assms(1) i(1), of n T] assms(2) by auto
qed (use assms kept in \<open>auto simp: restack_other\<close>)

lemma restack_None_iff: "distinct vs \<Longrightarrow> restack n vs T v = None \<longleftrightarrow> T v = None"
  by (cases "v \<in> set vs") (auto simp: restack_other restack_nth in_set_conv_nth)

lemma restack_inv:
  assumes inv: "desk_inv \<lparr>desk_rows = T, desk_next = n, desk_cached = C\<rparr>" and d: "distinct vs" and n: "0 < n"
  shows "desk_inv \<lparr>desk_rows = restack n vs T, desk_next = n + int (length vs), desk_cached = C\<rparr>"
proof -
  let ?T = "restack n vs T"
  have I: "finite (dom T)" "\<And>v r. T v = Some r \<Longrightarrow> row_view r = v" "attachments_ok T" "focus_ok T"
    "stacking_ok T n" "cache_ok T C"
    using desk_invD[OF inv] by auto
  have orig: "\<exists>q. T v = Some q \<and> row_view r = row_view q \<and> row_workspace r = row_workspace q \<and>
      row_placement r = row_placement q \<and> row_focused r = row_focused q \<and> row_geometry r = row_geometry q"
    if "?T v = Some r" for v r
    by (rule restack_cases[OF d that]) auto
  have "rel_option (\<lambda>r r'. placement_owner (row_placement r') = placement_owner (row_placement r) \<and>
      row_workspace r' = row_workspace r) (T v) (?T v)" for v
    using orig[of v] restack_None_iff[OF d, of n T v] by (cases "T v"; cases "?T v") auto
  then have "attachments_ok ?T" by (rule attachments_ok_map[OF I(3)])
  moreover have "focus_ok ?T" using I(4) orig unfolding focus_ok_def by metis
  moreover have "cache_ok ?T C" using I(6) orig unfolding cache_ok_def by metis
  moreover have "finite (dom ?T)"
    using I(1) restack_None_iff[OF d, of n T] by (simp add: dom_def)
  moreover have "\<forall>v r. ?T v = Some r \<longrightarrow> row_view r = v" using I(2) orig by metis
  moreover have "stacking_ok ?T (n + int (length vs))"
  proof -
    have st: "(v \<notin> set vs \<and> 0 < row_stacking r \<and> row_stacking r < n) \<or>
        (\<exists>i < length vs. v = vs ! i \<and> row_stacking r = n + int i)" if "?T v = Some r" for v r
      using that by (rule restack_cases[OF d]) (use I(5) in \<open>auto simp: stacking_ok_def\<close>)
    have "u = v" if "?T u = Some p" "?T v = Some q" "row_stacking p = row_stacking q" for u v p q
    proof (cases "u \<in> set vs \<or> v \<in> set vs")
      case True
      then show ?thesis using st[OF that(1)] st[OF that(2)] that(3) by auto
    next
      case False
      then show ?thesis using that I(5) by (auto simp: restack_other stacking_ok_def)
    qed
    moreover have "0 < row_stacking r \<and> row_stacking r < n + int (length vs)" if "?T v = Some r" for v r
      using st[OF that] n by auto
    ultimately show ?thesis unfolding stacking_ok_def by blast
  qed
  ultimately show ?thesis by (simp add: desk_inv_def)
qed

lemma stacking_ok_from:
  assumes S: "stacking_ok T n" and orig: "\<And>v p. M v = Some p \<Longrightarrow> \<exists>q. T v = Some q \<and> row_stacking p = row_stacking q"
  shows "stacking_ok M n"
proof -
  have "u = v" if "M u = Some p" "M v = Some q" "row_stacking p = row_stacking q" for u v p q
    using orig[OF that(1)] orig[OF that(2)] that(3) S unfolding stacking_ok_def by auto
  moreover have "0 < row_stacking p \<and> row_stacking p < n" if "M v = Some p" for v p
    using orig[OF that] S unfolding stacking_ok_def by auto
  ultimately show ?thesis unfolding stacking_ok_def by blast
qed

lemma cache_ok_from:
  assumes S: "cache_ok T C" and orig: "\<And>v p. M v = Some p \<Longrightarrow> row_workspace p \<in> C' \<Longrightarrow>
      \<exists>q. T v = Some q \<and> row_workspace q \<in> C \<and> row_geometry p = row_geometry q"
  shows "cache_ok M C'"
  using S orig unfolding cache_ok_def by metis

text \<open>Moving a family: it leaves as a whole, so no attachment crosses workspaces, and where it
  brings the focus along, the target workspace gives its own up.\<close>

lemma family_step:
  assumes "(owner, v) \<in> owner_rel T" "v \<noteq> root \<or> T root = Some r \<and> placement_owner (row_placement r) = None"
  shows "v \<in> family_of T root \<longleftrightarrow> owner \<in> family_of T root"
proof
  assume "v \<in> family_of T root"
  then have "(root, v) \<in> (owner_rel T)\<^sup>*" by (simp add: family_of_def)
  then show "owner \<in> family_of T root"
  proof (cases rule: rtranclE)
    case base
    then show ?thesis using assms by (auto simp: owner_rel_def)
  next
    case (step y)
    then show ?thesis using owner_rel_unique[OF assms(1) step(2)] by (simp add: family_of_def)
  qed
next
  assume "owner \<in> family_of T root"
  then show "v \<in> family_of T root" using assms(1) by (auto simp: family_of_def intro: rtrancl_into_rtrancl)
qed

lemma table_move_attachments:
  assumes A: "attachments_ok T" and r: "T root = Some r" "placement_owner (row_placement r) = None"
  shows "attachments_ok (table_move T root ws)"
proof -
  let ?T = "table_move T root ws"
  have row: "\<exists>r'. ?T v = Some r' \<and> row_placement r' = row_placement q \<and>
      row_workspace r' = (if v \<in> family_of T root then ws else row_workspace q)" if "T v = Some q" for v q
    using that by (auto simp: table_move_def)
  have none: "?T v = None \<longleftrightarrow> T v = None" for v by (simp add: table_move_def)
  have R: "owner_rel ?T = owner_rel T"
    by (rule owner_rel_map) (use row none in \<open>fastforce+\<close>)
  have "\<exists>q. ?T owner = Some q \<and> row_workspace q = row_workspace r'"
    if v: "?T v = Some r'" "placement_owner (row_placement r') = Some owner" for v r' owner
  proof -
    obtain q where q: "T v = Some q" using none[of v] v(1) by (cases "T v") auto
    have e: "row_placement r' = row_placement q" "row_workspace r' = (if v \<in> family_of T root then ws else row_workspace q)"
      using row[OF q] v(1) by auto
    obtain qo where qo: "T owner = Some qo" "row_workspace qo = row_workspace q"
      using A q v(2) e(1) unfolding attachments_ok_def by metis
    have "(owner, v) \<in> owner_rel T" using q v(2) e(1) by (auto simp: owner_rel_def)
    then have "v \<in> family_of T root \<longleftrightarrow> owner \<in> family_of T root"
      using family_step r by blast
    then show ?thesis using row[OF qo(1)] qo(2) e(2) by auto
  qed
  then show ?thesis using A unfolding attachments_ok_def R by blast
qed

lemma table_move_inv:
  assumes inv: "desk_inv D" and r: "desk_rows D root = Some r" "placement_owner (row_placement r) = None"
    and ws: "row_workspace r \<noteq> ws" and C: "C \<subseteq> desk_cached D - {row_workspace r, ws}"
  shows "desk_inv \<lparr>desk_rows = table_move (desk_rows D) root ws, desk_next = desk_next D, desk_cached = C\<rparr>"
proof -
  let ?T = "desk_rows D" and ?F = "family_of (desk_rows D) root"
  let ?M = "table_move ?T root ws"
  have orig: "\<exists>q. ?T v = Some q \<and> row_view p = row_view q \<and> row_stacking p = row_stacking q \<and>
      (if v \<in> ?F then row_workspace p = ws \<and> row_focused p = row_focused q \<and> row_workspace q = row_workspace r
       else row_workspace p = row_workspace q \<and> row_geometry p = row_geometry q \<and>
         (row_focused p \<longrightarrow> row_focused q \<and> (family_focused ?T root \<longrightarrow> row_workspace q \<noteq> ws)))"
    if "?M v = Some p" for v p
    using that family_workspace[OF desk_invD(3)[OF inv] r(1), of v]
    by (auto simp: table_move_def split: if_splits)
  have foc: "family_focused ?T root" if "v \<in> ?F" "?M v = Some p" "row_focused p" for v p
    using orig[OF that(2)] that by (auto simp: family_focused_def)
  have "u = v" if h: "?M u = Some p" "?M v = Some q" "row_focused p" "row_focused q" "row_workspace p = row_workspace q"
    for u v p q
  proof -
    obtain p0 q0 where p0: "?T u = Some p0" "?T v = Some q0" "row_focused p0" "row_focused q0"
      using orig[OF h(1)] orig[OF h(2)] h(3,4) by (auto split: if_splits)
    have "row_workspace p0 = row_workspace q0"
      using orig[OF h(1)] orig[OF h(2)] p0 h(3-5) foc[OF _ h(1,3)] foc[OF _ h(2,4)] by (auto split: if_splits)
    then show ?thesis using p0 desk_invD(4)[OF inv] unfolding focus_ok_def by blast
  qed
  then have "focus_ok ?M" unfolding focus_ok_def by blast
  moreover have "stacking_ok ?M (desk_next D)"
    by (rule stacking_ok_from[OF desk_invD(5)[OF inv]]) (use orig in blast)
  moreover have "cache_ok ?M C"
  proof (rule cache_ok_from[OF desk_invD(6)[OF inv]])
    fix v p assume h: "?M v = Some p" "row_workspace p \<in> C"
    then show "\<exists>q. ?T v = Some q \<and> row_workspace q \<in> desk_cached D \<and> row_geometry p = row_geometry q"
      using orig[OF h(1)] C by (auto split: if_splits)
  qed
  moreover have "finite (dom ?M)" using desk_invD(1)[OF inv]
    by (rule finite_subset[rotated]) (auto simp: table_move_def dom_def split: if_splits)
  moreover have "\<forall>v p. ?M v = Some p \<longrightarrow> row_view p = v" using orig desk_invD(2)[OF inv] by metis
  ultimately show ?thesis
    using table_move_attachments[OF desk_invD(3)[OF inv] r] by (simp add: desk_inv_def)
qed

lemma table_focus_inv:
  assumes inv: "desk_inv D" and r: "desk_rows D v = Some r" "row_workspace r = ws"
  shows "desk_inv \<lparr>desk_rows = table_focus (desk_rows D) v ws, desk_next = desk_next D, desk_cached = desk_cached D\<rparr>"
proof -
  let ?T = "desk_rows D" and ?M = "table_focus (desk_rows D) v ws"
  have orig: "\<exists>q. ?T u = Some q \<and> row_view p = row_view q \<and> row_stacking p = row_stacking q \<and>
      row_workspace p = row_workspace q \<and> row_geometry p = row_geometry q \<and> row_placement p = row_placement q \<and>
      (row_focused p \<longrightarrow> u = v \<or> row_focused q \<and> row_workspace q \<noteq> ws)"
    if "?M u = Some p" for u p
    using that by (auto simp: table_focus_def split: if_splits)
  have "attachments_ok ?M"
    by (rule attachments_ok_map[OF desk_invD(3)[OF inv]]) (auto simp: table_focus_def option.rel_map option.rel_refl)
  moreover have "a = b" if h: "?M a = Some p" "?M b = Some q" "row_focused p" "row_focused q" "row_workspace p = row_workspace q"
    for a b p q
  proof -
    obtain p0 q0 where p0: "?T a = Some p0" "?T b = Some q0" "row_workspace p = row_workspace p0"
      "row_workspace q = row_workspace q0" "a = v \<or> row_focused p0 \<and> row_workspace p0 \<noteq> ws"
      "b = v \<or> row_focused q0 \<and> row_workspace q0 \<noteq> ws"
      using orig[OF h(1)] orig[OF h(2)] h(3,4) by auto
    show ?thesis
    proof (cases "a = v \<or> b = v")
      case True
      then show ?thesis using p0 h(5) r by auto
    next
      case False
      then show ?thesis using p0 h(5) desk_invD(4)[OF inv] unfolding focus_ok_def by metis
    qed
  qed
  moreover have "stacking_ok ?M (desk_next D)"
    by (rule stacking_ok_from[OF desk_invD(5)[OF inv]]) (use orig in blast)
  moreover have "cache_ok ?M (desk_cached D)"
    by (rule cache_ok_from[OF desk_invD(6)[OF inv]]) (use orig in fastforce)
  moreover have "finite (dom ?M)" using desk_invD(1)[OF inv]
    by (rule finite_subset[rotated]) (auto simp: table_focus_def dom_def split: if_splits)
  moreover have "\<forall>v p. ?M v = Some p \<longrightarrow> row_view p = v" using orig desk_invD(2)[OF inv] by metis
  ultimately show ?thesis unfolding desk_inv_def focus_ok_def by simp
qed

lemma table_remove_inv:
  assumes inv: "desk_inv D" and leaf: "owner_rel (desk_rows D) `` {v} = {}" and C: "C \<subseteq> desk_cached D"
  shows "desk_inv \<lparr>desk_rows = (desk_rows D)(v := None), desk_next = desk_next D, desk_cached = C\<rparr>"
proof -
  have sub: "owner_rel ((desk_rows D)(v := None)) \<subseteq> owner_rel (desk_rows D)"
    by (auto simp: owner_rel_def split: if_splits)
  have "\<exists>q. ((desk_rows D)(v := None)) owner = Some q \<and> row_workspace q = row_workspace s"
    if h: "((desk_rows D)(v := None)) u = Some s" "placement_owner (row_placement s) = Some owner" for u s owner
  proof -
    have u: "desk_rows D u = Some s" using h(1) by (auto split: if_splits)
    then have "owner \<noteq> v" using leaf h(2) by (auto simp: owner_rel_def)
    then show ?thesis using u h(2) desk_invD(3)[OF inv] unfolding attachments_ok_def by auto
  qed
  then have "attachments_ok ((desk_rows D)(v := None))"
    using desk_invD(3)[OF inv] acyclic_subset[OF _ sub] unfolding attachments_ok_def by blast
  moreover have orig: "desk_rows D u = Some s" if "((desk_rows D)(v := None)) u = Some s" for u s
    using that by (auto split: if_splits)
  have "focus_ok ((desk_rows D)(v := None))"
    using desk_invD(4)[OF inv] orig unfolding focus_ok_def by blast
  moreover have "stacking_ok ((desk_rows D)(v := None)) (desk_next D)"
    by (rule stacking_ok_from[OF desk_invD(5)[OF inv]]) (use orig in blast)
  moreover have "cache_ok ((desk_rows D)(v := None)) C"
    by (rule cache_ok_from[OF desk_invD(6)[OF inv]]) (use orig C in blast)
  moreover have "\<forall>u s. ((desk_rows D)(v := None)) u = Some s \<longrightarrow> row_view s = u"
    using desk_invD(2)[OF inv] orig by blast
  ultimately show ?thesis using desk_invD(1)[OF inv] by (simp add: desk_inv_def)
qed

lemma table_spawn_inv:
  assumes inv: "desk_inv D" and new: "desk_rows D v = None" and n: "0 < desk_next D"
    and C: "C \<subseteq> desk_cached D - {ws}"
  shows "desk_inv \<lparr>desk_rows = (desk_rows D)(v \<mapsto> spawn_row v ws (desk_next D)), desk_next = desk_next D + 1, desk_cached = C\<rparr>"
proof -
  have R: "owner_rel ((desk_rows D)(v \<mapsto> spawn_row v ws (desk_next D))) = owner_rel (desk_rows D)"
    using new by (auto simp: owner_rel_def spawn_row_def)
  have "attachments_ok ((desk_rows D)(v \<mapsto> spawn_row v ws (desk_next D)))"
    using desk_invD(3)[OF inv] new unfolding attachments_ok_def R by (fastforce simp: spawn_row_def split: if_splits)
  moreover have "focus_ok ((desk_rows D)(v \<mapsto> spawn_row v ws (desk_next D)))"
    using desk_invD(4)[OF inv] unfolding focus_ok_def by (auto simp: spawn_row_def split: if_splits)
  moreover have "stacking_ok ((desk_rows D)(v \<mapsto> spawn_row v ws (desk_next D))) (desk_next D + 1)"
    using desk_invD(5)[OF inv] n unfolding stacking_ok_def by (fastforce simp: spawn_row_def split: if_splits)
  moreover have "cache_ok ((desk_rows D)(v \<mapsto> spawn_row v ws (desk_next D))) C"
    using desk_invD(6)[OF inv] C unfolding cache_ok_def by (auto simp: spawn_row_def split: if_splits)
  ultimately show ?thesis
    using desk_invD(1,2)[OF inv] by (auto simp: desk_inv_def spawn_row_def)
qed

text \<open>A new placement: harmless without an owner; with one, the owner is of the same workspace and
  not attached, directly or not, to the view itself.\<close>

lemma table_place_inv:
  assumes inv: "desk_inv D" and r: "desk_rows D v = Some r"
    and own: "\<And>owner. placement_owner p = Some owner \<Longrightarrow>
      (\<exists>q. desk_rows D owner = Some q \<and> row_workspace q = row_workspace r) \<and> (v, owner) \<notin> (owner_rel (desk_rows D))\<^sup>*"
    and C: "C \<subseteq> desk_cached D"
  shows "desk_inv \<lparr>desk_rows = (desk_rows D)(v \<mapsto> r\<lparr>row_placement := p\<rparr>), desk_next = desk_next D, desk_cached = C\<rparr>"
proof -
  let ?T = "desk_rows D" and ?M = "(desk_rows D)(v \<mapsto> r\<lparr>row_placement := p\<rparr>)"
  have "acyclic (owner_rel ?M)"
  proof (cases "placement_owner p")
    case None
    then have "owner_rel ?M \<subseteq> owner_rel ?T" by (auto simp: owner_rel_def split: if_splits)
    then show ?thesis using desk_invD(3)[OF inv] acyclic_subset unfolding attachments_ok_def by blast
  next
    case (Some owner)
    then have "owner_rel ?M \<subseteq> insert (owner, v) (owner_rel ?T)" by (auto simp: owner_rel_def split: if_splits)
    moreover have "acyclic (insert (owner, v) (owner_rel ?T))"
      using desk_invD(3)[OF inv] own[OF Some] by (simp add: attachments_ok_def acyclic_insert)
    ultimately show ?thesis using acyclic_subset by blast
  qed
  moreover have "\<exists>q. ?M owner = Some q \<and> row_workspace q = row_workspace s"
    if h: "?M u = Some s" "placement_owner (row_placement s) = Some owner" for u s owner
  proof -
    have "\<exists>q. ?T owner = Some q \<and> row_workspace q = row_workspace s"
    proof (cases "u = v")
      case True
      then show ?thesis using h own[of owner] by auto
    next
      case False
      then show ?thesis using h desk_invD(3)[OF inv] unfolding attachments_ok_def by auto
    qed
    then show ?thesis using r by auto
  qed
  ultimately have "attachments_ok ?M" unfolding attachments_ok_def by blast
  moreover have "focus_ok ?M" using desk_invD(4)[OF inv] r unfolding focus_ok_def by (auto split: if_splits)
  moreover have "stacking_ok ?M (desk_next D)"
    using desk_invD(5)[OF inv] r unfolding stacking_ok_def by (auto split: if_splits)
  moreover have "cache_ok ?M C" using desk_invD(6)[OF inv] r C unfolding cache_ok_def by (auto split: if_splits)
  ultimately show ?thesis using desk_invD(1,2)[OF inv] r by (auto simp: desk_inv_def)
qed

section \<open>Primitive operations\<close>

lemma mem_map_filter: "y \<in> set (List.map_filter f xs) \<longleftrightarrow> (\<exists>x \<in> set xs. f x = Some y)"
  by (induction xs) (auto simp: List.map_filter_def)

lemma map_fst_map_filter:
  "map fst (List.map_filter (\<lambda>e. map_option (Pair e) (g e)) es) = filter (\<lambda>e. g e \<noteq> None) es"
  by (induction es) (auto simp: List.map_filter_def)

lemma distinct_map_filter_key:
  "distinct (map fst xs) \<Longrightarrow> (\<And>p y. p \<in> set xs \<Longrightarrow> f p = Some y \<Longrightarrow> y = fst p) \<Longrightarrow> distinct (List.map_filter f xs)"
proof (induction xs)
  case (Cons p xs)
  have "y \<in> fst ` set xs" if "y \<in> set (List.map_filter f xs)" for y
    using that Cons.prems(2) by (auto simp: mem_map_filter)
  then show ?case
    using Cons by (cases "f p") (auto simp: List.map_filter_simps)
qed (simp add: List.map_filter_simps)

lemma bind_op_Done [simp]: "m s = (Done a, s') \<Longrightarrow> bind_op m f s = f a s'"
  by (simp add: bind_op_def)

lemma bind_op_return [simp]: "bind_op (return_op a) f s = f a s"
  by (simp add: bind_op_def return_op_def)

lemma return_op_app [simp]: "return_op a s = (Done a, s)"
  by (simp add: return_op_def)

lemma fail_op_app [simp]: "fail_op e s = (Failed e, s)"
  by (simp add: fail_op_def)

lemma bind_op_Failed [simp]: "m s = (Failed e, s') \<Longrightarrow> bind_op m f s = (Failed e, s')"
  by (simp add: bind_op_def)

lemma bind_op_Panic [simp]: "m s = (Panic, s') \<Longrightarrow> bind_op m f s = (Panic, s')"
  by (simp add: bind_op_def)

lemma drop_snapshot_simps [simp]:
  "drop_snapshot ws W = (Done (), W\<lparr>cw_layout_snapshots := (cw_layout_snapshots W)(ws := None)\<rparr>)"
  by (simp add: drop_snapshot_def)

lemma view_row_of_cong:
  "cw_world W' = cw_world W \<Longrightarrow> cw_view_entities W' = cw_view_entities W \<Longrightarrow> view_row_of ops W' = view_row_of ops W"
  by (simp add: view_row_of_def fun_eq_iff)

lemma index_ok_cong:
  "cw_world W' = cw_world W \<Longrightarrow> cw_view_entities W' = cw_view_entities W \<Longrightarrow> index_ok ops W' = index_ok ops W"
  by (simp add: index_ok_def)

text \<open>The world with another table: what the proofs of the operations keep track of.\<close>

definition re_rows ::
  "('w, 'e, 'm) ecs_ops \<Rightarrow> ('w, 'e) compositor_world \<Rightarrow> (view_id \<rightharpoonup> 'm view_row) \<Rightarrow> ('w, 'e) compositor_world \<Rightarrow> bool" where
  "re_rows ops W T W' \<longleftrightarrow>
     index_ok ops W' \<and> view_row_of ops W' = T \<and> cw_view_entities W' = cw_view_entities W \<and>
     cw_next_stacking W' = cw_next_stacking W \<and> cw_layout_snapshots W' = cw_layout_snapshots W \<and>
     cw_layout_states W' = cw_layout_states W \<and> cw_appearance W' = cw_appearance W"

lemma re_rowsD:
  assumes "re_rows ops W T W'"
  shows "index_ok ops W'" "view_row_of ops W' = T" "cw_view_entities W' = cw_view_entities W"
    "cw_next_stacking W' = cw_next_stacking W" "cw_layout_snapshots W' = cw_layout_snapshots W"
    "cw_layout_states W' = cw_layout_states W" "cw_appearance W' = cw_appearance W"
  using assms by (simp_all add: re_rows_def)

lemma re_rows_refl: "index_ok ops W \<Longrightarrow> re_rows ops W (view_row_of ops W) W"
  by (simp add: re_rows_def)

lemma re_rows_trans: "re_rows ops W T W1 \<Longrightarrow> re_rows ops W1 T' W2 \<Longrightarrow> re_rows ops W T' W2"
  by (simp add: re_rows_def)

context entity_store
begin

lemma modify_row_spec:
  assumes ok: "index_ok ops W" and e: "map_of (cw_view_entities W) v = Some e"
    and r: "view_row_of ops W v = Some r" and f: "row_view (f r) = v"
  shows "\<exists>W'. modify_row ops e f W = (Done (), W') \<and> re_rows ops W ((view_row_of ops W)(v \<mapsto> f r)) W'"
proof -
  have get: "ecs_get ops (cw_world W) e = Some r" using e r by (simp add: view_row_of_def)
  let ?W = "W\<lparr>cw_world := ecs_put ops e (f r) (cw_world W)\<rparr>"
  have g: "ecs_get ops (cw_world ?W) = (ecs_get ops (cw_world W))(e \<mapsto> f r)"
    using put_get[of "cw_world W" e "f r"] get by simp
  have mem: "(v, e) \<in> set (cw_view_entities W)" using e by (rule map_of_SomeD)
  have "view_row_of ops ?W u = ((view_row_of ops W)(v \<mapsto> f r)) u" for u
  proof (cases "map_of (cw_view_entities W) u")
    case None
    then show ?thesis using e by (auto simp: view_row_of_def)
  next
    case (Some e')
    then have "e' = e \<longleftrightarrow> u = v"
      using entity_unique[OF ok mem, of u] map_of_SomeD[OF Some] e by fastforce
    then show ?thesis using Some g by (simp add: view_row_of_def)
  qed
  moreover have "index_ok ops ?W"
  proof -
    have "row_view q = u" if m: "(u, e') \<in> set (cw_view_entities W)"
      and q: "((ecs_get ops (cw_world W))(e \<mapsto> f r)) e' = Some q" for u e' q
    proof (cases "e' = e")
      case True
      then show ?thesis using entity_unique[OF ok mem] m q f by auto
    next
      case False
      then have "ecs_get ops (cw_world W) e' = Some q" using q by simp
      then show ?thesis using m ok unfolding index_ok_def by blast
    qed
    moreover have "dom ((ecs_get ops (cw_world W))(e \<mapsto> f r)) = dom (ecs_get ops (cw_world W))"
      using get by auto
    ultimately show ?thesis using ok unfolding index_ok_def g by simp
  qed
  ultimately show ?thesis using get by (auto simp: modify_row_def re_rows_def)
qed

lemma query_rows_set:
  assumes "index_ok ops W"
  shows "(e, r) \<in> set (query_rows ops W) \<longleftrightarrow>
    (\<exists>v. map_of (cw_view_entities W) v = Some e \<and> view_row_of ops W v = Some r \<and> row_view r = v)"
proof
  assume "(e, r) \<in> set (query_rows ops W)"
  then have g: "ecs_get ops (cw_world W) e = Some r" by (auto simp: query_rows_def mem_map_filter)
  then have "e \<in> snd ` set (cw_view_entities W)" using assms by (auto simp: index_ok_def)
  then obtain v where "(v, e) \<in> set (cw_view_entities W)" by auto
  then have "map_of (cw_view_entities W) v = Some e" using assms by (simp add: map_of_entity)
  then show "\<exists>v. map_of (cw_view_entities W) v = Some e \<and> view_row_of ops W v = Some r \<and> row_view r = v"
    using entity_live[OF assms] g by (metis option.inject)
next
  assume "\<exists>v. map_of (cw_view_entities W) v = Some e \<and> view_row_of ops W v = Some r \<and> row_view r = v"
  then have "ecs_get ops (cw_world W) e = Some r" by (auto simp: view_row_of_def)
  then show "(e, r) \<in> set (query_rows ops W)"
    using iter_dom[of "cw_world W"] by (force simp: query_rows_def mem_map_filter)
qed

lemma query_rows_distinct: "distinct (map fst (query_rows ops W))"
  using iter_distinct by (simp add: query_rows_def map_fst_map_filter)

lemma attached_children_spec:
  assumes "index_ok ops W"
  shows "set (attached_children ops W owner) = owner_rel (view_row_of ops W) `` {owner}"
    "distinct (attached_children ops W owner)"
proof -
  let ?f = "\<lambda>(v, e). case ecs_get ops (cw_world W) e of None \<Rightarrow> None
      | Some r \<Rightarrow> if placement_owner (row_placement r) = Some owner then Some v else None"
  have "v \<in> set (List.map_filter ?f (cw_view_entities W)) \<longleftrightarrow> (owner, v) \<in> owner_rel (view_row_of ops W)" for v
  proof -
    have "v \<in> set (List.map_filter ?f (cw_view_entities W)) \<longleftrightarrow>
        (\<exists>e r. (v, e) \<in> set (cw_view_entities W) \<and> ecs_get ops (cw_world W) e = Some r \<and>
           placement_owner (row_placement r) = Some owner)"
      unfolding mem_map_filter by (force split: option.splits if_splits)
    also have "\<dots> \<longleftrightarrow> (owner, v) \<in> owner_rel (view_row_of ops W)"
      using map_of_entity[OF assms] by (auto simp: owner_rel_def view_row_of_def bind_eq_Some_conv)
    finally show ?thesis .
  qed
  then show "set (attached_children ops W owner) = owner_rel (view_row_of ops W) `` {owner}"
    by (auto simp: attached_children_def)
  have "distinct (List.map_filter ?f (cw_view_entities W))"
    using assms by (intro distinct_map_filter_key) (auto simp: index_ok_def split: option.splits if_splits)
  then show "distinct (attached_children ops W owner)" by (simp add: attached_children_def)
qed

lemma view_family_spec:
  assumes "index_ok ops W" "attachments_ok (view_row_of ops W)" "finite (dom (view_row_of ops W))"
    and "view_row_of ops W root = Some r"
  shows "\<exists>f. view_family ops root W = (Done f, W) \<and> distinct f \<and> set f = family_of (view_row_of ops W) root"
proof -
  let ?R = "owner_rel (view_row_of ops W)"
  have sub: "?R\<^sup>* `` {root} \<subseteq> dom (view_row_of ops W)"
    using family_workspace[OF assms(2,4)] by (auto simp: family_of_def)
  have "\<exists>f. family_loop (attached_children ops W) [root] 0 = Some f \<and> distinct f \<and> set f = ?R\<^sup>* `` {root}"
    using assms(2) attached_children_spec[OF assms(1)] owner_rel_unique
    by (intro family_loop_spec[OF _ _ _ _ assms(3) sub]) (auto simp: family_progress_def attachments_ok_def)
  then show ?thesis by (auto simp: view_family_def family_of_def)
qed

text \<open>An operation that only changes one row, in a way the invariant does not see.\<close>

lemma world_ok_re_rows:
  assumes "re_rows ops W T W'" "0 < cw_next_stacking W"
    "desk_inv \<lparr>desk_rows = T, desk_next = cw_next_stacking W, desk_cached = dom (cw_layout_snapshots W)\<rparr>"
  shows "world_ok ops W'"
  using assms by (simp add: re_rows_def world_ok_def desk_of_def)

lemma world_ok_drop:
  assumes "index_ok ops W'" "view_row_of ops W' = T" "cw_next_stacking W' = n" "0 < n"
    and "desk_inv \<lparr>desk_rows = T, desk_next = n, desk_cached = dom (cw_layout_snapshots W') - {ws}\<rparr>"
  shows "world_ok ops (W'\<lparr>cw_layout_snapshots := (cw_layout_snapshots W')(ws := None)\<rparr>)"
proof -
  let ?W = "W'\<lparr>cw_layout_snapshots := (cw_layout_snapshots W')(ws := None)\<rparr>"
  have "view_row_of ops ?W = T" "index_ok ops ?W" "dom (cw_layout_snapshots ?W) = dom (cw_layout_snapshots W') - {ws}"
    using assms(1,2) view_row_of_cong[of ?W W' ops] index_ok_cong[of ?W W' ops] by auto
  then show ?thesis using assms(3-5) by (simp add: world_ok_def desk_of_def)
qed

text \<open>A loop that changes the rows of distinct views, one per step.\<close>

lemma each_op_rows:
  assumes step: "\<And>x W. x \<in> set xs \<Longrightarrow> index_ok ops W \<Longrightarrow> cw_view_entities W = E \<Longrightarrow>
      \<exists>W'. act x W = (Done (), W') \<and>
        re_rows ops W ((view_row_of ops W)(k x := map_option f (view_row_of ops W (k x)))) W'"
    and "distinct (map k xs)" "index_ok ops W" "cw_view_entities W = E"
  shows "\<exists>W'. each_op act xs W = (Done (), W') \<and>
    re_rows ops W (\<lambda>v. if v \<in> k ` set xs then map_option f (view_row_of ops W v) else view_row_of ops W v) W'"
  using assms
proof (induction xs arbitrary: W)
  case Nil
  then show ?case using re_rows_refl by auto
next
  case (Cons x xs)
  obtain W1 where W1: "act x W = (Done (), W1)"
    "re_rows ops W ((view_row_of ops W)(k x := map_option f (view_row_of ops W (k x)))) W1"
    using Cons.prems(1)[OF list.set_intros(1) Cons.prems(3,4)] by blast
  note r1 = re_rowsD[OF W1(2)]
  have "\<exists>W'. each_op act xs W1 = (Done (), W') \<and>
      re_rows ops W1 (\<lambda>v. if v \<in> k ` set xs then map_option f (view_row_of ops W1 v) else view_row_of ops W1 v) W'"
    using Cons.prems by (intro Cons.IH) (simp_all add: r1)
  then obtain W2 where W2: "each_op act xs W1 = (Done (), W2)"
    "re_rows ops W1 (\<lambda>v. if v \<in> k ` set xs then map_option f (view_row_of ops W1 v) else view_row_of ops W1 v) W2"
    by blast
  have "(\<lambda>v. if v \<in> k ` set xs then map_option f (view_row_of ops W1 v) else view_row_of ops W1 v) =
      (\<lambda>v. if v \<in> k ` set (x # xs) then map_option f (view_row_of ops W v) else view_row_of ops W v)"
    using Cons.prems(2) unfolding r1(2) by (auto simp: fun_eq_iff)
  then show ?case using W1(1) W2 re_rows_trans[OF W1(2)] by auto
qed

end

end
