(* ===== verification/Ecs_Operations.thy ===== *)
theory Ecs_Operations
  imports Ecs_World
begin

text \<open>
  The operations of the compositor world, one by one: what each does to the table of views, which
  errors it reports, and that it keeps the invariant \<open>world_ok\<close>. The reachable worlds are an
  inductive relation over all operations; its invariant gives the properties at the end: no panic and
  no endless loop in a reachable world with room in the stacking counter, a single focus per
  workspace, families that stay together, and scenes that stay renderable.
\<close>

section \<open>Lookups\<close>

lemma entity_for_simps [simp]:
  "map_of (cw_view_entities W) v = Some e \<Longrightarrow> entity_for v W = (Done e, W)"
  "map_of (cw_view_entities W) v = None \<Longrightarrow> entity_for v W = (Failed (MissingViewId v), W)"
  by (simp_all add: entity_for_def)

lemma index_entity_simps [simp]:
  "map_of (cw_view_entities W) v = Some e \<Longrightarrow> index_entity v W = (Done e, W)"
  by (simp add: index_entity_def)

lemma get_row_simps [simp]:
  "ecs_get ops (cw_world W) e = Some r \<Longrightarrow> get_row ops e W = (Done r, W)"
  by (simp add: get_row_def)

lemma map_of_filter_key:
  "map_of (filter (\<lambda>p. fst p \<noteq> v) xs) u = (if u = v then None else map_of xs u)"
  by (induction xs) auto

text \<open>Room in the stacking counter for one operation, and fewer views than a \<open>u32\<close> counts.\<close>

definition has_room :: "('w, 'e) compositor_world \<Rightarrow> bool" where
  "has_room W \<longleftrightarrow> cw_next_stacking W + int (length (cw_view_entities W)) < U64_MAX \<and>
     int (length (cw_view_entities W)) < U32_MAX"

text \<open>A change of a row that attachments, focus, stacking and cached layouts do not see.\<close>

definition benign :: "('m view_row \<Rightarrow> 'm view_row) \<Rightarrow> 'm view_row \<Rightarrow> bool" where
  "benign f r \<longleftrightarrow>
     row_view (f r) = row_view r \<and> row_workspace (f r) = row_workspace r \<and>
     placement_owner (row_placement (f r)) = placement_owner (row_placement r) \<and>
     row_stacking (f r) = row_stacking r \<and> row_focused (f r) = row_focused r \<and>
     (row_geometry r \<noteq> None \<longrightarrow> row_geometry (f r) \<noteq> None)"

text \<open>What the safety argument needs of one operation.\<close>

definition safe_result :: "('w, 'e, 'm) ecs_ops \<Rightarrow> 'a outcome \<times> ('w, 'e) compositor_world \<Rightarrow> bool" where
  "safe_result ops res \<longleftrightarrow> fst res \<noteq> Panic \<and> fst res \<noteq> Hangs \<and> world_ok ops (snd res)"

text \<open>When an attachment is accepted.\<close>

definition may_own :: "(view_id \<rightharpoonup> 'm view_row) \<Rightarrow> view_id \<Rightarrow> workspace_id \<Rightarrow> view_id \<Rightarrow> bool" where
  "may_own T v ws owner \<longleftrightarrow> owner \<notin> family_of T v \<and> (\<exists>q. T owner = Some q \<and> row_workspace q = ws)"

context entity_store
begin

lemma benign_modify:
  assumes ok: "world_ok ops W" and e: "map_of (cw_view_entities W) v = Some e"
    and r: "view_row_of ops W v = Some r" and f: "benign f r"
  obtains W' where "modify_row ops e f W = (Done (), W')"
    "re_rows ops W ((view_row_of ops W)(v \<mapsto> f r)) W'" "world_ok ops W'"
proof -
  have v: "row_view (f r) = v" using f world_okD(7)[OF ok r] by (simp add: benign_def)
  obtain W' where W': "modify_row ops e f W = (Done (), W')" "re_rows ops W ((view_row_of ops W)(v \<mapsto> f r)) W'"
    using modify_row_spec[OF world_okD(1)[OF ok] e r, of f] v by blast
  have "desk_inv \<lparr>desk_rows = (view_row_of ops W)(v \<mapsto> f r), desk_next = cw_next_stacking W,
      desk_cached = dom (cw_layout_snapshots W)\<rparr>"
    using desk_inv_upd[OF world_okD(9)[OF ok], of v r "f r" "dom (cw_layout_snapshots W)"] r v f
    by (simp add: benign_def)
  then show thesis using that W' world_ok_re_rows[OF W'(2) world_okD(8)[OF ok]] by blast
qed

lemma world_ok_forget [intro!]:
  assumes "world_ok ops W"
  shows "world_ok ops (W\<lparr>cw_layout_snapshots := (cw_layout_snapshots W)(ws := None)\<rparr>)"
proof -
  have "cache_ok (view_row_of ops W) (dom (cw_layout_snapshots W) - {ws})"
    by (rule cache_ok_from[OF world_okD(5)[OF assms]]) auto
  then have "desk_inv \<lparr>desk_rows = view_row_of ops W, desk_next = cw_next_stacking W,
      desk_cached = dom (cw_layout_snapshots W) - {ws}\<rparr>"
    using world_okD(9)[OF assms] by (simp add: desk_inv_def)
  then show ?thesis by (rule world_ok_drop[OF world_okD(1)[OF assms] refl refl world_okD(8)[OF assms]])
qed

lemma safe_return [simp]: "safe_result ops (Done a, W) = world_ok ops W"
  by (simp add: safe_result_def)

lemma safe_fail [simp]: "safe_result ops (Failed e, W) = world_ok ops W"
  by (simp add: safe_result_def)

lemma safe_lookup:
  assumes "world_ok ops W"
    and "\<And>e r. map_of (cw_view_entities W) v = Some e \<Longrightarrow> ecs_get ops (cw_world W) e = Some r \<Longrightarrow>
      view_row_of ops W v = Some r \<Longrightarrow> row_view r = v \<Longrightarrow> safe_result ops (F e W)"
  shows "safe_result ops (bind_op (entity_for v) F W)"
proof (rule view_cases[OF world_okD(1)[OF assms(1)], of v])
  assume "map_of (cw_view_entities W) v = None"
  then show ?thesis using assms(1) by (simp add: safe_result_def)
next
  fix e r
  assume "map_of (cw_view_entities W) v = Some e" "ecs_get ops (cw_world W) e = Some r"
    "view_row_of ops W v = Some r" "row_view r = v"
  then show ?thesis using assms(2)[of e r] by simp
qed

lemma safe_modify:
  assumes "world_ok ops W" "map_of (cw_view_entities W) v = Some e" "view_row_of ops W v = Some r" "benign f r"
    and "\<And>W'. re_rows ops W ((view_row_of ops W)(v \<mapsto> f r)) W' \<Longrightarrow> world_ok ops W' \<Longrightarrow> safe_result ops (k () W')"
  shows "safe_result ops (bind_op (modify_row ops e f) k W)"
proof -
  obtain W' where "modify_row ops e f W = (Done (), W')"
    "re_rows ops W ((view_row_of ops W)(v \<mapsto> f r)) W'" "world_ok ops W'"
    by (rule benign_modify[OF assms(1-4)])
  then show ?thesis using assms(5)[of W'] by simp
qed

section \<open>Attribute changes\<close>

lemma set_view_effects_safe: "world_ok ops W \<Longrightarrow> safe_result ops (set_view_effects ops v effects W)"
  unfolding set_view_effects_def
  by (rule safe_lookup, assumption) (auto simp: benign_def intro!: safe_modify[where v = v])

lemma set_view_content_safe: "world_ok ops W \<Longrightarrow> safe_result ops (set_view_content ops v surfaces W)"
  unfolding set_view_content_def
  by (rule safe_lookup, assumption) (auto simp: benign_def intro!: safe_modify[where v = v])

lemma set_presentation_hint_safe: "world_ok ops W \<Longrightarrow> safe_result ops (set_presentation_hint ops v hint W)"
  unfolding set_presentation_hint_def
  by (rule safe_lookup, assumption) (auto simp: benign_def intro!: safe_modify[where v = v])

lemma set_view_layout_safe: "world_ok ops W \<Longrightarrow> safe_result ops (set_view_layout ops v l W)"
  unfolding set_view_layout_def
  by (rule safe_lookup, assumption) (auto simp: benign_def intro!: safe_modify[where v = v])

lemma set_view_constraints_safe: "world_ok ops W \<Longrightarrow> safe_result ops (set_view_constraints ops v c W)"
  unfolding set_view_constraints_def
  by (rule safe_lookup, assumption) (auto simp: benign_def intro!: safe_modify[where v = v])

lemma update_floating_geometry_safe: "world_ok ops W \<Longrightarrow> safe_result ops (update_floating_geometry ops v g W)"
  unfolding update_floating_geometry_def
  by (rule safe_lookup, assumption) (auto simp: benign_def intro!: safe_modify[where v = v] split: view_placement.splits)

lemma set_view_backdrop_effect_safe:
  assumes "world_ok ops W"
  shows "safe_result ops (set_view_backdrop_effect ops v blur region W)"
  unfolding set_view_backdrop_effect_def
proof (rule safe_lookup[OF assms])
  fix e r
  assume h: "map_of (cw_view_entities W) v = Some e" "ecs_get ops (cw_world W) e = Some r"
    "view_row_of ops W v = Some r" "row_view r = v"
  show "safe_result ops (bind_op (get_row ops e) (\<lambda>r.
       if effect_backdrop_blur (row_effects r) = blur \<and> row_backdrop r = region then return_op False
       else bind_op (modify_row ops e (\<lambda>r. r\<lparr>row_effects := (row_effects r)\<lparr>effect_backdrop_blur := blur\<rparr>\<rparr>)) (\<lambda>_.
            bind_op (modify_row ops e (\<lambda>r. r\<lparr>row_backdrop := region\<rparr>)) (\<lambda>_. return_op True))) W)"
    using h assms
    by (auto simp: benign_def re_rows_def intro!: safe_modify[OF assms h(1,3)] safe_modify[where v = v])
qed

lemma set_appearance_safe: "world_ok ops W \<Longrightarrow> safe_result ops (set_appearance a W)"
  using view_row_of_cong[of "W\<lparr>cw_appearance := a\<rparr>" W ops] index_ok_cong[of "W\<lparr>cw_appearance := a\<rparr>" W ops]
  by (simp add: safe_result_def set_appearance_def world_ok_def desk_of_def)

lemma reset_layout_states_safe:
  assumes "world_ok ops W"
  shows "safe_result ops (reset_layout_states W)"
proof -
  let ?W = "W\<lparr>cw_layout_states := Map.empty, cw_layout_snapshots := Map.empty\<rparr>"
  have "view_row_of ops ?W = view_row_of ops W" "index_ok ops ?W = index_ok ops W"
    by (rule view_row_of_cong index_ok_cong; simp)+
  moreover have "cache_ok (view_row_of ops W) {}" by (simp add: cache_ok_def)
  ultimately show ?thesis
    using assms by (simp add: safe_result_def reset_layout_states_def world_ok_def desk_of_def desk_inv_def)
qed

section \<open>Spawning and removing\<close>

lemma spawn_view_Done:
  assumes ok: "world_ok ops W" and room: "has_room W" and new: "view_row_of ops W v = None"
  shows "\<exists>W'. spawn_view ops v ws W = (Done (), W') \<and> world_ok ops W' \<and>
    view_row_of ops W' = (view_row_of ops W)(v \<mapsto> spawn_row v ws (cw_next_stacking W))"
proof -
  have idx: "index_ok ops W" by (rule world_okD(1)[OF ok])
  have nov: "map_of (cw_view_entities W) v = None"
    using view_cases[OF idx, of v] new by (metis option.distinct(1))
  obtain e w' where sp: "ecs_spawn ops (spawn_row v ws (cw_next_stacking W)) (cw_world W) = (e, w')" by fastforce
  note g = spawn_get[OF sp] and fresh = spawn_fresh[OF sp]
  define W1 where "W1 = W\<lparr>cw_next_stacking := cw_next_stacking W + 1, cw_world := w',
      cw_view_entities := (v, e) # cw_view_entities W\<rparr>"
  have ne: "e \<notin> snd ` set (cw_view_entities W)" using idx fresh by (auto simp: index_ok_def)
  have nv: "v \<notin> fst ` set (cw_view_entities W)" using nov by (simp add: map_of_eq_None_iff)
  have T: "view_row_of ops W1 = (view_row_of ops W)(v \<mapsto> spawn_row v ws (cw_next_stacking W))"
  proof
    fix u
    show "view_row_of ops W1 u = ((view_row_of ops W)(v \<mapsto> spawn_row v ws (cw_next_stacking W))) u"
    proof (cases "map_of (cw_view_entities W) u")
      case (Some e')
      then have "e' \<noteq> e" using ne by (force dest: map_of_SomeD)
      then show ?thesis using Some nov by (auto simp: W1_def view_row_of_def g)
    qed (auto simp: W1_def view_row_of_def g)
  qed
  have "index_ok ops W1"
  proof -
    have "row_view q = u" if "(u, e') \<in> set (cw_view_entities W1)" "ecs_get ops (cw_world W1) e' = Some q" for u e' q
    proof (cases "e' = e")
      case True
      then have "u = v" using that(1) ne by (force simp: W1_def)
      then show ?thesis using that True by (auto simp: W1_def g spawn_row_def)
    next
      case False
      then show ?thesis using that idx unfolding index_ok_def by (auto simp: W1_def g)
    qed
    moreover have "distinct (map fst (cw_view_entities W1))" "distinct (map snd (cw_view_entities W1))"
      "set (map snd (cw_view_entities W1)) = dom (ecs_get ops (cw_world W1))"
      using idx ne nv unfolding index_ok_def by (simp_all add: W1_def g)
    ultimately show ?thesis unfolding index_ok_def by blast
  qed
  moreover have "desk_inv \<lparr>desk_rows = (view_row_of ops W)(v \<mapsto> spawn_row v ws (cw_next_stacking W)),
      desk_next = cw_next_stacking W + 1, desk_cached = dom (cw_layout_snapshots W1) - {ws}\<rparr>"
    using table_spawn_inv[OF world_okD(9)[OF ok], of v "dom (cw_layout_snapshots W) - {ws}" ws] new world_okD(8)[OF ok]
    by (simp add: W1_def)
  ultimately have "world_ok ops (W1\<lparr>cw_layout_snapshots := (cw_layout_snapshots W1)(ws := None)\<rparr>)"
    using world_okD(8)[OF ok] by (intro world_ok_drop[OF _ T]) (auto simp: W1_def)
  moreover have "spawn_view ops v ws W = (Done (), W1\<lparr>cw_layout_snapshots := (cw_layout_snapshots W1)(ws := None)\<rparr>)"
    using nov sp room by (simp add: spawn_view_def allocate_stacking_order_def bind_op_def has_room_def W1_def Let_def)
  moreover have "view_row_of ops (W1\<lparr>cw_layout_snapshots := (cw_layout_snapshots W1)(ws := None)\<rparr>) = view_row_of ops W1"
    by (rule view_row_of_cong) simp_all
  ultimately show ?thesis using T by auto
qed

lemma spawn_view_duplicate:
  assumes "world_ok ops W" "view_row_of ops W v \<noteq> None"
  shows "spawn_view ops v ws W = (Failed (DuplicateViewId v), W)"
  by (rule view_cases[OF world_okD(1)[OF assms(1)], of v]) (use assms(2) in \<open>auto simp: spawn_view_def\<close>)

lemma attached_children_empty:
  assumes "index_ok ops W"
  shows "attached_children ops W v = [] \<longleftrightarrow> owner_rel (view_row_of ops W) `` {v} = {}"
  using attached_children_spec(1)[OF assms, of v] by (metis set_empty)

lemma remove_view_Done:
  assumes ok: "world_ok ops W" and r: "view_row_of ops W v = Some r"
    and leaf: "owner_rel (view_row_of ops W) `` {v} = {}"
  shows "\<exists>W'. remove_view ops v W = (Done (), W') \<and> world_ok ops W' \<and>
    view_row_of ops W' = (view_row_of ops W)(v := None)"
proof -
  have idx: "index_ok ops W" by (rule world_okD(1)[OF ok])
  obtain e where e: "map_of (cw_view_entities W) v = Some e" "ecs_get ops (cw_world W) e = Some r"
    using view_cases[OF idx, of v] r by (metis option.distinct(1) option.inject)
  have mem: "(v, e) \<in> set (cw_view_entities W)" by (rule map_of_SomeD[OF e(1)])
  obtain b w' where ds: "ecs_despawn ops e (cw_world W) = (b, w')" by fastforce
  have b: "b" using despawn_flag[OF ds] e(2) by simp
  note g = despawn_get[OF ds]
  define W1 where "W1 = W\<lparr>cw_view_entities := filter (\<lambda>p. fst p \<noteq> v) (cw_view_entities W), cw_world := w'\<rparr>"
  have only: "u = v \<longleftrightarrow> e' = e" if "(u, e') \<in> set (cw_view_entities W)" for u e'
    using that mem entity_unique[OF idx mem, of u] eq_key_imp_eq_value[of "cw_view_entities W" v e e'] idx
    by (auto simp: index_ok_def)
  have ents: "map_of (filter (\<lambda>p. fst p \<noteq> v) (cw_view_entities W)) u = (if u = v then None else map_of (cw_view_entities W) u)" for u
    by (rule map_of_filter_key)
  have T: "view_row_of ops W1 = (view_row_of ops W)(v := None)"
  proof
    fix u
    show "view_row_of ops W1 u = ((view_row_of ops W)(v := None)) u"
      using only[OF map_of_SomeD, of u] by (cases "map_of (cw_view_entities W) u") (auto simp: view_row_of_def W1_def ents g)
  qed
  have "index_ok ops W1"
  proof -
    have "row_view q = u" if "(u, e') \<in> set (cw_view_entities W1)" "ecs_get ops (cw_world W1) e' = Some q" for u e' q
      using that idx unfolding index_ok_def by (auto simp: W1_def g split: if_splits)
    moreover have "distinct (map fst (cw_view_entities W1))" "distinct (map snd (cw_view_entities W1))"
      using idx unfolding index_ok_def W1_def by (simp_all add: distinct_map_filter)
    moreover have "set (map snd (cw_view_entities W1)) = dom (ecs_get ops (cw_world W1))"
    proof -
      have "set (map snd (cw_view_entities W1)) = snd ` set (cw_view_entities W) - {e}"
        using only by (force simp: W1_def)
      then show ?thesis using idx by (auto simp: W1_def g index_ok_def)
    qed
    ultimately show ?thesis unfolding index_ok_def by blast
  qed
  moreover have "desk_inv \<lparr>desk_rows = (view_row_of ops W)(v := None), desk_next = cw_next_stacking W,
      desk_cached = dom (cw_layout_snapshots W1) - {row_workspace r}\<rparr>"
    using table_remove_inv[OF world_okD(9)[OF ok], of v "dom (cw_layout_snapshots W) - {row_workspace r}"] leaf
    by (auto simp: W1_def)
  ultimately have "world_ok ops (W1\<lparr>cw_layout_snapshots := (cw_layout_snapshots W1)(row_workspace r := None)\<rparr>)"
    using world_okD(8)[OF ok] by (intro world_ok_drop[OF _ T]) (auto simp: W1_def)
  moreover have "remove_view ops v W = (Done (), W1\<lparr>cw_layout_snapshots := (cw_layout_snapshots W1)(row_workspace r := None)\<rparr>)"
    using leaf e ds b attached_children_empty[OF idx, of v] by (simp add: remove_view_def W1_def bind_op_def get_row_def)
  moreover have "view_row_of ops (W1\<lparr>cw_layout_snapshots := (cw_layout_snapshots W1)(row_workspace r := None)\<rparr>) = view_row_of ops W1"
    by (rule view_row_of_cong) simp_all
  ultimately show ?thesis using T by auto
qed

lemma remove_view_refused:
  assumes ok: "world_ok ops W"
  shows "owner_rel (view_row_of ops W) `` {v} \<noteq> {} \<Longrightarrow>
      \<exists>child. remove_view ops v W = (Failed (AttachedChild v child), W) \<and> (v, child) \<in> owner_rel (view_row_of ops W)"
    "owner_rel (view_row_of ops W) `` {v} = {} \<Longrightarrow> view_row_of ops W v = None \<Longrightarrow>
      remove_view ops v W = (Failed (MissingViewId v), W)"
proof -
  have idx: "index_ok ops W" by (rule world_okD(1)[OF ok])
  show "\<exists>child. remove_view ops v W = (Failed (AttachedChild v child), W) \<and> (v, child) \<in> owner_rel (view_row_of ops W)"
    if child: "owner_rel (view_row_of ops W) `` {v} \<noteq> {}"
  proof -
    obtain c cs where c: "attached_children ops W v = c # cs"
      using child attached_children_empty[OF idx, of v] by (cases "attached_children ops W v") auto
    then have "(v, c) \<in> owner_rel (view_row_of ops W)" using attached_children_spec(1)[OF idx, of v] by auto
    then show ?thesis using c by (auto simp: remove_view_def)
  qed
  show "remove_view ops v W = (Failed (MissingViewId v), W)"
    if "owner_rel (view_row_of ops W) `` {v} = {}" "view_row_of ops W v = None"
  proof (rule view_cases[OF idx, of v])
    assume "map_of (cw_view_entities W) v = None"
    then show ?thesis using that attached_children_empty[OF idx, of v] by (simp add: remove_view_def)
  qed (use that in auto)
qed

section \<open>Attachment chains\<close>

lemma ancestor_loop_spec:
  assumes A: "attachments_ok (view_row_of ops W)" "finite (dom (view_row_of ops W))"
    and "view_row_of ops W v = Some r" "depth_of (view_row_of ops W) v < n"
  shows "\<exists>root q. ancestor_loop n ops W v = Some root \<and> (root, v) \<in> (owner_rel (view_row_of ops W))\<^sup>* \<and>
    view_row_of ops W root = Some q \<and> placement_owner (row_placement q) = None"
  using assms(3,4)
proof (induction n arbitrary: v r)
  case (Suc n)
  show ?case
  proof (cases "placement_owner (row_placement r)")
    case None
    then show ?thesis using Suc.prems by (auto simp: view_placement_of_def)
  next
    case (Some owner)
    then have e: "(owner, v) \<in> owner_rel (view_row_of ops W)" using Suc.prems(1) by (auto simp: owner_rel_def)
    obtain q where q: "view_row_of ops W owner = Some q"
      using A(1) Suc.prems(1) Some unfolding attachments_ok_def by blast
    have "depth_of (view_row_of ops W) owner < n" using depth_less[OF A e] Suc.prems(2) by simp
    from Suc.IH[OF q this] show ?thesis
      using Suc.prems(1) Some e by (auto simp: view_placement_of_def intro: rtrancl_into_rtrancl)
  qed
qed simp

lemma tiled_ancestor_spec:
  assumes ok: "world_ok ops W" and r: "view_row_of ops W v = Some r"
  obtains root q where "tiled_ancestor ops W v = Some root" "v \<in> family_of (view_row_of ops W) root"
    "view_row_of ops W root = Some q" "placement_owner (row_placement q) = None" "row_workspace q = row_workspace r"
proof -
  have "depth_of (view_row_of ops W) v < length (cw_view_entities W)"
    using depth_bound[OF world_okD(2,6)[OF ok], of v] r rows_dom(2)[OF world_okD(1)[OF ok]] by auto
  from ancestor_loop_spec[OF world_okD(2,6)[OF ok] r this]
  obtain root q where a: "tiled_ancestor ops W v = Some root" "(root, v) \<in> (owner_rel (view_row_of ops W))\<^sup>*"
    "view_row_of ops W root = Some q" "placement_owner (row_placement q) = None"
    unfolding tiled_ancestor_def by blast
  then have f: "v \<in> family_of (view_row_of ops W) root" by (simp add: family_of_def)
  then have "row_workspace q = row_workspace r" using family_workspace[OF world_okD(2)[OF ok] a(3) f] r by auto
  then show thesis using that a f by blast
qed

lemma cycle_loop_spec:
  assumes A: "attachments_ok (view_row_of ops W)" "finite (dom (view_row_of ops W))"
    and "view_row_of ops W u = Some r" "depth_of (view_row_of ops W) u < n"
  shows "cycle_loop n ops W v u \<longleftrightarrow> (v, u) \<in> (owner_rel (view_row_of ops W))\<^sup>*"
  using assms(3,4)
proof (induction n arbitrary: u r)
  case (Suc n)
  have step: "(v, u) \<in> (owner_rel (view_row_of ops W))\<^sup>* \<longleftrightarrow> u = v \<or>
      (\<exists>owner. placement_owner (row_placement r) = Some owner \<and> (v, owner) \<in> (owner_rel (view_row_of ops W))\<^sup>*)"
    using Suc.prems(1) by (auto simp: owner_rel_def elim: rtranclE intro: rtrancl_into_rtrancl)
  show ?case
  proof (cases "placement_owner (row_placement r)")
    case None
    then show ?thesis using Suc.prems step by (auto simp: view_placement_of_def)
  next
    case (Some owner)
    then have e: "(owner, u) \<in> owner_rel (view_row_of ops W)" using Suc.prems(1) by (auto simp: owner_rel_def)
    obtain q where q: "view_row_of ops W owner = Some q"
      using A(1) Suc.prems(1) Some unfolding attachments_ok_def by blast
    have "depth_of (view_row_of ops W) owner < n" using depth_less[OF A e] Suc.prems(2) by simp
    from Suc.IH[OF q this] show ?thesis
      using Suc.prems(1) Some step by (auto simp: view_placement_of_def)
  qed
qed simp

lemma attachment_would_cycle_spec:
  assumes ok: "world_ok ops W" and r: "view_row_of ops W owner = Some r"
  shows "attachment_would_cycle ops W v owner \<longleftrightarrow> owner \<in> family_of (view_row_of ops W) v"
proof -
  have "depth_of (view_row_of ops W) owner < length (cw_view_entities W)"
    using depth_bound[OF world_okD(2,6)[OF ok], of owner] r rows_dom(2)[OF world_okD(1)[OF ok]] by auto
  then show ?thesis
    using cycle_loop_spec[OF world_okD(2,6)[OF ok] r] by (simp add: attachment_would_cycle_def family_of_def)
qed

lemma check_owner_spec:
  assumes ok: "world_ok ops W"
  shows "(\<forall>owner. placement_owner p = Some owner \<longrightarrow> may_own (view_row_of ops W) v ws owner) \<Longrightarrow>
      check_owner ops v ws p W = (Done (), W)"
    "placement_owner p = Some owner \<Longrightarrow> \<not> may_own (view_row_of ops W) v ws owner \<Longrightarrow>
      \<exists>err. check_owner ops v ws p W = (Failed err, W)"
proof -
  have idx: "index_ok ops W" by (rule world_okD(1)[OF ok])
  have cyc: "attachment_would_cycle ops W v o' \<longleftrightarrow> o' \<in> family_of (view_row_of ops W) v"
    if "view_row_of ops W o' = Some q" for o' q
    by (rule attachment_would_cycle_spec[OF ok that])
  show "check_owner ops v ws p W = (Done (), W)"
    if own: "\<forall>owner. placement_owner p = Some owner \<longrightarrow> may_own (view_row_of ops W) v ws owner"
  proof (cases "placement_owner p")
    case None
    then show ?thesis by (simp add: check_owner_def)
  next
    case (Some owner)
    show ?thesis
      by (rule view_cases[OF idx, of owner])
        (use own Some cyc in \<open>auto simp: check_owner_def may_own_def\<close>)
  qed
  show "\<exists>err. check_owner ops v ws p W = (Failed err, W)"
    if own: "placement_owner p = Some owner" "\<not> may_own (view_row_of ops W) v ws owner"
    by (rule view_cases[OF idx, of owner])
      (use own cyc[of owner] in \<open>auto simp: check_owner_def may_own_def\<close>)
qed

lemma set_view_placement_Done:
  assumes ok: "world_ok ops W" and r: "view_row_of ops W v = Some r" and p: "row_placement r \<noteq> p"
    and own: "\<forall>owner. placement_owner p = Some owner \<longrightarrow> may_own (view_row_of ops W) v (row_workspace r) owner"
  shows "\<exists>W'. set_view_placement ops v p W = (Done True, W') \<and> world_ok ops W' \<and>
    view_row_of ops W' = (view_row_of ops W)(v \<mapsto> r\<lparr>row_placement := p\<rparr>)"
proof -
  have idx: "index_ok ops W" by (rule world_okD(1)[OF ok])
  obtain e where e: "map_of (cw_view_entities W) v = Some e" "ecs_get ops (cw_world W) e = Some r"
    using view_cases[OF idx, of v] r by (metis option.distinct(1) option.inject)
  obtain W1 where W1: "modify_row ops e (\<lambda>r. r\<lparr>row_placement := p\<rparr>) W = (Done (), W1)"
    "re_rows ops W ((view_row_of ops W)(v \<mapsto> r\<lparr>row_placement := p\<rparr>)) W1"
    using modify_row_spec[OF idx e(1) r, of "\<lambda>r. r\<lparr>row_placement := p\<rparr>"] world_okD(7)[OF ok r] by auto
  let ?W = "W1\<lparr>cw_layout_snapshots := (cw_layout_snapshots W1)(row_workspace r := None)\<rparr>"
  have "desk_inv \<lparr>desk_rows = (view_row_of ops W)(v \<mapsto> r\<lparr>row_placement := p\<rparr>), desk_next = cw_next_stacking W,
      desk_cached = dom (cw_layout_snapshots W1) - {row_workspace r}\<rparr>"
    using table_place_inv[OF world_okD(9)[OF ok], of v r p "dom (cw_layout_snapshots W) - {row_workspace r}"] r own
      re_rowsD(5)[OF W1(2)] by (auto simp: may_own_def family_of_def)
  then have "world_ok ops ?W"
    using world_okD(8)[OF ok] re_rowsD[OF W1(2)] by (intro world_ok_drop[where n = "cw_next_stacking W"]) auto
  moreover have "view_row_of ops ?W = view_row_of ops W1" by (rule view_row_of_cong) simp_all
  moreover have "set_view_placement ops v p W = (Done True, ?W)"
    using e p check_owner_spec(1)[OF ok own] W1(1) by (simp add: set_view_placement_def)
  ultimately show ?thesis using re_rowsD(2)[OF W1(2)] by auto
qed

section \<open>Moving families\<close>

lemma clear_focus_spec:
  assumes idx: "index_ok ops W"
  shows "\<exists>W'. clear_focus ops ws W = (Done (), W') \<and>
    re_rows ops W (\<lambda>v. map_option (unfocus ws) (view_row_of ops W v)) W'"
proof -
  let ?es = "focused_entities ops W ws" and ?f = "\<lambda>r. r\<lparr>row_focused := False\<rparr>"
  have mem: "e \<in> set ?es \<longleftrightarrow> (\<exists>v r. map_of (cw_view_entities W) v = Some e \<and> view_row_of ops W v = Some r \<and>
      row_view r = v \<and> row_workspace r = ws \<and> row_focused r)" for e
  proof -
    have "e \<in> set ?es \<longleftrightarrow> (\<exists>r. (e, r) \<in> set (query_rows ops W) \<and> row_workspace r = ws \<and> row_focused r)"
      by (auto simp: focused_entities_def image_iff)
    then show ?thesis using query_rows_set[OF idx, of e] by blast
  qed
  have "\<forall>e \<in> set ?es. \<exists>v. map_of (cw_view_entities W) v = Some e" using mem by blast
  then obtain k where k: "\<And>e. e \<in> set ?es \<Longrightarrow> map_of (cw_view_entities W) (k e) = Some e" by metis
  have "distinct ?es"
    using query_rows_distinct[of W] by (simp add: focused_entities_def distinct_map_filter)
  moreover have "inj_on k (set ?es)" using k by (metis inj_onI option.inject)
  ultimately have d: "distinct (map k ?es)" by (simp add: distinct_map)
  have step: "\<exists>W'. modify_row ops e ?f W1 = (Done (), W') \<and>
      re_rows ops W1 ((view_row_of ops W1)(k e := map_option ?f (view_row_of ops W1 (k e)))) W'"
    if e: "e \<in> set ?es" and W1: "index_ok ops W1" "cw_view_entities W1 = cw_view_entities W" for e W1
  proof -
    have ke: "map_of (cw_view_entities W1) (k e) = Some e" using k[OF e] W1(2) by simp
    obtain r where r: "view_row_of ops W1 (k e) = Some r" "row_view r = k e"
      by (rule entity_live[OF W1(1) ke])
    show ?thesis using modify_row_spec[OF W1(1) ke r(1), of ?f] r by simp
  qed
  obtain W' where W': "clear_focus ops ws W = (Done (), W')"
    "re_rows ops W (\<lambda>v. if v \<in> k ` set ?es then map_option ?f (view_row_of ops W v) else view_row_of ops W v) W'"
    unfolding clear_focus_def
    using each_op_rows[where xs = ?es and E = "cw_view_entities W" and k = k and f = ?f
        and act = "\<lambda>e. modify_row ops e ?f" and W = W, OF step d idx refl] by blast
  have "(\<lambda>v. if v \<in> k ` set ?es then map_option ?f (view_row_of ops W v) else view_row_of ops W v) =
      (\<lambda>v. map_option (unfocus ws) (view_row_of ops W v))"
  proof
    fix v
    show "(if v \<in> k ` set ?es then map_option ?f (view_row_of ops W v) else view_row_of ops W v) =
        map_option (unfocus ws) (view_row_of ops W v)"
    proof (rule view_cases[OF idx, of v])
      fix e r
      assume h: "map_of (cw_view_entities W) v = Some e" "view_row_of ops W v = Some r" "row_view r = v"
      have "v \<in> k ` set ?es \<longleftrightarrow> row_workspace r = ws \<and> row_focused r"
      proof
        assume "v \<in> k ` set ?es"
        then obtain e' where e': "e' \<in> set ?es" "v = k e'" by blast
        then have "e' = e" using k[OF e'(1)] h(1) by simp
        then obtain u q where u: "map_of (cw_view_entities W) u = Some e" "view_row_of ops W u = Some q"
          "row_workspace q = ws" "row_focused q" using mem e'(1) by blast
        then have "u = v" using entity_unique[OF idx map_of_SomeD map_of_SomeD] h(1) by blast
        then show "row_workspace r = ws \<and> row_focused r" using u h(2) by simp
      next
        assume "row_workspace r = ws \<and> row_focused r"
        then have e: "e \<in> set ?es" using mem h by blast
        have "k e = v" by (rule entity_unique[OF idx map_of_SomeD[OF h(1)] map_of_SomeD[OF k[OF e]]])
        then show "v \<in> k ` set ?es" using e by blast
      qed
      then show ?thesis using h(2) by (auto simp: unfocus_def)
    qed (auto simp: unfocus_def)
  qed
  then show ?thesis using W' by auto
qed

lemma move_members_spec:
  assumes idx: "index_ok ops W" and vs: "distinct vs" "set vs \<subseteq> dom (view_row_of ops W)"
  shows "\<exists>W'. each_op (move_member ops ws) vs W = (Done (), W') \<and>
    re_rows ops W (\<lambda>v. if v \<in> set vs then map_option (moved ws) (view_row_of ops W v) else view_row_of ops W v) W'"
proof -
  have dom: "dom (view_row_of ops W) = fst ` set (cw_view_entities W)" by (rule rows_dom(1)[OF idx])
  have "\<exists>W'. move_member ops ws v W1 = (Done (), W') \<and>
      re_rows ops W1 ((view_row_of ops W1)(v := map_option (moved ws) (view_row_of ops W1 v))) W'"
    if v: "v \<in> set vs" and W1: "index_ok ops W1" "cw_view_entities W1 = cw_view_entities W" for v W1
  proof (rule view_cases[OF W1(1), of v])
    assume n: "view_row_of ops W1 v = None"
    have "v \<in> dom (view_row_of ops W1)"
      using v vs(2) unfolding dom rows_dom(1)[OF W1(1)] W1(2) by blast
    then show ?thesis using n by (simp add: domIff)
  next
    fix e r
    assume h: "map_of (cw_view_entities W1) v = Some e" "view_row_of ops W1 v = Some r" "row_view r = v"
    then show ?thesis
      using modify_row_spec[OF W1(1) h(1,2), of "\<lambda>r. r\<lparr>row_workspace := ws, row_geometry := None, row_minimized_from := None\<rparr>"]
      by (simp add: move_member_def moved_def)
  qed
  moreover have "distinct (map (\<lambda>v. v) vs)" using vs(1) by simp
  ultimately show ?thesis
    using each_op_rows[where xs = vs and E = "cw_view_entities W" and k = "\<lambda>v. v" and f = "moved ws"
        and act = "move_member ops ws" and W = W, OF _ _ idx refl] unfolding image_ident by blast
qed

lemma move_view_Done:
  assumes ok: "world_ok ops W" and r: "view_row_of ops W v = Some r" "placement_owner (row_placement r) = None"
    and ws: "row_workspace r \<noteq> ws"
  shows "\<exists>W'. move_view ops v ws W = (Done (), W') \<and> world_ok ops W' \<and>
    view_row_of ops W' = table_move (view_row_of ops W) v ws \<and>
    cw_view_entities W' = cw_view_entities W \<and> cw_next_stacking W' = cw_next_stacking W"
proof -
  let ?T = "view_row_of ops W"
  have idx: "index_ok ops W" by (rule world_okD(1)[OF ok])
  obtain e where e: "map_of (cw_view_entities W) v = Some e" "ecs_get ops (cw_world W) e = Some r"
    using view_cases[OF idx, of v] r(1) by (metis option.distinct(1) option.inject)
  obtain f where f: "view_family ops v W = (Done f, W)" "distinct f" "set f = family_of ?T v"
    using view_family_spec[OF idx world_okD(2,6)[OF ok] r(1)] by blast
  have sub: "set f \<subseteq> dom ?T" using f(3) family_workspace[OF world_okD(2)[OF ok] r(1)] by auto
  have foc: "list_ex (is_focused ops W) f \<longleftrightarrow> family_focused ?T v"
    using f(3) by (auto simp: list_ex_iff family_focused_def is_focused_def split: option.splits)
  define T1 where "T1 = (if family_focused ?T v then (\<lambda>u. map_option (unfocus ws) (?T u)) else ?T)"
  obtain W1 where W1: "(if list_ex (is_focused ops W) f then clear_focus ops ws else return_op ()) W = (Done (), W1)"
    "re_rows ops W T1 W1"
    using clear_focus_spec[OF idx, of ws] re_rows_refl[OF idx] foc by (auto simp: T1_def)
  note r1 = re_rowsD[OF W1(2)]
  have "set f \<subseteq> dom (view_row_of ops W1)"
    using sub by (auto simp: r1(2) T1_def dom_def split: if_splits)
  then obtain W2 where W2: "each_op (move_member ops ws) f W1 = (Done (), W2)"
    "re_rows ops W1 (\<lambda>u. if u \<in> set f then map_option (moved ws) (view_row_of ops W1 u) else view_row_of ops W1 u) W2"
    using move_members_spec[OF r1(1) f(2)] by blast
  note r2 = re_rowsD[OF W2(2)]
  have T: "view_row_of ops W2 = table_move ?T v ws"
  proof
    fix u
    have "map_option (moved ws) (T1 u) = map_option (moved ws) (?T u)" if "u \<in> family_of ?T v"
      using family_workspace[OF world_okD(2)[OF ok] r(1) that] ws by (auto simp: T1_def unfocus_def)
    then show "view_row_of ops W2 u = table_move ?T v ws u"
      unfolding r2(2) r1(2) by (auto simp: f(3) table_move_def T1_def)
  qed
  let ?W3 = "W2\<lparr>cw_layout_snapshots := (cw_layout_snapshots W2)(row_workspace r := None)\<rparr>"
  let ?W4 = "?W3\<lparr>cw_layout_snapshots := (cw_layout_snapshots ?W3)(ws := None)\<rparr>"
  have eq: "view_row_of ops ?W3 = view_row_of ops W2" "view_row_of ops ?W4 = view_row_of ops W2" "index_ok ops ?W3"
    using index_ok_cong[of ?W3 W2 ops] r2(1) by (auto intro: view_row_of_cong)
  have "desk_inv \<lparr>desk_rows = table_move ?T v ws, desk_next = cw_next_stacking W,
      desk_cached = dom (cw_layout_snapshots ?W3) - {ws}\<rparr>"
    using table_move_inv[OF world_okD(9)[OF ok], of v r ws "dom (cw_layout_snapshots ?W3) - {ws}"] r ws
    by (auto simp: r1(5) r2(5))
  then have "world_ok ops ?W4"
    using eq T world_okD(8)[OF ok] by (intro world_ok_drop[where n = "cw_next_stacking W"]) (auto simp: r1(4) r2(4))
  moreover have "move_view ops v ws W = (Done (), ?W4)"
    using e r(2) ws f(1) W1(1) W2(1) by (simp add: move_view_def)
  ultimately show ?thesis using eq T by (auto simp: r1(3,4) r2(3,4))
qed

section \<open>Focus\<close>

lemma raise_member_spec:
  assumes idx: "index_ok ops W" and v: "view_row_of ops W v = Some r" and room: "cw_next_stacking W + 1 \<le> U64_MAX"
  shows "\<exists>W'. raise_member ops v W = (Done (), W') \<and>
    re_rows ops (W\<lparr>cw_next_stacking := cw_next_stacking W + 1\<rparr>)
      ((view_row_of ops W)(v := map_option (\<lambda>r. r\<lparr>row_stacking := cw_next_stacking W\<rparr>) (view_row_of ops W v))) W'"
proof -
  let ?W = "W\<lparr>cw_next_stacking := cw_next_stacking W + 1\<rparr>" and ?f = "\<lambda>r. r\<lparr>row_stacking := cw_next_stacking W\<rparr>"
  obtain e where e: "map_of (cw_view_entities W) v = Some e" "row_view r = v"
    using view_cases[OF idx, of v] v by (metis option.distinct(1) option.inject)
  have T: "view_row_of ops ?W = view_row_of ops W" "index_ok ops ?W"
    using view_row_of_cong[of ?W W ops] index_ok_cong[of ?W W ops] idx by auto
  obtain W' where "modify_row ops e ?f ?W = (Done (), W')" "re_rows ops ?W ((view_row_of ops ?W)(v \<mapsto> ?f r)) W'"
    using modify_row_spec[OF T(2), of v e r ?f] e v T(1) by auto
  then show ?thesis
    using e(1) room v T(1) by (simp add: raise_member_def allocate_stacking_order_def bind_op_def Let_def)
qed

lemma raise_members_spec:
  assumes "index_ok ops W" "distinct vs" "set vs \<subseteq> dom (view_row_of ops W)"
    and "cw_next_stacking W + int (length vs) \<le> U64_MAX"
  shows "\<exists>W'. each_op (raise_member ops) vs W = (Done (), W') \<and>
    re_rows ops (W\<lparr>cw_next_stacking := cw_next_stacking W + int (length vs)\<rparr>)
      (restack (cw_next_stacking W) vs (view_row_of ops W)) W'"
  using assms
proof (induction vs arbitrary: W)
  case Nil
  then show ?case using re_rows_refl by simp
next
  case (Cons v vs)
  obtain r where r: "view_row_of ops W v = Some r" using Cons.prems(3) by auto
  obtain W1 where W1: "raise_member ops v W = (Done (), W1)"
    "re_rows ops (W\<lparr>cw_next_stacking := cw_next_stacking W + 1\<rparr>)
      ((view_row_of ops W)(v := map_option (\<lambda>r. r\<lparr>row_stacking := cw_next_stacking W\<rparr>) (view_row_of ops W v))) W1"
    using raise_member_spec[OF Cons.prems(1) r] Cons.prems(4) by auto
  note r1 = re_rowsD[OF W1(2)]
  have "set vs \<subseteq> dom (view_row_of ops W1)" using Cons.prems(3) unfolding r1(2) by (auto simp: dom_def)
  then obtain W2 where W2: "each_op (raise_member ops) vs W1 = (Done (), W2)"
    "re_rows ops (W1\<lparr>cw_next_stacking := cw_next_stacking W1 + int (length vs)\<rparr>)
      (restack (cw_next_stacking W1) vs (view_row_of ops W1)) W2"
    using Cons.IH[OF r1(1)] Cons.prems(2,4) r1(4) by auto
  have "re_rows ops (W\<lparr>cw_next_stacking := cw_next_stacking W + int (length (v # vs))\<rparr>)
      (restack (cw_next_stacking W) (v # vs) (view_row_of ops W)) W2"
    using W2(2) W1(2) by (simp add: re_rows_def algebra_simps)
  then show ?case using W1(1) W2(1) by auto
qed

text \<open>The views raised by \<open>focus_view\<close>: the whole family of the root, the focused view and what
  is attached to it last.\<close>

lemma raise_view_family_Done:
  assumes ok: "world_ok ops W" and r: "view_row_of ops W v = Some r" and room: "has_room W"
  shows "\<exists>vs root others subtree W'. raise_view_family ops v W = (Done (), W') \<and>
    tiled_ancestor ops W v = Some root \<and> root \<in> dom (view_row_of ops W) - Range (owner_rel (view_row_of ops W)) \<and>
    vs = others @ subtree \<and> distinct vs \<and>
    set vs = family_of (view_row_of ops W) root \<and> set subtree = family_of (view_row_of ops W) v \<and>
    re_rows ops (W\<lparr>cw_next_stacking := cw_next_stacking W + int (length vs)\<rparr>)
      (restack (cw_next_stacking W) vs (view_row_of ops W)) W'"
proof -
  let ?T = "view_row_of ops W"
  have idx: "index_ok ops W" by (rule world_okD(1)[OF ok])
  note fam = view_family_spec[OF idx world_okD(2,6)[OF ok]]
  obtain root q where root: "tiled_ancestor ops W v = Some root" "v \<in> family_of ?T root" "?T root = Some q"
    "placement_owner (row_placement q) = None"
    by (rule tiled_ancestor_spec[OF ok r]) blast
  obtain f where f: "view_family ops root W = (Done f, W)" "distinct f" "set f = family_of ?T root"
    using fam[OF root(3)] by blast
  obtain s where s: "view_family ops v W = (Done s, W)" "distinct s" "set s = family_of ?T v"
    using fam[OF r] by blast
  define others where "others = (if v \<noteq> root then filter (\<lambda>u. u \<notin> set s) f else [])"
  define subtree where "subtree = (if v \<noteq> root then s else f)"
  have sub: "family_of ?T v \<subseteq> family_of ?T root"
    using root(2) by (auto simp: family_of_def intro: rtrancl_trans)
  have vs: "distinct (others @ subtree)" "set (others @ subtree) = family_of ?T root" "set subtree = family_of ?T v"
    using f s sub by (auto simp: others_def subtree_def)
  have dom: "set (others @ subtree) \<subseteq> dom ?T"
    using vs(2) family_workspace[OF world_okD(2)[OF ok] root(3)] by auto
  have "length (others @ subtree) \<le> length (cw_view_entities W)"
    using card_mono[OF world_okD(6)[OF ok] dom] distinct_card[OF vs(1)] rows_dom(2)[OF idx] by simp
  then have "cw_next_stacking W + int (length (others @ subtree)) \<le> U64_MAX" using room by (simp add: has_room_def)
  then obtain W' where W': "each_op (raise_member ops) (others @ subtree) W = (Done (), W')"
    "re_rows ops (W\<lparr>cw_next_stacking := cw_next_stacking W + int (length (others @ subtree))\<rparr>)
      (restack (cw_next_stacking W) (others @ subtree) ?T) W'"
    using raise_members_spec[OF idx vs(1) dom] by blast
  have "raise_view_family ops v W = (Done (), W')"
    using root(1) f(1) s(1) W'(1) by (auto simp: raise_view_family_def others_def subtree_def)
  moreover have "root \<in> dom ?T - Range (owner_rel ?T)" using root(3,4) by (auto simp: owner_rel_def)
  ultimately show ?thesis using root(1) vs W'(2) by blast
qed

lemma focus_view_Done:
  assumes ok: "world_ok ops W" and r: "view_row_of ops W v = Some r" "\<not> row_focused r" and room: "has_room W"
  shows "\<exists>vs root others subtree W'. focus_view ops v W = (Done (), W') \<and> world_ok ops W' \<and>
    root \<in> dom (view_row_of ops W) - Range (owner_rel (view_row_of ops W)) \<and>
    vs = others @ subtree \<and> distinct vs \<and> v \<in> family_of (view_row_of ops W) root \<and>
    set vs = family_of (view_row_of ops W) root \<and> set subtree = family_of (view_row_of ops W) v \<and>
    view_row_of ops W' = restack (cw_next_stacking W) vs (table_focus (view_row_of ops W) v (row_workspace r))"
proof -
  let ?T = "view_row_of ops W" and ?ws = "row_workspace r"
  have idx: "index_ok ops W" by (rule world_okD(1)[OF ok])
  obtain e where e: "map_of (cw_view_entities W) v = Some e" "ecs_get ops (cw_world W) e = Some r" "row_view r = v"
    using view_cases[OF idx, of v] r(1) by (metis option.distinct(1) option.inject)
  obtain W1 where W1: "clear_focus ops ?ws W = (Done (), W1)"
    "re_rows ops W (\<lambda>v. map_option (unfocus ?ws) (?T v)) W1"
    using clear_focus_spec[OF idx] by blast
  note r1 = re_rowsD[OF W1(2)]
  have row1: "view_row_of ops W1 v = Some (unfocus ?ws r)" using r(1) by (simp add: r1(2))
  obtain W2 where W2: "modify_row ops e (\<lambda>r. r\<lparr>row_focused := True\<rparr>) W1 = (Done (), W2)"
    "re_rows ops W1 ((view_row_of ops W1)(v \<mapsto> (unfocus ?ws r)\<lparr>row_focused := True\<rparr>)) W2"
    using modify_row_spec[OF r1(1) _ row1, of e "\<lambda>r. r\<lparr>row_focused := True\<rparr>"] e r1(3) by auto
  note r2 = re_rowsD[OF W2(2)]
  have T2: "view_row_of ops W2 = table_focus ?T v ?ws"
    unfolding r2(2) r1(2) using r(1) by (auto simp: table_focus_def fun_eq_iff unfocus_def)
  have re2: "re_rows ops W (table_focus ?T v ?ws) W2" using re_rows_trans[OF W1(2) W2(2)] T2 r2(2) by simp
  have ok2: "world_ok ops W2"
    using table_focus_inv[OF world_okD(9)[OF ok], of v r ?ws] r(1)
    by (intro world_ok_re_rows[OF re2 world_okD(8)[OF ok]]) simp
  have rel: "owner_rel (table_focus ?T v ?ws) = owner_rel ?T"
    by (rule owner_rel_map) (auto simp: table_focus_def)
  then have fam: "family_of (table_focus ?T v ?ws) = family_of ?T" by (simp add: family_of_def fun_eq_iff)
  have dom: "dom (table_focus ?T v ?ws) = dom ?T" by (auto simp: table_focus_def split: if_splits)
  have row2: "view_row_of ops W2 v = Some (r\<lparr>row_focused := True\<rparr>)" using r(1) by (simp add: T2 table_focus_def)
  have room2: "has_room W2" using room re_rowsD(3,4)[OF re2] by (simp add: has_room_def)
  obtain vs root others subtree W3 where W3: "raise_view_family ops v W2 = (Done (), W3)"
    "vs = others @ subtree" "distinct vs" "set vs = family_of ?T root" "set subtree = family_of ?T v"
    "re_rows ops (W2\<lparr>cw_next_stacking := cw_next_stacking W2 + int (length vs)\<rparr>)
      (restack (cw_next_stacking W2) vs (view_row_of ops W2)) W3" "root \<in> dom ?T - Range (owner_rel ?T)"
    using raise_view_family_Done[OF ok2 row2 room2] unfolding T2 fam rel dom by blast
  note r3 = re_rowsD[OF W3(6)]
  have n2: "cw_next_stacking W2 = cw_next_stacking W" using re_rowsD(4)[OF re2] .
  have "desk_inv \<lparr>desk_rows = view_row_of ops W2, desk_next = cw_next_stacking W2, desk_cached = dom (cw_layout_snapshots W2)\<rparr>"
    using world_okD(9)[OF ok2] by (simp add: desk_of_def)
  then have "desk_inv \<lparr>desk_rows = view_row_of ops W3, desk_next = cw_next_stacking W3, desk_cached = dom (cw_layout_snapshots W3)\<rparr>"
    using restack_inv[of "view_row_of ops W2" "cw_next_stacking W2" _ vs] W3(3) world_okD(8)[OF ok2]
    by (simp add: r3(2,4,5))
  then have ok3: "world_ok ops W3"
    using r3(1,4) world_okD(8)[OF ok2] by (simp add: world_ok_def desk_of_def)
  let ?W = "W3\<lparr>cw_layout_snapshots := (cw_layout_snapshots W3)(?ws := None)\<rparr>"
  have "view_row_of ops ?W = view_row_of ops W3" by (rule view_row_of_cong) simp_all
  then have "view_row_of ops ?W = restack (cw_next_stacking W) vs (table_focus ?T v ?ws)"
    using r3(2) T2 n2 by simp
  moreover have "focus_view ops v W = (Done (), ?W)"
    using e r(2) W1(1) W2(1) W3(1) by (simp add: focus_view_def)
  moreover have "v \<in> family_of ?T root" using W3(2,4,5) family_root[of v ?T] by auto
  ultimately show ?thesis
    using world_ok_forget[OF ok3, of ?ws] W3(2-5,7) by blast
qed

section \<open>Every operation is safe\<close>

lemma spawn_view_safe:
  assumes "world_ok ops W" "has_room W"
  shows "safe_result ops (spawn_view ops v ws W)"
proof (cases "view_row_of ops W v")
  case None
  then show ?thesis using spawn_view_Done[OF assms, of v ws] by auto
next
  case (Some r)
  then show ?thesis using spawn_view_duplicate[OF assms(1), of v ws] assms(1) by simp
qed

lemma remove_view_safe:
  assumes "world_ok ops W"
  shows "safe_result ops (remove_view ops v W)"
proof (cases "owner_rel (view_row_of ops W) `` {v} = {}")
  case True
  then show ?thesis
    using remove_view_refused(2)[OF assms True] remove_view_Done[OF assms _ True] assms
    by (cases "view_row_of ops W v") auto
next
  case False
  then show ?thesis using remove_view_refused(1)[OF assms False] assms by auto
qed

lemma move_view_refused:
  assumes ok: "world_ok ops W"
  shows "view_row_of ops W v = None \<Longrightarrow> move_view ops v ws W = (Failed (MissingViewId v), W)"
    "view_row_of ops W v = Some r \<Longrightarrow> placement_owner (row_placement r) \<noteq> None \<Longrightarrow>
      move_view ops v ws W = (Failed (AttachedViewCannotMove v), W)"
    "view_row_of ops W v = Some r \<Longrightarrow> placement_owner (row_placement r) = None \<Longrightarrow> row_workspace r = ws \<Longrightarrow>
      move_view ops v ws W = (Done (), W)"
  by (rule view_cases[OF world_okD(1)[OF ok], of v]; simp add: move_view_def)+

lemma move_view_safe:
  assumes ok: "world_ok ops W"
  shows "safe_result ops (move_view ops v ws W)"
proof (cases "view_row_of ops W v")
  case None
  then show ?thesis using move_view_refused(1)[OF ok None] ok by simp
next
  case (Some r)
  show ?thesis
  proof (cases "placement_owner (row_placement r) = None \<and> row_workspace r \<noteq> ws")
    case True
    then show ?thesis using move_view_Done[OF ok Some, of ws] by auto
  next
    case False
    then show ?thesis
      using move_view_refused(2,3)[OF ok Some, of ws] ok by (cases "placement_owner (row_placement r)") auto
  qed
qed

lemma set_view_placement_refused:
  assumes ok: "world_ok ops W" and r: "view_row_of ops W v = Some r" and p: "row_placement r \<noteq> p"
    and own: "placement_owner p = Some owner" "\<not> may_own (view_row_of ops W) v (row_workspace r) owner"
  shows "\<exists>err. set_view_placement ops v p W = (Failed err, W)"
proof -
  obtain e where e: "map_of (cw_view_entities W) v = Some e" "ecs_get ops (cw_world W) e = Some r"
    using view_cases[OF world_okD(1)[OF ok], of v] r by (metis option.distinct(1) option.inject)
  obtain err where "check_owner ops v (row_workspace r) p W = (Failed err, W)"
    using check_owner_spec(2)[OF ok own] by blast
  then show ?thesis using e p by (simp add: set_view_placement_def)
qed

lemma set_view_placement_safe:
  assumes ok: "world_ok ops W"
  shows "safe_result ops (set_view_placement ops v p W)"
proof (rule view_cases[OF world_okD(1)[OF ok], of v])
  assume "map_of (cw_view_entities W) v = None"
  then show ?thesis using ok by (simp add: set_view_placement_def)
next
  fix e r
  assume h: "map_of (cw_view_entities W) v = Some e" "ecs_get ops (cw_world W) e = Some r" "view_row_of ops W v = Some r"
  show ?thesis
  proof (cases "row_placement r = p")
    case True
    then show ?thesis using h ok by (simp add: set_view_placement_def)
  next
    case False
    show ?thesis
    proof (cases "\<forall>owner. placement_owner p = Some owner \<longrightarrow> may_own (view_row_of ops W) v (row_workspace r) owner")
      case True
      then show ?thesis using set_view_placement_Done[OF ok h(3) False] by auto
    next
      case no: False
      then show ?thesis using set_view_placement_refused[OF ok h(3) False] ok by fastforce
    qed
  qed
qed

lemma focus_view_focused:
  assumes "world_ok ops W" "view_row_of ops W v = Some r" "row_focused r"
  shows "focus_view ops v W = (Done (), W)"
  by (rule view_cases[OF world_okD(1)[OF assms(1)], of v]) (use assms(2,3) in \<open>simp_all add: focus_view_def\<close>)

lemma focus_view_safe:
  assumes ok: "world_ok ops W" and room: "has_room W"
  shows "safe_result ops (focus_view ops v W)"
proof (cases "view_row_of ops W v")
  case None
  then show ?thesis
    by - (rule view_cases[OF world_okD(1)[OF ok], of v]; use ok in \<open>simp add: focus_view_def\<close>)
next
  case (Some r)
  then show ?thesis
    using focus_view_focused[OF ok Some] focus_view_Done[OF ok Some _ room] ok by (cases "row_focused r") auto
qed

section \<open>Minimizing\<close>

lemma minimize_view_Done:
  assumes ok: "world_ok ops W" and r: "view_row_of ops W v = Some r" "placement_owner (row_placement r) = None"
    and m: "row_minimized_from r = None" "row_workspace r \<noteq> hidden"
  shows "\<exists>W'. minimize_view ops v hidden W = (Done True, W') \<and> world_ok ops W' \<and>
    view_row_of ops W' = (table_move (view_row_of ops W) v hidden)
      (v \<mapsto> (moved hidden r)\<lparr>row_minimized_from := Some (row_workspace r)\<rparr>)"
proof -
  obtain e where e: "map_of (cw_view_entities W) v = Some e" "ecs_get ops (cw_world W) e = Some r"
    using view_cases[OF world_okD(1)[OF ok], of v] r(1) by (metis option.distinct(1) option.inject)
  obtain W1 where W1: "move_view ops v hidden W = (Done (), W1)" "world_ok ops W1"
    "view_row_of ops W1 = table_move (view_row_of ops W) v hidden" "cw_view_entities W1 = cw_view_entities W"
    using move_view_Done[OF ok r m(2)] by blast
  have row: "view_row_of ops W1 v = Some (moved hidden r)" using r(1) by (simp add: W1(3) table_move_def)
  obtain W2 where W2: "modify_row ops e (\<lambda>q. q\<lparr>row_minimized_from := Some (row_workspace r)\<rparr>) W1 = (Done (), W2)"
    "re_rows ops W1 ((view_row_of ops W1)(v \<mapsto> (moved hidden r)\<lparr>row_minimized_from := Some (row_workspace r)\<rparr>)) W2"
    "world_ok ops W2"
    by (rule benign_modify[OF W1(2) _ row, of e "\<lambda>q. q\<lparr>row_minimized_from := Some (row_workspace r)\<rparr>"])
      (use e(1) W1(4) in \<open>auto simp: benign_def\<close>)
  have "minimize_view ops v hidden W = (Done True, W2)"
    using e m W1(1,4) W2(1) by (simp add: minimize_view_def)
  then show ?thesis using W2(3) re_rowsD(2)[OF W2(2)] W1(3) by simp
qed

lemma minimize_view_safe:
  assumes ok: "world_ok ops W"
  shows "safe_result ops (minimize_view ops v hidden W)"
  unfolding minimize_view_def
proof (rule safe_lookup[OF ok])
  fix e r
  assume h: "map_of (cw_view_entities W) v = Some e" "ecs_get ops (cw_world W) e = Some r" "view_row_of ops W v = Some r"
  consider (skip) "row_minimized_from r \<noteq> None \<or> row_workspace r = hidden"
    | (attached) "row_minimized_from r = None" "row_workspace r \<noteq> hidden" "placement_owner (row_placement r) \<noteq> None"
    | (free) "row_minimized_from r = None" "row_workspace r \<noteq> hidden" "placement_owner (row_placement r) = None"
    by blast
  then show "safe_result ops ((if case ecs_get ops (cw_world W) e of None \<Rightarrow> False | Some r \<Rightarrow> row_minimized_from r \<noteq> None
      then (Done False, W)
      else bind_op (get_row ops e) (\<lambda>r.
         if row_workspace r = hidden then return_op False
         else bind_op (move_view ops v hidden) (\<lambda>_.
              bind_op (entity_for v) (\<lambda>e.
              bind_op (modify_row ops e (\<lambda>q. q\<lparr>row_minimized_from := Some (row_workspace r)\<rparr>)) (\<lambda>_.
                return_op True)))) W))"
  proof cases
    case skip
    then show ?thesis using h ok by auto
  next
    case attached
    then show ?thesis using h ok move_view_refused(2)[OF ok h(3), of hidden] by simp
  next
    case free
    then show ?thesis
      using minimize_view_Done[OF ok h(3) free(3,1,2)] h by (auto simp: minimize_view_def)
  qed
qed

lemma restore_minimized_view_safe:
  assumes ok: "world_ok ops W"
  shows "safe_result ops (restore_minimized_view ops v W)"
  unfolding restore_minimized_view_def
proof (rule safe_lookup[OF ok])
  fix e r
  assume h: "map_of (cw_view_entities W) v = Some e" "ecs_get ops (cw_world W) e = Some r" "view_row_of ops W v = Some r"
  have m: "safe_result ops (move_view ops v ws W)" for ws by (rule move_view_safe[OF ok])
  have "safe_result ops (bind_op (move_view ops v origin) (\<lambda>_. return_op (Some origin)) W)" for origin
    using m[of origin] by (cases "move_view ops v origin W"; cases "fst (move_view ops v origin W)")
      (auto simp: safe_result_def bind_op_def)
  then show "safe_result ops (case Option.bind (ecs_get ops (cw_world W) e) row_minimized_from of
         None \<Rightarrow> (Done None, W)
       | Some origin \<Rightarrow> bind_op (move_view ops v origin) (\<lambda>_. return_op (Some origin)) W)"
    using h ok by (cases "row_minimized_from r") auto
qed

end

end
