(* ===== verification/Ecs_Scene.thy ===== *)
theory Ecs_Scene
  imports Ecs_Operations
begin

text \<open>
  From the compositor world to pixels: \<open>arrange_workspace\<close> of \<^verbatim>\<open>ecs/world.rs\<close>, which runs the
  layout engine on the tiled views and then places floating and attached ones,
  \<open>extract_scene\<close> of \<^verbatim>\<open>ecs/world/extract.rs\<close>, and the overview inventory of
  \<^verbatim>\<open>ecs/world/overview.rs\<close>.

  The main lemmas: the rounds that place attached views always make progress and place every view
  (attachments form a forest, so among the views still pending one of least depth has its owner
  placed), and the scene of a workspace can be extracted exactly when its layout is cached.
\<close>

section \<open>Arranging a workspace\<close>

record 'e workspace_view =
  wv_id :: view_id
  wv_entity :: 'e
  wv_layout :: view_layout
  wv_placement :: view_placement
  wv_focused :: bool

definition centered_axis :: "i32 \<Rightarrow> u32 \<Rightarrow> u32 \<Rightarrow> i32" where
  "centered_axis origin available desired =
     (let center = sat_i64 (origin + available div 2);
          start = sat_i64 (center - desired div 2)
      in i32_try_or_sign start)"

definition attached_geometry :: "rect \<Rightarrow> size_constraints \<Rightarrow> size2 \<Rightarrow> rect" where
  "attached_geometry owner constraints preferred_size =
     (let sz = constrain constraints preferred_size
      in Rect (centered_axis (rect_x owner) (rect_width owner) (size_width sz))
              (centered_axis (rect_y owner) (rect_height owner) (size_height sz))
              (size_width sz) (size_height sz))"

definition workspace_views ::
  "('w, 'e, 'm) ecs_ops \<Rightarrow> ('w, 'e) compositor_world \<Rightarrow> workspace_id \<Rightarrow> 'e workspace_view list" where
  "workspace_views ops W ws =
     sort_key wv_id
       (map (\<lambda>(e, r). \<lparr>wv_id = row_view r, wv_entity = e, wv_layout = row_layout r,
                        wv_placement = row_placement r, wv_focused = row_focused r\<rparr>)
         (filter (\<lambda>(e, r). row_workspace r = ws) (query_rows ops W)))"

text \<open>One round over the views still pending: the unresolved ones, the geometries and whether any
  view was placed.\<close>

fun resolve_round ::
  "'e workspace_view list \<Rightarrow> (view_id \<rightharpoonup> rect) \<Rightarrow> bool \<Rightarrow> 'e workspace_view list \<times> (view_id \<rightharpoonup> rect) \<times> bool" where
  "resolve_round [] g progressed = ([], g, progressed)"
| "resolve_round (v # vs) g progressed =
     (case wv_placement v of
        Tiled \<Rightarrow> resolve_round vs g progressed
      | Floating geometry \<Rightarrow> resolve_round vs (g(wv_id v \<mapsto> geometry)) True
      | Attached owner preferred_size \<Rightarrow>
          (case g owner of
             None \<Rightarrow> (let (unresolved, g', p) = resolve_round vs g progressed in (v # unresolved, g', p))
           | Some owner_geometry \<Rightarrow>
               resolve_round vs
                 (g(wv_id v \<mapsto> attached_geometry owner_geometry (vl_constraints (wv_layout v)) preferred_size))
                 True))"

text \<open>\<open>for _ in 0..pending.len()\<close> with its early exits; \<open>None\<close> is the failed assertion.\<close>

fun resolve_loop ::
  "nat \<Rightarrow> 'e workspace_view list \<Rightarrow> (view_id \<rightharpoonup> rect) \<Rightarrow> (view_id \<rightharpoonup> rect) option" where
  "resolve_loop 0 pending g = Some g"
| "resolve_loop (Suc n) pending g =
     (let (unresolved, g', progressed) = resolve_round pending g False
      in if unresolved = [] then Some g'
         else if \<not> progressed then None
         else resolve_loop n unresolved g')"

definition tiled_geometries :: "'e workspace_view list \<Rightarrow> layout_placement list \<Rightarrow> (view_id \<rightharpoonup> rect)" where
  "tiled_geometries tiled ps =
     fold (\<lambda>(v, p) g. g(wv_id v \<mapsto> placement_geometry p)) (zip tiled ps) Map.empty"

definition apply_geometry ::
  "('w, 'e, 'm) ecs_ops \<Rightarrow> (view_id \<rightharpoonup> rect) \<Rightarrow> 'e workspace_view \<Rightarrow> (unit, ('w, 'e) compositor_world) op" where
  "apply_geometry ops g v =
     modify_row ops (wv_entity v) (\<lambda>r.
       case g (wv_id v) of
         Some geometry \<Rightarrow> r\<lparr>row_geometry := Some geometry, row_last_geometry := Some geometry\<rparr>
       | None \<Rightarrow> r\<lparr>row_geometry := None\<rparr>)"

definition focused_index ::
  "('w, 'e, 'm) ecs_ops \<Rightarrow> ('w, 'e) compositor_world \<Rightarrow> 'e workspace_view list \<Rightarrow> 'e workspace_view list \<Rightarrow> nat option" where
  "focused_index ops W views tiled =
     Option.bind (find wv_focused views) (\<lambda>view.
     Option.bind (tiled_ancestor ops W (wv_id view)) (\<lambda>owner.
       position (\<lambda>v. wv_id v = owner) tiled))"

definition arrange_workspace ::
  "('w, 'e, 'm) ecs_ops \<Rightarrow> workspace_id \<Rightarrow> layout_engine \<Rightarrow> rect \<Rightarrow> (layout_snapshot, ('w, 'e) compositor_world) op" where
  "arrange_workspace ops ws engine output W =
     (let views = workspace_views ops W ws;
          tiled = filter (\<lambda>v. is_tiled (wv_placement v)) views;
          items = map (\<lambda>v. layout_item_of (wv_layout v)) tiled;
          focused = focused_index ops W views tiled;
          state = (case cw_layout_states W ws of None \<Rightarrow> default_state | Some s \<Rightarrow> s);
          (state', snapshot) = engine_arrange engine state output items focused;
          W1 = W\<lparr>cw_layout_states := (cw_layout_states W)(ws \<mapsto> state')\<rparr>;
          pending = filter (\<lambda>v. \<not> is_tiled (wv_placement v)) views
      in case resolve_loop (length pending) pending (tiled_geometries tiled (placements snapshot)) of
           None \<Rightarrow> (Panic, W1)
         | Some g \<Rightarrow>
             bind_op (each_op (apply_geometry ops g) views) (\<lambda>_ W2.
               (Done snapshot, W2\<lparr>cw_layout_snapshots := (cw_layout_snapshots W2)(ws \<mapsto> snapshot)\<rparr>)) W1)"

section \<open>Extracting a scene\<close>

definition extract_effects :: "scene_appearance \<Rightarrow> effect_style \<Rightarrow> effect_style" where
  "extract_effects appearance effects =
     (let e1 = (case window_shadow_effect (appearance_window_shadow appearance) of
                  Some shadow \<Rightarrow> effects\<lparr>effect_shadow := Some shadow\<rparr> | None \<Rightarrow> effects);
          radius = corner_radius (appearance_window_corners appearance)
      in if radius > 0 then e1\<lparr>effect_corner_radius := radius\<rparr> else e1)"

definition extract_node ::
  "scene_appearance \<Rightarrow> rect \<Rightarrow> view_id \<Rightarrow> 'm view_row \<Rightarrow> rect \<Rightarrow> content_span \<Rightarrow> scene_node" where
  "extract_node appearance viewport v r geometry span =
     node_with_content
       (node_with_presentation_hint
         (node_with_focus_outline
           (node_with_backdrop_region
             (scene_node_new v (row_stacking r) (layout_placement_new geometry viewport)
               (extract_effects appearance (row_effects r)))
             (row_backdrop r))
           (if row_focused r then ring_outline (appearance_focus_ring appearance) else None))
         (row_hint r))
       span"

fun extract_nodes ::
  "('w, 'e, 'm) ecs_ops \<Rightarrow> ('w, 'e) compositor_world \<Rightarrow> rect \<Rightarrow> view_id list \<Rightarrow> 'm surface_content list \<Rightarrow>
   (scene_node list \<times> 'm surface_content list) option outcome" where
  "extract_nodes ops W viewport [] contents = Done (Some ([], contents))"
| "extract_nodes ops W viewport (v # vs) contents =
     (case map_of (cw_view_entities W) v of
        None \<Rightarrow> Panic
      | Some e \<Rightarrow>
          (case ecs_get ops (cw_world W) e of
             None \<Rightarrow> Done None
           | Some r \<Rightarrow>
               (case row_geometry r of
                  None \<Rightarrow> Done None
                | Some geometry \<Rightarrow>
                    (case content_span_new (length contents) (length (row_content r)) of
                       None \<Rightarrow> Panic
                     | Some span \<Rightarrow>
                         (case extract_nodes ops W viewport vs (contents @ row_content r) of
                            Done (Some (nodes, table)) \<Rightarrow>
                              Done (Some (extract_node (cw_appearance W) viewport v r geometry span # nodes, table))
                          | other \<Rightarrow> other)))))"

definition extract_scene ::
  "('w, 'e, 'm) ecs_ops \<Rightarrow> ('w, 'e) compositor_world \<Rightarrow> workspace_id \<Rightarrow> 'm scene_snapshot option outcome" where
  "extract_scene ops W ws =
     (let view_ids = sort (map (\<lambda>(e, r). row_view r) (filter (\<lambda>(e, r). row_workspace r = ws) (query_rows ops W)))
      in case cw_layout_snapshots W ws of
           None \<Rightarrow> Done None
         | Some layout \<Rightarrow>
             (case extract_nodes ops W (snapshot_viewport layout) view_ids [] of
                Done (Some (nodes, contents)) \<Rightarrow>
                  (case scene_with_content ws (snapshot_viewport layout) nodes contents of
                     Inl _ \<Rightarrow> Panic | Inr scene \<Rightarrow> Done (Some scene))
              | Done None \<Rightarrow> Done None
              | Failed e \<Rightarrow> Failed e
              | Panic \<Rightarrow> Panic
              | Hangs \<Rightarrow> Hangs))"

section \<open>The overview inventory\<close>

definition overview_row :: "'m view_row \<Rightarrow> overview_view_kind \<times> rect option" where
  "overview_row r =
     (case row_placement r of
        Tiled \<Rightarrow> (OverviewTiled, None)
      | Floating geometry \<Rightarrow> (OverviewFloating, Some geometry)
      | Attached _ _ \<Rightarrow> (OverviewAttached, None))"

definition or_else :: "'a option \<Rightarrow> 'a option \<Rightarrow> 'a option" where
  "or_else a b = (case a of Some x \<Rightarrow> Some x | None \<Rightarrow> b)"

definition overview_views ::
  "('w, 'e, 'm) ecs_ops \<Rightarrow> ('w, 'e) compositor_world \<Rightarrow> workspace_id \<Rightarrow> overview_view list" where
  "overview_views ops W ws =
     List.map_filter (\<lambda>r. map_option (\<lambda>root.
         \<lparr>ov_id = row_view r, ov_root = root,
          ov_geometry = or_else (or_else (row_geometry r) (row_last_geometry r)) (snd (overview_row r)),
          ov_focused = row_focused r, ov_kind = fst (overview_row r), ov_stacking = row_stacking r\<rparr>)
         (tiled_ancestor ops W (row_view r)))
       (sort_key (\<lambda>r. (row_stacking r, row_view r))
         (map snd (filter (\<lambda>(e, r). row_workspace r = ws) (query_rows ops W))))"

section \<open>Every view gets its place\<close>

text \<open>A floating view has the geometry it asked for; an attached one is centred on its owner.\<close>

definition placed_in :: "(view_id \<rightharpoonup> rect) \<Rightarrow> 'e workspace_view \<Rightarrow> bool" where
  "placed_in g v \<longleftrightarrow>
     (case wv_placement v of
        Tiled \<Rightarrow> True
      | Floating geometry \<Rightarrow> g (wv_id v) = Some geometry
      | Attached owner sz \<Rightarrow> \<exists>og. g owner = Some og \<and>
          g (wv_id v) = Some (attached_geometry og (vl_constraints (wv_layout v)) sz))"

lemma placed_in_mono: "g \<subseteq>\<^sub>m g' \<Longrightarrow> placed_in g v \<Longrightarrow> placed_in g' v"
  by (auto simp: placed_in_def map_le_def dom_def split: view_placement.splits)

lemma placed_in_dom: "placed_in g v \<Longrightarrow> \<not> is_tiled (wv_placement v) \<Longrightarrow> wv_id v \<in> dom g"
  by (auto simp: placed_in_def is_tiled_def split: view_placement.splits)

text \<open>A view can be placed at once.\<close>

definition placeable :: "(view_id \<rightharpoonup> rect) \<Rightarrow> 'e workspace_view \<Rightarrow> bool" where
  "placeable g v \<longleftrightarrow> (case placement_owner (wv_placement v) of None \<Rightarrow> True | Some owner \<Rightarrow> owner \<in> dom g)"

lemma map_le_upd_fresh: "k \<notin> dom g \<Longrightarrow> g \<subseteq>\<^sub>m g(k \<mapsto> x)"
  by (auto simp: map_le_def)

lemma resolve_round_spec:
  assumes "resolve_round vs g p = (u, g', p')" "distinct (map wv_id vs)" "wv_id ` set vs \<inter> dom g = {}"
    and "\<forall>v \<in> set vs. \<not> is_tiled (wv_placement v)"
  shows "g \<subseteq>\<^sub>m g'" "set u \<subseteq> set vs" "distinct (map wv_id u)" "wv_id ` set u \<inter> dom g' = {}"
    "\<forall>v \<in> set vs. v \<in> set u \<or> placed_in g' v" "dom g' \<subseteq> dom g \<union> wv_id ` set vs"
    "\<exists>v \<in> set vs. placeable g v \<Longrightarrow> p'" "\<exists>v \<in> set vs. placeable g v \<Longrightarrow> length u < length vs"
    "p \<Longrightarrow> p'" "length u \<le> length vs"
proof -
  have "g \<subseteq>\<^sub>m g' \<and> set u \<subseteq> set vs \<and> distinct (map wv_id u) \<and> wv_id ` set u \<inter> dom g' = {} \<and>
    (\<forall>v \<in> set vs. v \<in> set u \<or> placed_in g' v) \<and> dom g' \<subseteq> dom g \<union> wv_id ` set vs \<and>
    ((\<exists>v \<in> set vs. placeable g v) \<longrightarrow> p' \<and> length u < length vs) \<and> (p \<longrightarrow> p') \<and> length u \<le> length vs"
    using assms
  proof (induction vs arbitrary: g p u)
    case Nil
    then show ?case by simp
  next
    case (Cons v vs)
    have ids: "wv_id v \<notin> wv_id ` set vs" "wv_id v \<notin> dom g" "distinct (map wv_id vs)"
      "wv_id ` set vs \<inter> dom g = {}" "\<forall>v \<in> set vs. \<not> is_tiled (wv_placement v)"
      using Cons.prems(2-4) by auto
    show ?case
    proof (cases "placeable g v")
      case True
      obtain geo where r: "resolve_round vs (g(wv_id v \<mapsto> geo)) True = (u, g', p')" "placed_in (g(wv_id v \<mapsto> geo)) v"
      proof (cases "wv_placement v")
        case Tiled
        then show thesis using Cons.prems(4) by (simp add: is_tiled_def)
      next
        case (Floating geo)
        then show thesis using that[of geo] Cons.prems(1) by (simp add: placed_in_def)
      next
        case (Attached owner sz)
        then obtain og where og: "g owner = Some og" using True by (auto simp: placeable_def)
        then have "owner \<noteq> wv_id v" using ids(2) by auto
        then show thesis
          using that[of "attached_geometry og (vl_constraints (wv_layout v)) sz"] Cons.prems(1) Attached og
          by (simp add: placed_in_def)
      qed
      have disj: "wv_id ` set vs \<inter> dom (g(wv_id v \<mapsto> geo)) = {}" using ids by auto
      note IH = Cons.IH[OF r(1) ids(3) disj ids(5)]
      have le: "g \<subseteq>\<^sub>m g(wv_id v \<mapsto> geo)" by (rule map_le_upd_fresh[OF ids(2)])
      have "g \<subseteq>\<^sub>m g'" using IH le map_le_trans by blast
      moreover have "placed_in g' v" using IH r(2) placed_in_mono by blast
      moreover have "dom g' \<subseteq> dom g \<union> wv_id ` set (v # vs)" using IH by auto
      ultimately show ?thesis using IH by auto
    next
      case False
      then obtain owner sz where a: "wv_placement v = Attached owner sz" "g owner = None"
        by (cases "wv_placement v") (auto simp: placeable_def)
      then obtain u' where r: "resolve_round vs g p = (u', g', p')" "u = v # u'"
        using Cons.prems(1) by (auto split: prod.splits)
      note IH = Cons.IH[OF r(1) ids(3-5)]
      have "wv_id v \<notin> dom g'" using IH ids(1,2) by auto
      then show ?thesis using IH r(2) ids(1) False by auto
    qed
  qed
  then show "g \<subseteq>\<^sub>m g'" "set u \<subseteq> set vs" "distinct (map wv_id u)" "wv_id ` set u \<inter> dom g' = {}"
    "\<forall>v \<in> set vs. v \<in> set u \<or> placed_in g' v" "dom g' \<subseteq> dom g \<union> wv_id ` set vs"
    "\<exists>v \<in> set vs. placeable g v \<Longrightarrow> p'" "\<exists>v \<in> set vs. placeable g v \<Longrightarrow> length u < length vs"
    "p \<Longrightarrow> p'" "length u \<le> length vs"
    by blast+
qed

text \<open>Owners are placed already or pending with a smaller depth.\<close>

definition owners_known :: "(view_id \<Rightarrow> nat) \<Rightarrow> (view_id \<rightharpoonup> rect) \<Rightarrow> 'e workspace_view list \<Rightarrow> bool" where
  "owners_known d g vs \<longleftrightarrow>
     (\<forall>v \<in> set vs. \<forall>owner. placement_owner (wv_placement v) = Some owner \<longrightarrow>
        owner \<in> dom g \<or> owner \<in> wv_id ` set vs \<and> d owner < d (wv_id v))"

lemma some_placeable:
  assumes "owners_known d g vs" "vs \<noteq> []"
  shows "\<exists>v \<in> set vs. placeable g v"
proof -
  obtain v where v: "v \<in> set vs" "\<forall>w \<in> set vs. d (wv_id v) \<le> d (wv_id w)"
    using ex_has_least_nat[of "\<lambda>v. v \<in> set vs" "hd vs" "\<lambda>v. d (wv_id v)"] assms(2) by auto
  show ?thesis
  proof (cases "placement_owner (wv_placement v)")
    case None
    then show ?thesis using v(1) by (intro bexI[of _ v]) (simp_all add: placeable_def)
  next
    case (Some owner)
    then have "owner \<in> dom g" using assms(1) v by (fastforce simp: owners_known_def)
    then show ?thesis using v(1) Some by (intro bexI[of _ v]) (simp_all add: placeable_def)
  qed
qed

lemma resolve_loop_spec:
  assumes "owners_known d g vs" "distinct (map wv_id vs)" "wv_id ` set vs \<inter> dom g = {}"
    and "\<forall>v \<in> set vs. \<not> is_tiled (wv_placement v)" "length vs \<le> n"
  shows "\<exists>g'. resolve_loop n vs g = Some g' \<and> g \<subseteq>\<^sub>m g' \<and> (\<forall>v \<in> set vs. placed_in g' v)"
  using assms
proof (induction n arbitrary: vs g)
  case 0
  then show ?case by simp
next
  case (Suc n)
  obtain u g1 p where r: "resolve_round vs g False = (u, g1, p)" by (metis prod_cases3)
  note R = resolve_round_spec[OF r Suc.prems(2-4)]
  show ?case
  proof (cases "u = []")
    case True
    then show ?thesis using r R(1,5) by auto
  next
    case False
    then have ex: "\<exists>v \<in> set vs. placeable g v" using R(2) some_placeable[OF Suc.prems(1)] by force
    have "owner \<in> dom g1 \<or> owner \<in> wv_id ` set u \<and> d owner < d (wv_id v)"
      if v: "v \<in> set u" "placement_owner (wv_placement v) = Some owner" for v owner
    proof -
      have "owner \<in> dom g \<or> owner \<in> wv_id ` set vs \<and> d owner < d (wv_id v)"
        using Suc.prems(1) v R(2) unfolding owners_known_def by blast
      then show ?thesis
      proof
        assume "owner \<in> dom g"
        then show ?thesis using R(1) by (auto simp: map_le_def dom_def)
      next
        assume o: "owner \<in> wv_id ` set vs \<and> d owner < d (wv_id v)"
        then obtain w where w: "w \<in> set vs" "owner = wv_id w" by blast
        then have "w \<in> set u \<or> wv_id w \<in> dom g1" using R(5) placed_in_dom Suc.prems(4) by blast
        then show ?thesis using w o by blast
      qed
    qed
    then have "owners_known d g1 u" unfolding owners_known_def by blast
    moreover have "\<forall>v \<in> set u. \<not> is_tiled (wv_placement v)" using R(2) Suc.prems(4) by blast
    moreover have "length u \<le> n" using R(8)[OF ex] Suc.prems(5) by simp
    ultimately obtain g' where g': "resolve_loop n u g1 = Some g'" "g1 \<subseteq>\<^sub>m g'" "\<forall>v \<in> set u. placed_in g' v"
      using Suc.IH R(3,4) by blast
    have "placed_in g' v" if "v \<in> set vs" for v
      using R(5) that g'(2,3) placed_in_mono by blast
    moreover have "g \<subseteq>\<^sub>m g'" using R(1) g'(2) map_le_trans by blast
    ultimately show ?thesis using r False R(7)[OF ex] g'(1) by auto
  qed
qed

lemma tiled_geometries_dom:
  "dom (tiled_geometries tiled ps) = wv_id ` set (take (length ps) tiled)"
proof -
  have "dom (fold (\<lambda>(v, p) g. g(wv_id v \<mapsto> placement_geometry p)) (zip tiled ps) g) =
      dom g \<union> wv_id ` set (take (length ps) tiled)" for g
  proof (induction ps arbitrary: tiled g)
    case (Cons p ps)
    then show ?case by (cases tiled) auto
  qed simp
  then show ?thesis by (simp add: tiled_geometries_def)
qed

lemma tiled_geometries_nth:
  assumes "distinct (map wv_id tiled)" "length ps = length tiled" "i < length tiled"
  shows "tiled_geometries tiled ps (wv_id (tiled ! i)) = Some (placement_geometry (ps ! i))"
proof -
  let ?put = "\<lambda>(v, p) g. g(wv_id v \<mapsto> placement_geometry p)"
  have other: "fold ?put (zip vs qs) g k = g k" if "k \<notin> wv_id ` set vs" for vs qs g k
    using that
  proof (induction qs arbitrary: vs g)
    case (Cons q qs)
    then show ?case by (cases vs) auto
  qed simp
  have "fold ?put (zip tiled ps) g (wv_id (tiled ! i)) = Some (placement_geometry (ps ! i))" for g
    using assms
  proof (induction tiled arbitrary: ps i g)
    case (Cons v vs)
    then obtain q qs where ps: "ps = q # qs" "length qs = length vs" by (cases ps) auto
    show ?case
    proof (cases i)
      case 0
      then show ?thesis using ps other[of "wv_id v" vs qs] Cons.prems(1) by (simp del: fun_upd_apply add: fun_upd_same)
    next
      case (Suc j)
      then show ?thesis using Cons.IH[of qs j] Cons.prems ps by simp
    qed
  qed simp
  then show ?thesis by (simp add: tiled_geometries_def)
qed

text \<open>The tiled views of a workspace in the order of their numbers, and what it means that geometries
  follow a layout snapshot.\<close>

definition tiled_views :: "(view_id \<rightharpoonup> 'm view_row) \<Rightarrow> workspace_id \<Rightarrow> view_id list" where
  "tiled_views T ws = sorted_list_of_set {v. \<exists>r. T v = Some r \<and> row_workspace r = ws \<and> row_placement r = Tiled}"

definition arranged :: "(view_id \<rightharpoonup> 'm view_row) \<Rightarrow> workspace_id \<Rightarrow> layout_snapshot \<Rightarrow> (view_id \<rightharpoonup> rect) \<Rightarrow> bool" where
  "arranged T ws snap g \<longleftrightarrow>
     list_all2 (\<lambda>v p. g v = Some (placement_geometry p)) (tiled_views T ws) (placements snap) \<and>
     (\<forall>v r geo. T v = Some r \<and> row_workspace r = ws \<and> row_placement r = Floating geo \<longrightarrow> g v = Some geo) \<and>
     (\<forall>v r owner sz. T v = Some r \<and> row_workspace r = ws \<and> row_placement r = Attached owner sz \<longrightarrow>
        (\<exists>og. g owner = Some og \<and> g v = Some (attached_geometry og (vl_constraints (row_layout r)) sz)))"

lemma arranged_total:
  assumes "arranged T ws snap g" "finite (dom T)" "T v = Some r" "row_workspace r = ws"
  shows "g v \<noteq> None"
proof (cases "row_placement r")
  case Tiled
  have "finite {v. \<exists>r. T v = Some r \<and> row_workspace r = ws \<and> row_placement r = Tiled}"
    by (rule finite_subset[OF _ assms(2)]) auto
  then have "v \<in> set (tiled_views T ws)" using Tiled assms(3,4) by (simp add: tiled_views_def)
  then show ?thesis using assms(1) by (auto simp: arranged_def list_all2_conv_all_nth in_set_conv_nth)
next
  case (Floating geo)
  then show ?thesis using assms unfolding arranged_def by blast
next
  case (Attached owner sz)
  then show ?thesis using assms unfolding arranged_def by blast
qed

text \<open>The row of an arranged view.\<close>

definition geo_row :: "(view_id \<rightharpoonup> rect) \<Rightarrow> 'm view_row \<Rightarrow> 'm view_row" where
  "geo_row g r =
     (case g (row_view r) of
        Some geometry \<Rightarrow> r\<lparr>row_geometry := Some geometry, row_last_geometry := Some geometry\<rparr>
      | None \<Rightarrow> r\<lparr>row_geometry := None\<rparr>)"

lemma geo_row_simps [simp]:
  "row_view (geo_row g r) = row_view r" "row_workspace (geo_row g r) = row_workspace r"
  "row_placement (geo_row g r) = row_placement r" "row_stacking (geo_row g r) = row_stacking r"
  "row_focused (geo_row g r) = row_focused r" "row_geometry (geo_row g r) = g (row_view r)"
  by (auto simp: geo_row_def split: option.splits)

definition table_arrange ::
  "(view_id \<rightharpoonup> 'm view_row) \<Rightarrow> workspace_id \<Rightarrow> (view_id \<rightharpoonup> rect) \<Rightarrow> (view_id \<rightharpoonup> 'm view_row)" where
  "table_arrange T ws g = (\<lambda>v. map_option (\<lambda>r. if row_workspace r = ws then geo_row g r else r) (T v))"

lemma table_arrange_inv:
  assumes inv: "desk_inv D" and g: "\<And>v r. desk_rows D v = Some r \<Longrightarrow> row_workspace r = ws \<Longrightarrow> g v \<noteq> None"
  shows "desk_inv \<lparr>desk_rows = table_arrange (desk_rows D) ws g, desk_next = desk_next D,
    desk_cached = insert ws (desk_cached D)\<rparr>"
proof -
  let ?T = "desk_rows D" and ?M = "table_arrange (desk_rows D) ws g"
  have orig: "\<exists>q. ?T v = Some q \<and> row_view p = row_view q \<and> row_workspace p = row_workspace q \<and>
      row_stacking p = row_stacking q \<and> row_focused p = row_focused q \<and>
      row_geometry p = (if row_workspace q = ws then g (row_view q) else row_geometry q)" if "?M v = Some p" for v p
    using that by (auto simp: table_arrange_def)
  have "attachments_ok ?M"
    by (rule attachments_ok_map[OF desk_invD(3)[OF inv]])
      (auto simp: table_arrange_def option.rel_map intro!: option.rel_refl)
  moreover have "u = v" if h: "?M u = Some p" "?M v = Some q" "row_focused p" "row_focused q" "row_workspace p = row_workspace q"
    for u v p q
  proof -
    obtain p0 q0 where "?T u = Some p0" "?T v = Some q0" "row_focused p0" "row_focused q0" "row_workspace p0 = row_workspace q0"
      using orig[OF h(1)] orig[OF h(2)] h(3-5) by auto
    then show ?thesis using desk_invD(4)[OF inv] unfolding focus_ok_def by blast
  qed
  moreover have "stacking_ok ?M (desk_next D)"
    by (rule stacking_ok_from[OF desk_invD(5)[OF inv]]) (use orig in blast)
  moreover have "row_geometry p \<noteq> None" if "?M v = Some p" "row_workspace p \<in> insert ws (desk_cached D)" for v p
    using orig[OF that(1)] that(2) g[of v] desk_invD(2,6)[OF inv] by (auto simp: cache_ok_def split: if_splits)
  moreover have "finite (dom ?M)" using desk_invD(1)[OF inv] by (simp add: table_arrange_def dom_def)
  moreover have "row_view p = v" if "?M v = Some p" for v p using orig[OF that] desk_invD(2)[OF inv] by auto
  ultimately have "focus_ok ?M" "cache_ok ?M (insert ws (desk_cached D))" "attachments_ok ?M" "stacking_ok ?M (desk_next D)"
    "finite (dom ?M)" "\<forall>v p. ?M v = Some p \<longrightarrow> row_view p = v"
    unfolding focus_ok_def cache_ok_def by blast+
  then show ?thesis unfolding desk_inv_def by simp
qed

context entity_store
begin

lemma workspace_views_set:
  assumes ok: "world_ok ops W"
  shows "v \<in> set (workspace_views ops W ws) \<longleftrightarrow>
    (\<exists>r. view_row_of ops W (wv_id v) = Some r \<and> map_of (cw_view_entities W) (wv_id v) = Some (wv_entity v) \<and>
      row_workspace r = ws \<and> wv_layout v = row_layout r \<and> wv_placement v = row_placement r \<and>
      wv_focused v = row_focused r)"
proof -
  let ?mk = "\<lambda>(e, r). \<lparr>wv_id = row_view r, wv_entity = e, wv_layout = row_layout r,
      wv_placement = row_placement r, wv_focused = row_focused r\<rparr>"
  have "v \<in> set (workspace_views ops W ws) \<longleftrightarrow>
      (\<exists>e r. (e, r) \<in> set (query_rows ops W) \<and> row_workspace r = ws \<and> v = ?mk (e, r))"
    by (force simp: workspace_views_def)
  also have "\<dots> \<longleftrightarrow> (\<exists>e r u. map_of (cw_view_entities W) u = Some e \<and> view_row_of ops W u = Some r \<and>
      row_view r = u \<and> row_workspace r = ws \<and> v = ?mk (e, r))"
    using query_rows_set[OF world_okD(1)[OF ok]] by blast
  also have "\<dots> \<longleftrightarrow> (\<exists>r. view_row_of ops W (wv_id v) = Some r \<and> map_of (cw_view_entities W) (wv_id v) = Some (wv_entity v) \<and>
      row_workspace r = ws \<and> wv_layout v = row_layout r \<and> wv_placement v = row_placement r \<and>
      wv_focused v = row_focused r)"
  proof
    assume "\<exists>r. view_row_of ops W (wv_id v) = Some r \<and> map_of (cw_view_entities W) (wv_id v) = Some (wv_entity v) \<and>
      row_workspace r = ws \<and> wv_layout v = row_layout r \<and> wv_placement v = row_placement r \<and> wv_focused v = row_focused r"
    then obtain r where r: "view_row_of ops W (wv_id v) = Some r" "map_of (cw_view_entities W) (wv_id v) = Some (wv_entity v)"
      "row_workspace r = ws" "wv_layout v = row_layout r" "wv_placement v = row_placement r" "wv_focused v = row_focused r"
      by blast
    moreover have "row_view r = wv_id v" by (rule world_okD(7)[OF ok r(1)])
    moreover have "v = ?mk (wv_entity v, r)" using calculation by simp
    ultimately show "\<exists>e r u. map_of (cw_view_entities W) u = Some e \<and> view_row_of ops W u = Some r \<and>
      row_view r = u \<and> row_workspace r = ws \<and> v = ?mk (e, r)" by blast
  qed auto
  finally show ?thesis .
qed

lemma workspace_views_distinct:
  assumes ok: "world_ok ops W"
  shows "distinct (map wv_id (workspace_views ops W ws))" "length (workspace_views ops W ws) \<le> length (cw_view_entities W)"
proof -
  let ?q = "filter (\<lambda>(e, r). row_workspace r = ws) (query_rows ops W)"
  have "inj_on (\<lambda>(e, r). row_view r) (set (query_rows ops W))"
  proof (rule inj_onI, clarify)
    fix e r e' r'
    assume h: "(e, r) \<in> set (query_rows ops W)" "(e', r') \<in> set (query_rows ops W)" "row_view r = row_view r'"
    then show "e = e' \<and> r = r'" using query_rows_set[OF world_okD(1)[OF ok]] by fastforce
  qed
  then have "inj_on (\<lambda>(e, r). row_view r) (set ?q)" by (rule inj_on_subset) auto
  moreover have "distinct ?q" using query_rows_distinct[of W] by (simp add: distinct_map)
  ultimately have d: "distinct (map (\<lambda>(e, r). row_view r) ?q)" by (simp add: distinct_map)
  let ?mk = "\<lambda>(e, r). \<lparr>wv_id = row_view r, wv_entity = e, wv_layout = row_layout r,
      wv_placement = row_placement r, wv_focused = row_focused r\<rparr>"
  have "mset (map wv_id (workspace_views ops W ws)) = image_mset wv_id (mset (map ?mk ?q))"
    by (simp only: workspace_views_def mset_map mset_sort)
  also have "\<dots> = mset (map wv_id (map ?mk ?q))" by (simp only: mset_map)
  also have "map wv_id (map ?mk ?q) = map (\<lambda>(e, r). row_view r) ?q" by auto
  finally have eq: "mset (map wv_id (workspace_views ops W ws)) = mset (map (\<lambda>(e, r). row_view r) ?q)" .
  show dd: "distinct (map wv_id (workspace_views ops W ws))" using mset_eq_imp_distinct_iff[OF eq] d by blast
  have "set (map wv_id (workspace_views ops W ws)) \<subseteq> dom (view_row_of ops W)"
    using workspace_views_set[OF ok] by auto
  then have "card (set (map wv_id (workspace_views ops W ws))) \<le> length (cw_view_entities W)"
    using card_mono[OF world_okD(6)[OF ok]] rows_dom(2)[OF world_okD(1)[OF ok]] by metis
  then show "length (workspace_views ops W ws) \<le> length (cw_view_entities W)"
    using distinct_card[OF dd] by simp
qed

lemma workspace_view_ex:
  assumes ok: "world_ok ops W" and r: "view_row_of ops W v = Some r" "row_workspace r = ws"
  shows "\<exists>w \<in> set (workspace_views ops W ws). wv_id w = v \<and> wv_placement w = row_placement r \<and> wv_layout w = row_layout r"
proof -
  obtain e where e: "map_of (cw_view_entities W) v = Some e"
    using view_cases[OF world_okD(1)[OF ok], of v] r(1) by (metis option.distinct(1))
  have "\<lparr>wv_id = v, wv_entity = e, wv_layout = row_layout r, wv_placement = row_placement r,
      wv_focused = row_focused r\<rparr> \<in> set (workspace_views ops W ws)"
    using workspace_views_set[OF ok] r e by simp
  then show ?thesis by force
qed

lemma apply_geometries_spec:
  assumes ok: "world_ok ops W"
  shows "\<exists>W'. each_op (apply_geometry ops g) (workspace_views ops W ws) W = (Done (), W') \<and>
    re_rows ops W (table_arrange (view_row_of ops W) ws g) W'"
proof -
  let ?vs = "workspace_views ops W ws"
  have "\<exists>W'. apply_geometry ops g v W1 = (Done (), W') \<and>
      re_rows ops W1 ((view_row_of ops W1)(wv_id v := map_option (geo_row g) (view_row_of ops W1 (wv_id v)))) W'"
    if v: "v \<in> set ?vs" and W1: "index_ok ops W1" "cw_view_entities W1 = cw_view_entities W" for v W1
  proof -
    have e: "map_of (cw_view_entities W1) (wv_id v) = Some (wv_entity v)"
      using v W1(2) workspace_views_set[OF ok] by auto
    obtain r where r: "view_row_of ops W1 (wv_id v) = Some r" "row_view r = wv_id v"
      by (rule entity_live[OF W1(1) e])
    let ?f = "\<lambda>r. case g (wv_id v) of
         Some geometry \<Rightarrow> r\<lparr>row_geometry := Some geometry, row_last_geometry := Some geometry\<rparr>
       | None \<Rightarrow> r\<lparr>row_geometry := None\<rparr>"
    have f: "?f r = geo_row g r" using r(2) by (simp add: geo_row_def)
    then have "row_view (?f r) = wv_id v" using r(2) by simp
    then show ?thesis
      using modify_row_spec[OF W1(1) e r(1), of ?f] r(1) f by (simp add: apply_geometry_def)
  qed
  from each_op_rows[where xs = ?vs and E = "cw_view_entities W" and k = wv_id and f = "geo_row g"
      and act = "apply_geometry ops g" and W = W, OF this workspace_views_distinct(1)[OF ok] world_okD(1)[OF ok] refl]
  obtain W' where W': "each_op (apply_geometry ops g) ?vs W = (Done (), W')"
    "re_rows ops W (\<lambda>v. if v \<in> wv_id ` set ?vs then map_option (geo_row g) (view_row_of ops W v) else view_row_of ops W v) W'"
    by blast
  have "(\<lambda>v. if v \<in> wv_id ` set ?vs then map_option (geo_row g) (view_row_of ops W v) else view_row_of ops W v) =
      table_arrange (view_row_of ops W) ws g"
  proof
    fix v
    have "v \<in> wv_id ` set ?vs \<longleftrightarrow> (\<exists>r. view_row_of ops W v = Some r \<and> row_workspace r = ws)"
    proof
      assume "v \<in> wv_id ` set ?vs"
      then show "\<exists>r. view_row_of ops W v = Some r \<and> row_workspace r = ws" using workspace_views_set[OF ok] by auto
    next
      assume "\<exists>r. view_row_of ops W v = Some r \<and> row_workspace r = ws"
      then show "v \<in> wv_id ` set ?vs" using workspace_view_ex[OF ok] by blast
    qed
    then show "(if v \<in> wv_id ` set ?vs then map_option (geo_row g) (view_row_of ops W v) else view_row_of ops W v) =
        table_arrange (view_row_of ops W) ws g v"
      by (cases "view_row_of ops W v") (auto simp: table_arrange_def)
  qed
  then show ?thesis using W' by auto
qed

lemma tiled_views_of:
  assumes ok: "world_ok ops W"
  shows "map wv_id (filter (\<lambda>v. is_tiled (wv_placement v)) (workspace_views ops W ws)) = tiled_views (view_row_of ops W) ws"
proof -
  let ?vs = "workspace_views ops W ws" and ?T = "view_row_of ops W"
  let ?ids = "map wv_id (filter (\<lambda>v. is_tiled (wv_placement v)) ?vs)"
  have "sorted (map wv_id ?vs)" by (simp add: workspace_views_def)
  then have "sorted ?ids" by (rule sorted_filter)
  moreover have "distinct ?ids" using workspace_views_distinct(1)[OF ok] by (rule distinct_map_filter)
  moreover have "v \<in> set ?ids \<longleftrightarrow> (\<exists>r. ?T v = Some r \<and> row_workspace r = ws \<and> row_placement r = Tiled)" for v
  proof
    assume "v \<in> set ?ids"
    then show "\<exists>r. ?T v = Some r \<and> row_workspace r = ws \<and> row_placement r = Tiled"
      using workspace_views_set[OF ok] by (auto simp: is_tiled_def)
  next
    assume "\<exists>r. ?T v = Some r \<and> row_workspace r = ws \<and> row_placement r = Tiled"
    then obtain r where r: "?T v = Some r" "row_workspace r = ws" "row_placement r = Tiled" by blast
    then obtain w where "w \<in> set ?vs" "wv_id w = v" "wv_placement w = Tiled"
      using workspace_view_ex[OF ok r(1,2)] by auto
    then show "v \<in> set ?ids" by (force simp: is_tiled_def)
  qed
  then have "set ?ids = {v. \<exists>r. ?T v = Some r \<and> row_workspace r = ws \<and> row_placement r = Tiled}" by blast
  ultimately show ?thesis unfolding tiled_views_def
    by (metis sorted_list_of_set.idem_if_sorted_distinct)
qed

text \<open>The geometries of one arrangement: those the layout gives the tiled views, then the rounds.\<close>

lemma resolved_geometries:
  fixes ws W
  defines "views \<equiv> workspace_views ops W ws"
  defines "tiled \<equiv> filter (\<lambda>v. is_tiled (wv_placement v)) views"
  defines "pending \<equiv> filter (\<lambda>v. \<not> is_tiled (wv_placement v)) views"
  assumes ok: "world_ok ops W" and len: "length (placements snap) = length tiled"
  shows "\<exists>g. resolve_loop (length pending) pending (tiled_geometries tiled (placements snap)) = Some g \<and>
    arranged (view_row_of ops W) ws snap g"
proof -
  let ?T = "view_row_of ops W" and ?g0 = "tiled_geometries tiled (placements snap)"
  have dist: "distinct (map wv_id views)" unfolding views_def by (rule workspace_views_distinct(1)[OF ok])
  have dt: "distinct (map wv_id tiled)" "distinct (map wv_id pending)"
    unfolding tiled_def pending_def by (rule distinct_map_filter[OF dist])+
  have dom: "dom ?g0 = wv_id ` set tiled" using tiled_geometries_dom[of tiled "placements snap"] len by simp
  have inj: "v = w" if "v \<in> set views" "w \<in> set views" "wv_id v = wv_id w" for v w
    using dist that by (auto simp: distinct_map inj_on_def)
  have apart: "wv_id ` set pending \<inter> dom ?g0 = {}" unfolding dom using inj by (auto simp: tiled_def pending_def)
  have known: "owners_known (depth_of ?T) ?g0 pending"
    unfolding owners_known_def
  proof (intro ballI allI impI)
    fix v owner
    assume v: "v \<in> set pending" and o: "placement_owner (wv_placement v) = Some owner"
    obtain r where r: "?T (wv_id v) = Some r" "row_workspace r = ws" "wv_placement v = row_placement r"
      using v workspace_views_set[OF ok] by (auto simp: pending_def views_def)
    have rel: "(owner, wv_id v) \<in> owner_rel ?T" using r o by (simp add: owner_rel_def)
    obtain q where "?T owner = Some q" "row_workspace q = ws"
      using world_okD(2)[OF ok] r o unfolding attachments_ok_def by metis
    then obtain w where w: "w \<in> set views" "wv_id w = owner" using workspace_view_ex[OF ok] unfolding views_def by blast
    show "owner \<in> dom ?g0 \<or> owner \<in> wv_id ` set pending \<and> depth_of ?T owner < depth_of ?T (wv_id v)"
    proof (cases "is_tiled (wv_placement w)")
      case True
      then have "owner \<in> wv_id ` set tiled" using w unfolding tiled_def by force
      then show ?thesis by (simp add: dom)
    next
      case False
      then show ?thesis using w depth_less[OF world_okD(2,6)[OF ok] rel] unfolding pending_def by force
    qed
  qed
  have nt: "\<forall>v \<in> set pending. \<not> is_tiled (wv_placement v)" by (simp add: pending_def)
  obtain g where g: "resolve_loop (length pending) pending ?g0 = Some g" "?g0 \<subseteq>\<^sub>m g" "\<forall>v \<in> set pending. placed_in g v"
    using resolve_loop_spec[OF known dt(2) apart nt order.refl] by blast
  have "list_all2 (\<lambda>v p. g v = Some (placement_geometry p)) (map wv_id tiled) (placements snap)"
  proof (rule list_all2_all_nthI)
    fix i assume i: "i < length (map wv_id tiled)"
    then have "?g0 (wv_id (tiled ! i)) = Some (placement_geometry (placements snap ! i))"
      using tiled_geometries_nth[OF dt(1) len] by simp
    then show "g (map wv_id tiled ! i) = Some (placement_geometry (placements snap ! i))"
      using g(2) i by (simp add: map_le_def dom_def)
  qed (simp add: len)
  moreover have "\<exists>w. w \<in> set pending \<and> wv_id w = v \<and> wv_placement w = row_placement r \<and> wv_layout w = row_layout r"
    if "?T v = Some r" "row_workspace r = ws" "row_placement r \<noteq> Tiled" for v r
    using workspace_view_ex[OF ok that(1,2)] that(3) by (auto simp: pending_def views_def is_tiled_def)
  note pend = this
  have "g v = Some geo" if "?T v = Some r" "row_workspace r = ws" "row_placement r = Floating geo" for v r geo
    using pend[OF that(1,2)] that(3) g(3) by (fastforce simp: placed_in_def)
  moreover have "\<exists>og. g owner = Some og \<and> g v = Some (attached_geometry og (vl_constraints (row_layout r)) sz)"
    if "?T v = Some r" "row_workspace r = ws" "row_placement r = Attached owner sz" for v r owner sz
    using pend[OF that(1,2)] that(3) g(3) by (fastforce simp: placed_in_def)
  ultimately have "arranged ?T ws snap g"
    unfolding arranged_def using tiled_views_of[OF ok, of ws] unfolding tiled_def views_def by auto
  then show ?thesis using g(1) by blast
qed

lemma arrange_workspace_Done:
  assumes ok: "world_ok ops W" and room: "has_room W"
  shows "\<exists>snap st g W'. arrange_workspace ops ws engine output W = (Done snap, W') \<and> world_ok ops W' \<and>
    snap = snd (engine_arrange engine st output
      (map (\<lambda>v. layout_item_of (wv_layout v)) (filter (\<lambda>v. is_tiled (wv_placement v)) (workspace_views ops W ws)))
      (focused_index ops W (workspace_views ops W ws) (filter (\<lambda>v. is_tiled (wv_placement v)) (workspace_views ops W ws)))) \<and>
    arranged (view_row_of ops W) ws snap g \<and> view_row_of ops W' = table_arrange (view_row_of ops W) ws g \<and>
    cw_layout_snapshots W' = (cw_layout_snapshots W)(ws \<mapsto> snap) \<and> cw_view_entities W' = cw_view_entities W \<and>
    cw_next_stacking W' = cw_next_stacking W \<and> cw_appearance W' = cw_appearance W"
proof -
  define views where "views = workspace_views ops W ws"
  define tiled where "tiled = filter (\<lambda>v. is_tiled (wv_placement v)) views"
  define pending where "pending = filter (\<lambda>v. \<not> is_tiled (wv_placement v)) views"
  define items where "items = map (\<lambda>v. layout_item_of (wv_layout v)) tiled"
  define st where "st = (case cw_layout_states W ws of None \<Rightarrow> default_state | Some s \<Rightarrow> s)"
  obtain st' snap where eng: "engine_arrange engine st output items (focused_index ops W views tiled) = (st', snap)" by fastforce
  obtain k opts where engine: "engine = \<lparr>engine_kind = k, engine_options = opts\<rparr>" by (metis layout_engine.surjective unit.exhaust)
  have "length tiled \<le> length (cw_view_entities W)"
    using workspace_views_distinct(2)[OF ok, of ws] length_filter_le[of _ views]
    unfolding tiled_def views_def by (meson order_trans)
  then have "length (placements snap) = length tiled"
    using engine.arrange_length[where items = items and k = k and opts = opts and st = st and area = "output" and focused = "focused_index ops W views tiled"] eng room
    by (simp add: engine items_def has_room_def)
  then obtain g where g: "resolve_loop (length pending) pending (tiled_geometries tiled (placements snap)) = Some g"
    "arranged (view_row_of ops W) ws snap g"
    using resolved_geometries[OF ok, of snap ws] unfolding tiled_def pending_def views_def by blast
  define W1 where "W1 = W\<lparr>cw_layout_states := (cw_layout_states W)(ws \<mapsto> st')\<rparr>"
  have W1: "view_row_of ops W1 = view_row_of ops W" "workspace_views ops W1 ws = views" "index_ok ops W1 = index_ok ops W"
    by (auto simp: W1_def view_row_of_def views_def workspace_views_def query_rows_def index_ok_def)
  have ok1: "world_ok ops W1" using ok W1 by (simp add: world_ok_def desk_of_def W1_def)
  obtain W2 where W2: "each_op (apply_geometry ops g) views W1 = (Done (), W2)"
    "re_rows ops W1 (table_arrange (view_row_of ops W) ws g) W2"
    using apply_geometries_spec[OF ok1, of g ws] W1 by auto
  note R = re_rowsD[OF W2(2)]
  define W' where "W' = W2\<lparr>cw_layout_snapshots := (cw_layout_snapshots W2)(ws \<mapsto> snap)\<rparr>"
  have "bind_op (each_op (apply_geometry ops g) views) (\<lambda>_ W2.
      (Done snap, W2\<lparr>cw_layout_snapshots := (cw_layout_snapshots W2)(ws \<mapsto> snap)\<rparr>)) W1 = (Done snap, W')"
    using W2(1) by (simp add: W'_def)
  then have run: "arrange_workspace ops ws engine output W = (Done snap, W')"
    using eng g(1) unfolding arrange_workspace_def Let_def
    by (simp add: views_def[symmetric] tiled_def[symmetric] pending_def[symmetric] items_def[symmetric]
        st_def[symmetric] W1_def[symmetric])
  have rows: "view_row_of ops W' = table_arrange (view_row_of ops W) ws g" "index_ok ops W'"
    using R(1,2) view_row_of_cong[of W' W2 ops] index_ok_cong[of W' W2 ops] by (simp_all add: W'_def)
  have rest: "cw_layout_snapshots W' = (cw_layout_snapshots W)(ws \<mapsto> snap)" "cw_view_entities W' = cw_view_entities W"
    "cw_next_stacking W' = cw_next_stacking W" "cw_appearance W' = cw_appearance W"
    using R(3-7) by (simp_all add: W'_def W1_def)
  have "desk_inv \<lparr>desk_rows = table_arrange (view_row_of ops W) ws g, desk_next = cw_next_stacking W,
      desk_cached = insert ws (dom (cw_layout_snapshots W))\<rparr>"
    using table_arrange_inv[OF world_okD(9)[OF ok], of ws g] arranged_total[OF g(2) world_okD(6)[OF ok]] by simp
  then have "world_ok ops W'"
    using rows rest world_okD(8)[OF ok] by (simp add: world_ok_def desk_of_def)
  then show ?thesis
    using run eng g(2) rows(1) rest unfolding items_def tiled_def views_def by (metis snd_conv)
qed

lemma arrange_workspace_viewport:
  assumes "world_ok ops W" "has_room W"
  shows "\<exists>snap g W'. arrange_workspace ops ws engine area W = (Done snap, W') \<and> world_ok ops W' \<and>
    snapshot_viewport snap = area \<and> arranged (view_row_of ops W) ws snap g \<and>
    view_row_of ops W' = table_arrange (view_row_of ops W) ws g \<and>
    cw_layout_snapshots W' = (cw_layout_snapshots W)(ws \<mapsto> snap) \<and> cw_view_entities W' = cw_view_entities W \<and>
    cw_next_stacking W' = cw_next_stacking W"
proof -
  have vp: "snapshot_viewport (snd (engine_arrange engine st area items f)) = area" for st items f
    by (cases engine) (simp add: engine.arrange_viewport)
  show ?thesis using arrange_workspace_Done[OF assms, of ws engine area] vp by metis
qed

lemma arrange_workspace_safe:
  "world_ok ops W \<Longrightarrow> has_room W \<Longrightarrow> safe_result ops (arrange_workspace ops ws engine output W)"
  using arrange_workspace_Done[of W ws engine "output"] by (auto simp: safe_result_def)

end

section \<open>Scenes show the workspace\<close>

text \<open>Rows whose rectangles are in the range of their machine types, and the size of the content table
  of all views together.\<close>

definition ranged_row :: "'m view_row \<Rightarrow> bool" where
  "ranged_row r \<longleftrightarrow>
     (case row_geometry r of None \<Rightarrow> True | Some g \<Rightarrow> rect_ok g) \<and>
     (case row_backdrop r of None \<Rightarrow> True | Some rs \<Rightarrow> list_all rect_ok rs) \<and>
     list_all (\<lambda>c. rect_ok (local_geometry c)) (row_content r)"

definition content_load :: "(view_id \<rightharpoonup> 'm view_row) \<Rightarrow> nat" where
  "content_load T = (\<Sum>v \<in> dom T. length (row_content (the (T v))))"

definition ranged_table :: "(view_id \<rightharpoonup> 'm view_row) \<Rightarrow> bool" where
  "ranged_table T \<longleftrightarrow> (\<forall>v r. T v = Some r \<longrightarrow> ranged_row r) \<and> int (content_load T) \<le> U32_MAX"

text \<open>A node shows a row: it is the node of that row, and its span of the content table holds the
  row's surfaces.\<close>

definition node_of_row ::
  "scene_appearance \<Rightarrow> rect \<Rightarrow> 'm surface_content list \<Rightarrow> (view_id \<rightharpoonup> 'm view_row) \<Rightarrow> view_id \<Rightarrow> scene_node \<Rightarrow> bool" where
  "node_of_row appearance vp contents T v n \<longleftrightarrow>
     (\<exists>r g start. T v = Some r \<and> row_geometry r = Some g \<and>
        n = extract_node appearance vp v r g \<lparr>span_start = start, span_len = length (row_content r)\<rparr> \<and>
        start + length (row_content r) \<le> length contents \<and>
        take (length (row_content r)) (drop start contents) = row_content r)"

lemma extract_node_simps [simp]:
  "node_view_id (extract_node a vp v r g sp) = v" "node_content (extract_node a vp v r g sp) = sp"
  "node_stacking_order (extract_node a vp v r g sp) = row_stacking r"
  "node_placement (extract_node a vp v r g sp) = layout_placement_new g vp"
  "node_geometry (extract_node a vp v r g sp) = g"
  "node_backdrop_region (extract_node a vp v r g sp) = row_backdrop r"
  "node_presentation_hint (extract_node a vp v r g sp) = row_hint r"
  by (simp_all add: extract_node_def node_with_content_def node_with_presentation_hint_def
      node_with_focus_outline_def node_with_backdrop_region_def scene_node_new_def node_geometry_def)

definition workspace_ids :: "(view_id \<rightharpoonup> 'm view_row) \<Rightarrow> workspace_id \<Rightarrow> view_id list" where
  "workspace_ids T ws = sorted_list_of_set {v. \<exists>r. T v = Some r \<and> row_workspace r = ws}"

lemma workspace_ids_props:
  assumes "finite (dom T)"
  shows "set (workspace_ids T ws) = {v. \<exists>r. T v = Some r \<and> row_workspace r = ws}" "sorted (workspace_ids T ws)"
    "distinct (workspace_ids T ws)" "length (workspace_ids T ws) \<le> card (dom T)"
proof -
  have sub: "{v. \<exists>r. T v = Some r \<and> row_workspace r = ws} \<subseteq> dom T" by auto
  then have fin: "finite {v. \<exists>r. T v = Some r \<and> row_workspace r = ws}" using assms finite_subset by blast
  show "set (workspace_ids T ws) = {v. \<exists>r. T v = Some r \<and> row_workspace r = ws}"
    "sorted (workspace_ids T ws)" "distinct (workspace_ids T ws)"
    unfolding workspace_ids_def using fin by simp_all
  show "length (workspace_ids T ws) \<le> card (dom T)"
    unfolding workspace_ids_def using card_mono[OF assms sub] by simp
qed

lemma content_load_ids:
  assumes "finite (dom T)"
  shows "sum_list (map (\<lambda>v. length (row_content (the (T v)))) (workspace_ids T ws)) \<le> content_load T"
proof -
  have "sum_list (map (\<lambda>v. length (row_content (the (T v)))) (workspace_ids T ws)) =
      (\<Sum>v \<in> set (workspace_ids T ws). length (row_content (the (T v))))"
    using workspace_ids_props(3)[OF assms] by (simp add: sum_list_distinct_conv_sum_set)
  also have "\<dots> \<le> content_load T"
    unfolding content_load_def using workspace_ids_props(1)[OF assms, of ws] by (intro sum_mono2 assms) auto
  finally show ?thesis .
qed

lemma node_of_row_ok:
  assumes "node_of_row a vp contents T v n" "ranged_table T" "rect_ok vp" "int (length contents) \<le> U32_MAX"
  shows "node_ok vp contents n" "node_view_id n = v"
proof -
  obtain r g start where r: "T v = Some r" "row_geometry r = Some g"
    "n = extract_node a vp v r g \<lparr>span_start = start, span_len = length (row_content r)\<rparr>"
    "start + length (row_content r) \<le> length contents"
    using assms(1) unfolding node_of_row_def by blast
  have rr: "ranged_row r" using assms(2) r(1) unfolding ranged_table_def by blast
  then have g: "rect_ok g" using r(2) by (simp add: ranged_row_def)
  have "\<And>c. rect_intersection g vp = Some c \<Longrightarrow> rect_ok c \<and> rect_contains_rect vp c"
    using in_view_intersection[OF g assms(3)] by (simp add: in_view_def)
  moreover have "span_in_table contents n"
    using r(3,4) assms(4) by (simp add: span_in_table_def span_range_def machine_defs)
  ultimately show "node_ok vp contents n"
    using r(3) g rr by (auto simp: node_ok_def ranged_row_def split: option.splits)
  show "node_view_id n = v" using r(3) by simp
qed

lemma node_of_row_contents:
  assumes "node_of_row a vp (scene_contents scene) T v n" "int (length (scene_contents scene)) \<le> U32_MAX"
  shows "contents_for scene n = Inr (row_content (the (T v)))"
proof -
  obtain r g start where r: "T v = Some r"
    "n = extract_node a vp v r g \<lparr>span_start = start, span_len = length (row_content r)\<rparr>"
    "start + length (row_content r) \<le> length (scene_contents scene)"
    "take (length (row_content r)) (drop start (scene_contents scene)) = row_content r"
    using assms(1) unfolding node_of_row_def by blast
  then show ?thesis using assms(2) by (simp add: contents_for_def span_range_def machine_defs)
qed

context entity_store
begin

lemma extract_nodes_spec:
  assumes ok: "index_ok ops W"
    and rows: "\<And>v. v \<in> set vs \<Longrightarrow> \<exists>r g. view_row_of ops W v = Some r \<and> row_geometry r = Some g"
    and size: "int (length contents + sum_list (map (\<lambda>v. length (row_content (the (view_row_of ops W v)))) vs)) \<le> U32_MAX"
  shows "\<exists>nodes. extract_nodes ops W vp vs contents =
      Done (Some (nodes, contents @ concat (map (\<lambda>v. row_content (the (view_row_of ops W v))) vs))) \<and>
    list_all2 (node_of_row (cw_appearance W) vp
      (contents @ concat (map (\<lambda>v. row_content (the (view_row_of ops W v))) vs)) (view_row_of ops W)) vs nodes"
  using rows size
proof (induction vs arbitrary: contents)
  case Nil
  then show ?case by simp
next
  case (Cons v vs)
  obtain r g where r: "view_row_of ops W v = Some r" "row_geometry r = Some g" using Cons.prems(1)[of v] by auto
  obtain e where e: "map_of (cw_view_entities W) v = Some e" "ecs_get ops (cw_world W) e = Some r"
    using r(1) by (auto simp: view_row_of_def bind_eq_Some_conv)
  let ?tail = "concat (map (\<lambda>v. row_content (the (view_row_of ops W v))) vs)"
  let ?table = "(contents @ row_content r) @ ?tail"
  let ?sp = "\<lparr>span_start = length contents, span_len = length (row_content r)\<rparr>"
  obtain nodes where N: "extract_nodes ops W vp vs (contents @ row_content r) = Done (Some (nodes, ?table))"
    "list_all2 (node_of_row (cw_appearance W) vp ?table (view_row_of ops W)) vs nodes"
    using Cons.IH[of "contents @ row_content r"] Cons.prems r(1) by (force simp: add.assoc)
  have "content_span_new (length contents) (length (row_content r)) = Some ?sp"
    using Cons.prems(2) r(1) by (simp add: content_span_new_def)
  then have "extract_nodes ops W vp (v # vs) contents =
      Done (Some (extract_node (cw_appearance W) vp v r g ?sp # nodes, ?table))"
    using e r(2) N(1) by simp
  moreover have "node_of_row (cw_appearance W) vp ?table (view_row_of ops W) v (extract_node (cw_appearance W) vp v r g ?sp)"
    using r unfolding node_of_row_def
    by (intro exI[of _ r] exI[of _ g] exI[of _ "length contents"]) simp
  ultimately show ?case using N(2) r(1) by simp
qed

lemma extract_ids:
  assumes ok: "world_ok ops W"
  shows "sort (map (\<lambda>(e, r). row_view r) (filter (\<lambda>(e, r). row_workspace r = ws) (query_rows ops W))) =
    workspace_ids (view_row_of ops W) ws"
proof -
  let ?mk = "\<lambda>(e, r). \<lparr>wv_id = row_view r, wv_entity = e, wv_layout = row_layout r,
      wv_placement = row_placement r, wv_focused = row_focused r\<rparr>"
  let ?q = "filter (\<lambda>(e, r). row_workspace r = ws) (query_rows ops W)"
  have m: "map (\<lambda>(e, r). row_view r) ?q = map wv_id (map ?mk ?q)" by auto
  have "mset (map wv_id (workspace_views ops W ws)) = mset (map wv_id (map ?mk ?q))"
    by (simp only: workspace_views_def mset_map mset_sort)
  moreover have sorted: "sorted (map wv_id (workspace_views ops W ws))" by (simp add: workspace_views_def)
  ultimately have eq: "sort (map (\<lambda>(e, r). row_view r) ?q) = map wv_id (workspace_views ops W ws)"
    unfolding m by (intro properties_for_sort) simp_all
  have "v \<in> set (map wv_id (workspace_views ops W ws)) \<longleftrightarrow> (\<exists>r. view_row_of ops W v = Some r \<and> row_workspace r = ws)" for v
  proof
    assume "v \<in> set (map wv_id (workspace_views ops W ws))"
    then show "\<exists>r. view_row_of ops W v = Some r \<and> row_workspace r = ws" using workspace_views_set[OF ok] by auto
  next
    assume "\<exists>r. view_row_of ops W v = Some r \<and> row_workspace r = ws"
    then obtain r where "view_row_of ops W v = Some r" "row_workspace r = ws" by blast
    from workspace_view_ex[OF ok this] show "v \<in> set (map wv_id (workspace_views ops W ws))" by auto
  qed
  then have "set (map wv_id (workspace_views ops W ws)) = {v. \<exists>r. view_row_of ops W v = Some r \<and> row_workspace r = ws}" by blast
  then show ?thesis unfolding eq workspace_ids_def
    using workspace_views_distinct(1)[OF ok, of ws] sorted
    by (metis sorted_list_of_set.idem_if_sorted_distinct)
qed

lemma extract_scene_Done:
  assumes ok: "world_ok ops W" and room: "has_room W" and ranged: "ranged_table (view_row_of ops W)"
    and cached: "cw_layout_snapshots W ws = Some snap" and vp: "rect_ok (snapshot_viewport snap)"
  shows "\<exists>scene. extract_scene ops W ws = Done (Some scene) \<and> scene_ok scene \<and>
    scene_workspace scene = ws \<and> scene_viewport scene = snapshot_viewport snap \<and>
    map node_view_id (scene_nodes scene) = workspace_ids (view_row_of ops W) ws \<and>
    mset (scene_draw_order scene) = mset (scene_nodes scene) \<and> sorted (map paint_key (scene_draw_order scene)) \<and>
    (\<forall>n \<in> set (scene_nodes scene). node_of_row (cw_appearance W) (snapshot_viewport snap) (scene_contents scene)
        (view_row_of ops W) (node_view_id n) n \<and>
      contents_for scene n = Inr (row_content (the (view_row_of ops W (node_view_id n)))))"
proof -
  let ?T = "view_row_of ops W" and ?vp = "snapshot_viewport snap"
  let ?ids = "workspace_ids ?T ws"
  define contents where "contents = concat (map (\<lambda>v. row_content (the (?T v))) ?ids)"
  note ids = workspace_ids_props[OF world_okD(6)[OF ok], of ws]
  have rows: "\<exists>r g. ?T v = Some r \<and> row_geometry r = Some g" if v: "v \<in> set ?ids" for v
  proof -
    obtain r where r: "?T v = Some r" "row_workspace r = ws" using v unfolding ids(1) by blast
    have "ws \<in> dom (cw_layout_snapshots W)" using cached by blast
    then have "row_geometry r \<noteq> None" using world_okD(5)[OF ok] r unfolding cache_ok_def by metis
    then show ?thesis using r by blast
  qed
  have total: "int (sum_list (map (\<lambda>v. length (row_content (the (?T v)))) ?ids)) \<le> U32_MAX"
    using content_load_ids[OF world_okD(6)[OF ok], of ws] ranged by (simp add: ranged_table_def)
  have len: "int (length contents) \<le> U32_MAX" using total by (simp add: contents_def length_concat comp_def)
  obtain nodes where N: "extract_nodes ops W ?vp ?ids [] = Done (Some (nodes, contents))"
    "list_all2 (node_of_row (cw_appearance W) ?vp contents ?T) ?ids nodes"
    using extract_nodes_spec[where contents = "[]" and vp = ?vp, OF world_okD(1)[OF ok] rows] total unfolding contents_def by auto
  have nth: "node_of_row (cw_appearance W) ?vp contents ?T (?ids ! i) (nodes ! i)" if "i < length nodes" for i
    using list_all2_nthD2[OF N(2) that] .
  have "map node_view_id nodes = ?ids"
    using N(2) node_of_row_ok(2)[OF nth ranged vp len] by (intro nth_equalityI) (auto dest: list_all2_lengthD)
  note mi = this
  have each: "node_of_row (cw_appearance W) ?vp contents ?T (node_view_id n) n" if "n \<in> set nodes" for n
    using that nth mi by (metis in_set_conv_nth nth_map)
  have "list_all (\<lambda>c. rect_ok (local_geometry c)) contents"
  proof (unfold list_all_iff, intro ballI)
    fix c assume "c \<in> set contents"
    then obtain v where v: "v \<in> set ?ids" "c \<in> set (row_content (the (?T v)))" by (auto simp: contents_def)
    obtain r where r: "?T v = Some r" using rows[OF v(1)] by blast
    have "ranged_row r" using ranged r unfolding ranged_table_def by blast
    then show "rect_ok (local_geometry c)" using v(2) r by (simp add: ranged_row_def list_all_iff)
  qed
  moreover have "int (length nodes) \<le> U32_MAX"
  proof -
    have "length nodes = length ?ids" using mi by (metis length_map)
    then show ?thesis using ids(4) room rows_dom(2)[OF world_okD(1)[OF ok]] by (simp add: has_room_def)
  qed
  moreover have "list_all (node_ok ?vp contents) nodes"
    using each node_of_row_ok(1)[OF _ ranged vp len] by (auto simp: list_all_iff)
  ultimately have "nodes_ok ?vp nodes contents" using vp mi ids(3) by (simp add: nodes_ok_def)
  from scene_with_content_ok[OF this, of ws] obtain scene where S:
    "scene_with_content ws ?vp nodes contents = Inr scene" "scene_ok scene" "scene_workspace scene = ws"
    "scene_viewport scene = ?vp" "scene_contents scene = contents" "scene_nodes scene = sort_key node_view_id nodes"
    "mset (scene_draw_order scene) = mset nodes" "sorted (map paint_key (scene_draw_order scene))"
    by blast
  have sortid: "sort_key node_view_id nodes = nodes" using ids(2) mi by (simp add: sort_key_id_if_sorted)
  have "extract_scene ops W ws = Done (Some scene)"
    using cached N(1) S(1) extract_ids[OF ok, of ws] by (simp add: extract_scene_def)
  moreover have "node_of_row (cw_appearance W) ?vp (scene_contents scene) ?T (node_view_id n) n \<and>
      contents_for scene n = Inr (row_content (the (?T (node_view_id n))))" if "n \<in> set (scene_nodes scene)" for n
  proof -
    have n: "node_of_row (cw_appearance W) ?vp (scene_contents scene) ?T (node_view_id n) n"
      using each that S(5,6) sortid by simp
    then show ?thesis using node_of_row_contents[OF n] len S(5) by simp
  qed
  ultimately show ?thesis using S sortid mi by simp
qed

end

end
