(* ===== verification/Ecs_Typed.thy ===== *)
theory Ecs_Typed
  imports Ecs_Scene
begin

text \<open>
  Every number the compositor world stores stays in the range of its machine type. The model works on
  unbounded integers and writes the saturating and clamping operations of the sources out, so this is
  what justifies reading a rectangle of the model as a rectangle of the program: rows are typed when
  their geometries, placements, constraints, backdrop regions and surface contents are, an operation
  \<open>keeps_typed\<close> the rows when its parameters are typed, and the layout engine, the rounds that
  place floating and attached views and the scene extraction only produce typed rectangles.
\<close>

section \<open>Typed rows\<close>

definition typed_placement :: "view_placement \<Rightarrow> bool" where
  "typed_placement p \<longleftrightarrow>
     (case p of Tiled \<Rightarrow> True | Floating g \<Rightarrow> rect_ok g | Attached owner sz \<Rightarrow> size_ok sz)"

definition typed_layout :: "view_layout \<Rightarrow> bool" where
  "typed_layout l \<longleftrightarrow> item_ok (layout_item_of l)"

definition option_rect_ok :: "rect option \<Rightarrow> bool" where
  "option_rect_ok g \<longleftrightarrow> (case g of None \<Rightarrow> True | Some r \<Rightarrow> rect_ok r)"

definition typed_backdrop :: "backdrop_region option \<Rightarrow> bool" where
  "typed_backdrop b \<longleftrightarrow> (case b of None \<Rightarrow> True | Some rs \<Rightarrow> list_all rect_ok rs)"

definition typed_contents :: "'m surface_content list \<Rightarrow> bool" where
  "typed_contents cs \<longleftrightarrow> list_all (\<lambda>c. rect_ok (local_geometry c)) cs"

definition typed_row :: "'m view_row \<Rightarrow> bool" where
  "typed_row r \<longleftrightarrow>
     typed_placement (row_placement r) \<and> typed_layout (row_layout r) \<and> option_rect_ok (row_geometry r) \<and>
     option_rect_ok (row_last_geometry r) \<and> typed_backdrop (row_backdrop r) \<and> typed_contents (row_content r)"

definition world_typed :: "('w, 'e, 'm) ecs_ops \<Rightarrow> ('w, 'e) compositor_world \<Rightarrow> bool" where
  "world_typed ops W \<longleftrightarrow>
     (\<forall>e r. ecs_get ops (cw_world W) e = Some r \<longrightarrow> typed_row r) \<and>
     (\<forall>ws snap. cw_layout_snapshots W ws = Some snap \<longrightarrow> rect_ok (snapshot_viewport snap))"

definition keeps_typed :: "('w, 'e, 'm) ecs_ops \<Rightarrow> ('a, ('w, 'e) compositor_world) op \<Rightarrow> bool" where
  "keeps_typed ops m \<longleftrightarrow> (\<forall>W. world_typed ops W \<longrightarrow> world_typed ops (snd (m W)))"

named_theorems typed "operations that keep the world typed"

lemma keeps_typedI: "(\<And>W. world_typed ops W \<Longrightarrow> world_typed ops (snd (m W))) \<Longrightarrow> keeps_typed ops m"
  by (simp add: keeps_typed_def)

lemma keeps_typedD: "keeps_typed ops m \<Longrightarrow> world_typed ops W \<Longrightarrow> world_typed ops (snd (m W))"
  by (simp add: keeps_typed_def)

lemma keeps_return [typed, simp]: "keeps_typed ops (return_op a)" "keeps_typed ops (fail_op e)"
  by (simp_all add: keeps_typed_def)

lemma keeps_bind [typed]: "keeps_typed ops m \<Longrightarrow> (\<And>a. keeps_typed ops (f a)) \<Longrightarrow> keeps_typed ops (bind_op m f)"
  by (auto simp: keeps_typed_def bind_op_def split: outcome.split prod.split dest: sym)

lemma keeps_if [typed]: "keeps_typed ops m \<Longrightarrow> keeps_typed ops m' \<Longrightarrow> keeps_typed ops (if b then m else m')"
  by simp

lemma keeps_reads [typed, simp]:
  "keeps_typed ops (entity_for v)" "keeps_typed ops (index_entity v)" "keeps_typed ops (get_row ops e)"
  "keeps_typed ops (view_family ops v)"
  by (simp_all add: keeps_typed_def entity_for_def index_entity_def get_row_def view_family_def split: option.split)

lemma keeps_each [typed]: "(\<And>x. keeps_typed ops (f x)) \<Longrightarrow> keeps_typed ops (each_op f xs)"
  by (induction xs) (simp_all add: keeps_bind)

lemma world_typed_snapshots:
  "world_typed ops W \<Longrightarrow> world_typed ops (W\<lparr>cw_layout_snapshots := (cw_layout_snapshots W)(ws := None)\<rparr>)"
  by (auto simp: world_typed_def)

lemma keeps_drop [typed, simp]: "keeps_typed ops (drop_snapshot ws)"
  by (simp add: keeps_typed_def world_typed_snapshots)

lemma keeps_allocate [typed, simp]: "keeps_typed ops allocate_stacking_order"
  by (simp add: keeps_typed_def allocate_stacking_order_def Let_def world_typed_def)

lemma typed_spawn_row [simp]: "typed_row (spawn_row v ws n)"
  by (simp add: typed_row_def spawn_row_def typed_placement_def typed_layout_def option_rect_ok_def typed_backdrop_def
      typed_contents_def item_ok_def layout_item_of_def default_view_layout_def default_constraints_def
      constraints_ok_def size_ok_def option_u32_def machine_defs)

definition typed_change :: "('m view_row \<Rightarrow> 'm view_row) \<Rightarrow> bool" where
  "typed_change f \<longleftrightarrow> (\<forall>r. typed_row r \<longrightarrow> typed_row (f r))"

lemma typed_changes [simp]:
  "typed_change (\<lambda>r. r\<lparr>row_focused := b\<rparr>)" "typed_change (\<lambda>r. r\<lparr>row_stacking := n\<rparr>)"
  "typed_change (\<lambda>r. r\<lparr>row_minimized_from := m\<rparr>)" "typed_change (\<lambda>r. r\<lparr>row_effects := x r\<rparr>)"
  "typed_change (\<lambda>r. r\<lparr>row_hint := h\<rparr>)"
  "typed_change (\<lambda>r. r\<lparr>row_workspace := ws, row_geometry := None, row_minimized_from := None\<rparr>)"
  "typed_change (\<lambda>r. r\<lparr>row_geometry := None\<rparr>)"
  "typed_placement p \<Longrightarrow> typed_change (\<lambda>r. r\<lparr>row_placement := p\<rparr>)"
  "typed_layout l \<Longrightarrow> typed_change (\<lambda>r. r\<lparr>row_layout := l\<rparr>)"
  "constraints_ok c \<Longrightarrow> typed_change (\<lambda>r. r\<lparr>row_layout := (row_layout r)\<lparr>vl_constraints := c\<rparr>\<rparr>)"
  "typed_backdrop b' \<Longrightarrow> typed_change (\<lambda>r. r\<lparr>row_backdrop := b'\<rparr>)"
  "typed_contents cs \<Longrightarrow> typed_change (\<lambda>r. r\<lparr>row_content := cs\<rparr>)"
  "rect_ok g \<Longrightarrow> typed_change (\<lambda>r. r\<lparr>row_geometry := Some g, row_last_geometry := Some g\<rparr>)"
  "rect_ok g \<Longrightarrow> typed_change (\<lambda>r. r\<lparr>row_placement := Floating g, row_geometry := Some g, row_last_geometry := Some g\<rparr>)"
  by (simp_all add: typed_change_def typed_row_def typed_placement_def typed_layout_def option_rect_ok_def item_ok_def
      layout_item_of_def)

section \<open>Operations keep rows typed\<close>

context entity_store
begin

lemma keeps_modify [typed]:
  assumes "typed_change f"
  shows "keeps_typed ops (modify_row ops e f)"
proof (rule keeps_typedI)
  fix W assume W: "world_typed ops W"
  show "world_typed ops (snd (modify_row ops e f W))"
  proof (cases "ecs_get ops (cw_world W) e")
    case (Some r)
    then have g: "ecs_get ops (ecs_put ops e (f r) (cw_world W)) = (ecs_get ops (cw_world W))(e \<mapsto> f r)" by (simp add: put_get)
    have "typed_row (f r)" using W Some assms by (simp add: world_typed_def typed_change_def)
    then show ?thesis using W Some by (simp add: modify_row_def world_typed_def g)
  qed (use W in \<open>simp add: modify_row_def\<close>)
qed

lemma keeps_at: "keeps_typed ops (f W) \<Longrightarrow> world_typed ops W \<Longrightarrow> world_typed ops (snd (f W W))"
  by (rule keeps_typedD)

lemma keeps_clear_focus [typed]: "keeps_typed ops (clear_focus ops ws)"
  by (rule keeps_typedI) (simp add: clear_focus_def keeps_typedD[OF keeps_each] keeps_modify)

lemma keeps_spawn [typed]: "keeps_typed ops (spawn_view ops v ws)"
proof (rule keeps_typedI)
  fix W assume W: "world_typed ops W"
  obtain e w' where sp: "ecs_spawn ops (spawn_row v ws (cw_next_stacking W)) (cw_world W) = (e, w')" by fastforce
  show "world_typed ops (snd (spawn_view ops v ws W))"
    using W sp spawn_get[OF sp]
    by (simp add: spawn_view_def allocate_stacking_order_def bind_op_def Let_def world_typed_def)
qed

lemma keeps_remove [typed]: "keeps_typed ops (remove_view ops v)"
proof (rule keeps_typedI)
  fix W assume W: "world_typed ops W"
  show "world_typed ops (snd (remove_view ops v W))"
  proof (cases "attached_children ops W v = []")
    case True
    show ?thesis
    proof (cases "map_of (cw_view_entities W) v")
      case (Some e)
      obtain b w' where d: "ecs_despawn ops e (cw_world W) = (b, w')" by fastforce
      show ?thesis
        using W True Some d despawn_get[OF d]
        by (cases "ecs_get ops (cw_world W) e")
          (auto simp: remove_view_def get_row_def bind_op_def Let_def world_typed_def split: if_splits)
    qed (use W True in \<open>simp add: remove_view_def\<close>)
  next
    case False
    then show ?thesis using W by (cases "attached_children ops W v") (simp_all add: remove_view_def)
  qed
qed

lemma keeps_move [typed]: "keeps_typed ops (move_view ops v ws)"
proof -
  have member: "keeps_typed ops (move_member ops ws u)" for u
    unfolding move_member_def by (intro keeps_bind keeps_modify) simp_all
  have rest: "keeps_typed ops (bind_op (if b then clear_focus ops ws else return_op ()) (\<lambda>_.
      bind_op (each_op (move_member ops ws) family) (\<lambda>_. bind_op (drop_snapshot ws') (\<lambda>_. drop_snapshot ws))))" for b family ws'
    by (intro keeps_bind keeps_each member) (simp_all add: keeps_clear_focus)
  have "keeps_typed ops (\<lambda>W. let was_focused = list_ex (is_focused ops W) family
         in bind_op (if was_focused then clear_focus ops ws else return_op ()) (\<lambda>_.
            bind_op (each_op (move_member ops ws) family) (\<lambda>_. bind_op (drop_snapshot ws') (\<lambda>_. drop_snapshot ws))) W)" for family ws'
    by (rule keeps_typedI) (simp add: Let_def keeps_typedD[OF rest])
  then show ?thesis unfolding move_view_def by (intro keeps_bind keeps_if) simp_all
qed

lemma keeps_check_owner [typed]: "keeps_typed ops (check_owner ops v ws p)"
proof -
  have "keeps_typed ops (\<lambda>W. if c then (Failed e1, W) else if attachment_would_cycle ops W v owner then (Failed e2, W)
      else (Done (), W))" for c e1 e2 owner
    by (simp add: keeps_typed_def)
  then show ?thesis unfolding check_owner_def by (auto split: option.split intro!: keeps_bind)
qed

lemma keeps_place [typed]: "typed_placement p \<Longrightarrow> keeps_typed ops (set_view_placement ops v p)"
  unfolding set_view_placement_def by (intro keeps_bind keeps_if keeps_modify keeps_check_owner) simp_all

lemma keeps_float [typed]: "rect_ok g \<Longrightarrow> keeps_typed ops (update_floating_geometry ops v g)"
  unfolding update_floating_geometry_def
  by (intro keeps_bind) (auto split: view_placement.split intro!: keeps_bind keeps_modify)

lemma keeps_attributes [typed]:
  "typed_layout l \<Longrightarrow> keeps_typed ops (set_view_layout ops v l)"
  "constraints_ok c \<Longrightarrow> keeps_typed ops (set_view_constraints ops v c)"
  "keeps_typed ops (set_view_effects ops v effects)"
  "typed_backdrop region \<Longrightarrow> keeps_typed ops (set_view_backdrop_effect ops v blur region)"
  "typed_contents cs \<Longrightarrow> keeps_typed ops (set_view_content ops v cs)"
  "keeps_typed ops (set_presentation_hint ops v h)"
  unfolding set_view_layout_def set_view_constraints_def set_view_effects_def set_view_backdrop_effect_def
    set_view_content_def set_presentation_hint_def
  by (intro keeps_bind keeps_if keeps_modify; simp)+

lemma keeps_raise_members [typed]: "keeps_typed ops (each_op (raise_member ops) vs)"
  unfolding raise_member_def by (intro keeps_each keeps_bind keeps_modify) simp_all

lemma keeps_raise [typed]: "keeps_typed ops (raise_view_family ops v)"
proof (rule keeps_typedI)
  fix W assume W: "world_typed ops W"
  show "world_typed ops (snd (raise_view_family ops v W))"
  proof (cases "tiled_ancestor ops W v")
    case (Some root)
    have "keeps_typed ops (bind_op (view_family ops root) (\<lambda>family.
        if v \<noteq> root then bind_op (view_family ops v) (\<lambda>subtree.
          each_op (raise_member ops) (filter (\<lambda>u. u \<notin> set subtree) family @ subtree))
        else each_op (raise_member ops) family))"
      by (intro keeps_bind keeps_if keeps_raise_members keeps_reads)
    from keeps_typedD[OF this W] Some show ?thesis by (simp add: raise_view_family_def)
  qed (use W in \<open>simp add: raise_view_family_def\<close>)
qed

lemma keeps_focus [typed]: "keeps_typed ops (focus_view ops v)"
proof -
  have tail: "keeps_typed ops (bind_op (get_row ops e) (\<lambda>r. bind_op (clear_focus ops (row_workspace r)) (\<lambda>_.
      bind_op (modify_row ops e (\<lambda>r. r\<lparr>row_focused := True\<rparr>)) (\<lambda>_.
      bind_op (raise_view_family ops v) (\<lambda>_. drop_snapshot (row_workspace r))))))" for e
    by (intro keeps_bind keeps_modify keeps_raise keeps_clear_focus keeps_reads keeps_drop) simp
  show ?thesis unfolding focus_view_def
    by (intro keeps_bind keeps_reads) (rule keeps_typedI, simp add: keeps_typedD[OF tail])
qed

lemma keeps_minimize [typed]: "keeps_typed ops (minimize_view ops v hidden)"
proof -
  have tail: "keeps_typed ops (bind_op (get_row ops e) (\<lambda>r.
      if row_workspace r = hidden then return_op False
      else bind_op (move_view ops v hidden) (\<lambda>_. bind_op (entity_for v) (\<lambda>e.
        bind_op (modify_row ops e (\<lambda>q. q\<lparr>row_minimized_from := Some (row_workspace r)\<rparr>)) (\<lambda>_. return_op True)))))" for e
    by (intro keeps_bind keeps_if keeps_modify keeps_move keeps_reads keeps_return) simp
  show ?thesis unfolding minimize_view_def
    by (intro keeps_bind keeps_reads) (rule keeps_typedI, simp add: keeps_typedD[OF tail])
qed

lemma keeps_restore [typed]: "keeps_typed ops (restore_minimized_view ops v)"
proof -
  have tail: "keeps_typed ops (bind_op (move_view ops v origin) (\<lambda>_. return_op (Some origin)))" for origin
    by (intro keeps_bind keeps_move keeps_return)
  show ?thesis unfolding restore_minimized_view_def
    by (intro keeps_bind keeps_reads) (rule keeps_typedI, simp split: option.split add: keeps_typedD[OF tail])
qed

lemma keeps_globals [typed]: "keeps_typed ops (set_appearance a)" "keeps_typed ops reset_layout_states"
  by (simp_all add: keeps_typed_def set_appearance_def reset_layout_states_def world_typed_def)

end

section \<open>Arranging only gives typed geometries\<close>

definition typed_map :: "(view_id \<rightharpoonup> rect) \<Rightarrow> bool" where
  "typed_map g \<longleftrightarrow> (\<forall>v r. g v = Some r \<longrightarrow> rect_ok r)"

definition typed_view :: "'e workspace_view \<Rightarrow> bool" where
  "typed_view v \<longleftrightarrow> typed_placement (wv_placement v) \<and> typed_layout (wv_layout v)"

lemma typed_map_upd [simp]: "typed_map g \<Longrightarrow> rect_ok r \<Longrightarrow> typed_map (g(v \<mapsto> r))"
  by (simp add: typed_map_def)

lemma attached_geometry_ok: "typed_layout l \<Longrightarrow> rect_ok (attached_geometry owner (vl_constraints l) sz)"
  using constrain_size_ok[of "vl_constraints l" sz]
  by (auto simp: attached_geometry_def Let_def centered_axis_def rect_ok_def size_ok_def typed_layout_def item_ok_def
      layout_item_of_def)

lemma resolve_round_typed:
  assumes "resolve_round vs g p = (u, g', p')" "typed_map g" "\<forall>v \<in> set vs. typed_view v"
  shows "typed_map g'" "set u \<subseteq> set vs"
proof -
  have "typed_map g' \<and> set u \<subseteq> set vs"
    using assms
  proof (induction vs g p arbitrary: u g' p' rule: resolve_round.induct)
    case (2 v vs g p)
    show ?case
    proof (cases "wv_placement v")
      case Tiled
      then show ?thesis using 2 by fastforce
    next
      case (Floating geo)
      then have "rect_ok geo" using "2.prems"(3) by (simp add: typed_view_def typed_placement_def)
      then show ?thesis using "2.IH"(2)[OF Floating, of u g' p'] "2.prems" Floating by fastforce
    next
      case (Attached owner sz)
      show ?thesis
      proof (cases "g owner")
        case None
        obtain u1 g1 p1 where r: "resolve_round vs g p = (u1, g1, p1)" by (metis prod_cases3)
        then show ?thesis using "2.IH"(3)[OF Attached None r] "2.prems" Attached None by auto
      next
        case (Some og)
        have "rect_ok (attached_geometry og (vl_constraints (wv_layout v)) sz)"
          using "2.prems"(3) by (simp add: typed_view_def attached_geometry_ok)
        then show ?thesis using "2.IH"(4)[OF Attached Some, of u g' p'] "2.prems" Attached Some by fastforce
      qed
    qed
  qed simp
  then show "typed_map g'" "set u \<subseteq> set vs" by blast+
qed

lemma resolve_loop_typed:
  assumes "resolve_loop n vs g = Some g'" "typed_map g" "\<forall>v \<in> set vs. typed_view v"
  shows "typed_map g'"
  using assms
proof (induction n arbitrary: vs g)
  case (Suc n)
  obtain u g1 p where r: "resolve_round vs g False = (u, g1, p)" by (metis prod_cases3)
  note R = resolve_round_typed[OF r Suc.prems(2,3)]
  then have "\<forall>v \<in> set u. typed_view v" using Suc.prems(3) by blast
  then show ?case using Suc.prems(1) Suc.IH[OF _ R(1)] r R(1) by (auto split: if_splits)
qed simp

lemma tiled_geometries_typed:
  assumes "\<forall>p \<in> set ps. rect_ok (placement_geometry p)"
  shows "typed_map (tiled_geometries tiled ps)"
proof -
  have "typed_map g \<Longrightarrow> typed_map (fold (\<lambda>(v, p) g. g(wv_id v \<mapsto> placement_geometry p)) (zip tiled ps) g)" for g
    using assms
  proof (induction ps arbitrary: tiled g)
    case (Cons p ps)
    then show ?case by (cases tiled) (simp_all del: fun_upd_apply)
  qed simp
  then have "typed_map Map.empty \<Longrightarrow> typed_map (tiled_geometries tiled ps)" unfolding tiled_geometries_def by blast
  then show ?thesis by (simp add: typed_map_def)
qed

context entity_store
begin

lemma workspace_views_typed:
  assumes "world_typed ops W"
  shows "\<forall>v \<in> set (workspace_views ops W ws). typed_view v"
proof -
  have "typed_row r" if "(e, r) \<in> set (query_rows ops W)" for e r
    using that assms by (auto simp: query_rows_def mem_map_filter world_typed_def)
  then show ?thesis by (auto simp: workspace_views_def typed_view_def typed_row_def)
qed

lemma keeps_apply_geometry [typed]: "typed_map g \<Longrightarrow> keeps_typed ops (apply_geometry ops g v)"
  unfolding apply_geometry_def
  by (intro keeps_modify) (cases "g (wv_id v)"; simp add: typed_map_def)

lemma keeps_arrange [typed]:
  assumes area: "rect_ok area"
  shows "keeps_typed ops (arrange_workspace ops ws engine area)"
proof (rule keeps_typedI)
  fix W assume W: "world_typed ops W"
  define views where "views = workspace_views ops W ws"
  define tiled where "tiled = filter (\<lambda>v. is_tiled (wv_placement v)) views"
  define pending where "pending = filter (\<lambda>v. \<not> is_tiled (wv_placement v)) views"
  define items where "items = map (\<lambda>v. layout_item_of (wv_layout v)) tiled"
  define st where "st = (case cw_layout_states W ws of None \<Rightarrow> default_state | Some s \<Rightarrow> s)"
  obtain st' snap where eng: "engine_arrange engine st area items (focused_index ops W views tiled) = (st', snap)" by fastforce
  obtain k opts where engine: "engine = \<lparr>engine_kind = k, engine_options = opts\<rparr>" by (metis layout_engine.surjective unit.exhaust)
  have tv: "\<forall>v \<in> set views. typed_view v" unfolding views_def by (rule workspace_views_typed[OF W])
  then have "list_all item_ok items" by (auto simp: items_def tiled_def list_all_iff typed_view_def typed_layout_def)
  then have snap: "\<forall>p \<in> set (placements snap). rect_ok (placement_geometry p)" "snapshot_viewport snap = area"
    using engine.arrange_rect_ok[where k = k and opts = opts and st = st and area = area and items = items
        and focused = "focused_index ops W views tiled"]
      engine.arrange_viewport[of k opts st area items "focused_index ops W views tiled"] eng
    by (simp_all add: engine)
  define W1 where "W1 = W\<lparr>cw_layout_states := (cw_layout_states W)(ws \<mapsto> st')\<rparr>"
  have W1: "world_typed ops W1" using W by (simp add: W1_def world_typed_def)
  show "world_typed ops (snd (arrange_workspace ops ws engine area W))"
  proof (cases "resolve_loop (length pending) pending (tiled_geometries tiled (placements snap))")
    case None
    then show ?thesis using eng W1 unfolding arrange_workspace_def Let_def
      by (simp add: views_def[symmetric] tiled_def[symmetric] pending_def[symmetric] items_def[symmetric]
          st_def[symmetric] W1_def[symmetric])
  next
    case (Some g)
    have "\<forall>v \<in> set pending. typed_view v" using tv by (simp add: pending_def)
    then have g: "typed_map g" using resolve_loop_typed[OF Some tiled_geometries_typed[OF snap(1)]] by blast
    have "keeps_typed ops (bind_op (each_op (apply_geometry ops g) views) (\<lambda>_ W2.
        (Done snap, W2\<lparr>cw_layout_snapshots := (cw_layout_snapshots W2)(ws \<mapsto> snap)\<rparr>)))"
      by (intro keeps_bind keeps_each keeps_apply_geometry g)
        (simp add: keeps_typed_def world_typed_def snap(2) area)
    from keeps_typedD[OF this W1] show ?thesis using eng Some unfolding arrange_workspace_def Let_def
      by (simp add: views_def[symmetric] tiled_def[symmetric] pending_def[symmetric] items_def[symmetric]
          st_def[symmetric] W1_def[symmetric])
  qed
qed

end

end
