(* ===== verification/Ecs_Session.thy ===== *)
theory Ecs_Session
  imports Ecs_Typed
begin

text \<open>
  Sessions of the compositor world: every operation of \<^verbatim>\<open>ecs/world.rs\<close> and
  \<^verbatim>\<open>ecs/world/minimize.rs\<close> that changes the world as one command, the worlds reachable from a new
  one by commands in any order, and what each operation promises on a well-formed world. The
  operations call \<^verbatim>\<open>bevy_ecs\<close> only through the parameter \<open>ops\<close>; the hypothesis
  \<open>entity_store ops\<close> is the behaviour the sources rely on, and the witnesses use the store
  \<open>slot_ops\<close>.
\<close>

section \<open>Commands and reachable worlds\<close>

datatype 'm world_command =
    CmdAppearance scene_appearance
  | CmdSpawn view_id workspace_id
  | CmdRemove view_id
  | CmdMove view_id workspace_id
  | CmdPlace view_id view_placement
  | CmdFloat view_id rect
  | CmdLayout view_id view_layout
  | CmdConstraints view_id size_constraints
  | CmdReset
  | CmdFocus view_id
  | CmdEffects view_id effect_style
  | CmdBackdrop view_id "backdrop_blur option" "backdrop_region option"
  | CmdContent view_id "'m surface_content list"
  | CmdHint view_id surface_presentation_hint
  | CmdMinimize view_id workspace_id
  | CmdRestore view_id
  | CmdArrange workspace_id layout_engine rect

definition forget_op :: "('a, 's) op \<Rightarrow> (unit, 's) op" where
  "forget_op m = bind_op m (\<lambda>_. return_op ())"

fun run_command ::
  "('w, 'e, 'm) ecs_ops \<Rightarrow> 'm world_command \<Rightarrow> (unit, ('w, 'e) compositor_world) op" where
  "run_command ops (CmdAppearance a) = forget_op (set_appearance a)"
| "run_command ops (CmdSpawn v ws) = spawn_view ops v ws"
| "run_command ops (CmdRemove v) = remove_view ops v"
| "run_command ops (CmdMove v ws) = move_view ops v ws"
| "run_command ops (CmdPlace v p) = forget_op (set_view_placement ops v p)"
| "run_command ops (CmdFloat v g) = forget_op (update_floating_geometry ops v g)"
| "run_command ops (CmdLayout v l) = set_view_layout ops v l"
| "run_command ops (CmdConstraints v c) = forget_op (set_view_constraints ops v c)"
| "run_command ops CmdReset = reset_layout_states"
| "run_command ops (CmdFocus v) = focus_view ops v"
| "run_command ops (CmdEffects v e) = forget_op (set_view_effects ops v e)"
| "run_command ops (CmdBackdrop v blur region) = forget_op (set_view_backdrop_effect ops v blur region)"
| "run_command ops (CmdContent v cs) = forget_op (set_view_content ops v cs)"
| "run_command ops (CmdHint v h) = forget_op (set_presentation_hint ops v h)"
| "run_command ops (CmdMinimize v ws) = forget_op (minimize_view ops v ws)"
| "run_command ops (CmdRestore v) = forget_op (restore_minimized_view ops v)"
| "run_command ops (CmdArrange ws engine area) = forget_op (arrange_workspace ops ws engine area)"

text \<open>The parameters of a command are values of their machine types.\<close>

fun typed_command :: "'m world_command \<Rightarrow> bool" where
  "typed_command (CmdPlace v p) \<longleftrightarrow> typed_placement p"
| "typed_command (CmdFloat v g) \<longleftrightarrow> rect_ok g"
| "typed_command (CmdLayout v l) \<longleftrightarrow> typed_layout l"
| "typed_command (CmdConstraints v c) \<longleftrightarrow> constraints_ok c"
| "typed_command (CmdBackdrop v blur region) \<longleftrightarrow> typed_backdrop region"
| "typed_command (CmdContent v cs) \<longleftrightarrow> typed_contents cs"
| "typed_command (CmdArrange ws engine area) \<longleftrightarrow> rect_ok area"
| "typed_command c \<longleftrightarrow> True"

text \<open>An operation that fails still leaves a world the session goes on with.\<close>

inductive world_reachable :: "('w, 'e, 'm) ecs_ops \<Rightarrow> ('w, 'e) compositor_world \<Rightarrow> bool"
  for ops where
  start: "world_reachable ops (with_appearance ops appearance)"
| step: "world_reachable ops W \<Longrightarrow> has_room W \<Longrightarrow> typed_command c \<Longrightarrow> run_command ops c W = (res, W') \<Longrightarrow>
    world_reachable ops W'"

inductive_cases world_reachableE: "world_reachable ops W"

context entity_store
begin

lemma forget_safe: "safe_result ops (m W) \<Longrightarrow> safe_result ops (forget_op m W)"
  by (cases "m W"; cases "fst (m W)") (auto simp: forget_op_def bind_op_def safe_result_def)

lemma run_command_safe:
  assumes "world_ok ops W" "has_room W"
  shows "safe_result ops (run_command ops c W)"
proof (cases c)
  case (CmdSpawn v ws)
  then show ?thesis using spawn_view_safe[OF assms] by simp
next
  case (CmdFocus v)
  then show ?thesis using focus_view_safe[OF assms] by simp
next
  case (CmdArrange ws engine area)
  then show ?thesis using forget_safe[where m = "arrange_workspace ops ws engine area"] arrange_workspace_safe[OF assms] by simp
qed (use assms(1) in \<open>simp_all add: forget_safe remove_view_safe move_view_safe set_view_placement_safe set_appearance_safe
    update_floating_geometry_safe set_view_layout_safe set_view_constraints_safe reset_layout_states_safe
    set_view_effects_safe set_view_backdrop_effect_safe set_view_content_safe set_presentation_hint_safe
    minimize_view_safe restore_minimized_view_safe\<close>)

lemma run_command_typed: "typed_command c \<Longrightarrow> keeps_typed ops (run_command ops c)"
  by (cases c) (simp_all add: forget_op_def typed)

lemma world_ok_new: "world_ok ops (with_appearance ops appearance)"
proof -
  have "view_row_of ops (with_appearance ops appearance) = Map.empty"
    "owner_rel (view_row_of ops (with_appearance ops appearance)) = {}"
    by (auto simp: view_row_of_def with_appearance_def owner_rel_def)
  then show ?thesis
    by (simp add: world_ok_def desk_of_def desk_inv_def index_ok_def attachments_ok_def focus_ok_def stacking_ok_def
        cache_ok_def acyclic_def with_appearance_def new_empty dom_def)
qed

lemma world_reachable_ok: "world_reachable ops W \<Longrightarrow> world_ok ops W"
proof (induction rule: world_reachable.induct)
  case (start appearance)
  show ?case by (rule world_ok_new)
next
  case (step W c res W')
  then show ?case using run_command_safe[OF step.IH step.hyps(2), of c] by (simp add: safe_result_def)
qed

lemma world_reachable_typed: "world_reachable ops W \<Longrightarrow> world_typed ops W"
proof (induction rule: world_reachable.induct)
  case (start appearance)
  show ?case by (simp add: world_typed_def with_appearance_def new_empty)
next
  case (step W c res W')
  then show ?case using keeps_typedD[OF run_command_typed step.IH, of c] by simp
qed

lemma typed_rows: "world_typed ops W \<Longrightarrow> view_row_of ops W v = Some r \<Longrightarrow> typed_row r"
  by (auto simp: view_row_of_def world_typed_def bind_eq_Some_conv)

lemma typed_ranged:
  assumes "world_typed ops W" "int (content_load (view_row_of ops W)) \<le> U32_MAX"
  shows "ranged_table (view_row_of ops W)"
  using typed_rows[OF assms(1)] assms(2)
  by (auto simp: ranged_table_def ranged_row_def typed_row_def option_rect_ok_def typed_backdrop_def typed_contents_def)

end

section \<open>A small desktop\<close>

text \<open>Two tiled views on workspace 1, a dialog attached to the first, and focus on the second.\<close>

fun run_commands ::
  "('w, 'e, 'm) ecs_ops \<Rightarrow> 'm world_command list \<Rightarrow> ('w, 'e) compositor_world \<Rightarrow> ('w, 'e) compositor_world" where
  "run_commands ops [] W = W"
| "run_commands ops (c # cs) W = run_commands ops cs (snd (run_command ops c W))"

fun roomy :: "('w, 'e, 'm) ecs_ops \<Rightarrow> 'm world_command list \<Rightarrow> ('w, 'e) compositor_world \<Rightarrow> bool" where
  "roomy ops [] W \<longleftrightarrow> True"
| "roomy ops (c # cs) W \<longleftrightarrow> has_room W \<and> typed_command c \<and> roomy ops cs (snd (run_command ops c W))"

lemma run_commands_reachable:
  "world_reachable ops W \<Longrightarrow> roomy ops cs W \<Longrightarrow> world_reachable ops (run_commands ops cs W)"
proof (induction cs arbitrary: W)
  case (Cons c cs)
  then show ?case using world_reachable.step[of ops W c "fst (run_command ops c W)" "snd (run_command ops c W)"] by simp
qed simp

definition desk_script :: "unit world_command list" where
  "desk_script = [CmdSpawn 1 1, CmdSpawn 2 1, CmdPlace 2 (Attached 1 (Size 40 30)), CmdSpawn 3 1, CmdFocus 3]"

definition small_desk :: "(unit view_row option list, nat) compositor_world" where
  "small_desk = run_commands slot_ops desk_script (with_appearance slot_ops default_appearance)"

lemma small_desk_reachable: "world_reachable slot_ops small_desk"
  unfolding small_desk_def
proof (rule run_commands_reachable[OF world_reachable.start])
  show "roomy slot_ops desk_script (with_appearance slot_ops default_appearance)" by code_simp
qed

lemmas small_desk_ok = slots.world_reachable_ok[OF small_desk_reachable]

lemma small_desk_room: "has_room small_desk" by code_simp

lemma small_desk_rows:
  "view_row_of slot_ops small_desk 1 = Some (spawn_row 1 1 1)"
  "view_row_of slot_ops small_desk 2 = Some ((spawn_row 2 1 2)\<lparr>row_placement := Attached 1 (Size 40 30)\<rparr>)"
  "view_row_of slot_ops small_desk 3 = Some ((spawn_row 3 1 4)\<lparr>row_focused := True\<rparr>)"
  by code_simp+

text \<open>The same desktop with its layout arranged as a grid.\<close>

definition arranged_desk :: "(unit view_row option list, nat) compositor_world" where
  "arranged_desk = run_commands slot_ops [CmdArrange 1 (engine_new Spatial2D) (Rect 0 0 300 200)] small_desk"

lemma arranged_desk_reachable: "world_reachable slot_ops arranged_desk"
  unfolding arranged_desk_def
proof (rule run_commands_reachable[OF small_desk_reachable])
  show "roomy slot_ops [CmdArrange 1 (engine_new Spatial2D) (Rect 0 0 300 200)] small_desk"
    using small_desk_room by (simp add: rect_ok_def machine_defs)
qed

lemmas arranged_desk_ok = slots.world_reachable_ok[OF arranged_desk_reachable]

lemmas arranged_desk_typed = slots.world_reachable_typed[OF arranged_desk_reachable]

lemma arranged_desk_room: "has_room arranged_desk" by code_simp

lemma arranged_desk_cached: "\<exists>snap. cw_layout_snapshots arranged_desk 1 = Some snap \<and> snapshot_viewport snap = Rect 0 0 300 200"
proof -
  have "map_option snapshot_viewport (cw_layout_snapshots arranged_desk 1) = Some (Rect 0 0 300 200)" by code_simp
  then show ?thesis by (simp add: map_option_eq_Some)
qed

text \<open>Its rows are plain: no surfaces and the default effects.\<close>

definition plain_world :: "('w, 'e, 'm) ecs_ops \<Rightarrow> ('w, 'e) compositor_world \<Rightarrow> bool" where
  "plain_world ops W \<longleftrightarrow>
     list_all (\<lambda>(v, e). case ecs_get ops (cw_world W) e of None \<Rightarrow> True
       | Some r \<Rightarrow> row_content r = [] \<and> effect_backdrop_blur (row_effects r) = None) (cw_view_entities W)"

lemma plain_world_rows:
  assumes "plain_world ops W" "view_row_of ops W v = Some r"
  shows "row_content r = [] \<and> effect_backdrop_blur (row_effects r) = None"
  using assms by (fastforce simp: plain_world_def view_row_of_def bind_eq_Some_conv list_all_iff dest!: map_of_SomeD)

lemma plain_world_load:
  assumes "plain_world ops W"
  shows "int (content_load (view_row_of ops W)) \<le> U32_MAX"
proof -
  have "content_load (view_row_of ops W) = 0"
    unfolding content_load_def using plain_world_rows[OF assms] by (intro sum.neutral) auto
  then show ?thesis by simp
qed

lemma desks_plain: "plain_world slot_ops small_desk" "plain_world slot_ops arranged_desk"
  by code_simp+

section \<open>What the operations promise\<close>

text \<open>Why an attachment is refused.\<close>

definition place_refusal ::
  "(view_id \<rightharpoonup> 'm view_row) \<Rightarrow> view_id \<Rightarrow> workspace_id \<Rightarrow> view_id \<Rightarrow> view_lifecycle_error option" where
  "place_refusal T v ws owner =
     (if owner = v then Some (SelfAttachment v)
      else case T owner of
             None \<Rightarrow> Some (MissingViewId owner)
           | Some q \<Rightarrow> if row_workspace q \<noteq> ws then Some (CrossWorkspaceAttachment v owner)
                       else if owner \<in> family_of T v then Some (AttachmentCycle v owner)
                       else None)"

lemma place_refusal_None: "place_refusal T v ws owner = None \<longleftrightarrow> may_own T v ws owner"
  by (auto simp: place_refusal_def may_own_def split: option.splits)

text \<open>The inventory entry of a row with a given root.\<close>

definition overview_of :: "view_id \<Rightarrow> 'm view_row \<Rightarrow> overview_view" where
  "overview_of root r = \<lparr>ov_id = row_view r, ov_root = root,
     ov_geometry = or_else (or_else (row_geometry r) (row_last_geometry r)) (snd (overview_row r)),
     ov_focused = row_focused r, ov_kind = fst (overview_row r), ov_stacking = row_stacking r\<rparr>"

lemma map_filter_total: "(\<And>x. x \<in> set xs \<Longrightarrow> f x = Some (g x)) \<Longrightarrow> List.map_filter f xs = map g xs"
  by (induction xs) (auto simp: List.map_filter_def)

lemma restack_order:
  assumes "stacking_ok T n" "distinct (xs @ ys)"
    and "restack n (xs @ ys) T a = Some p" "restack n (xs @ ys) T b = Some q" "a \<in> set ys" "b \<notin> set ys"
  shows "row_stacking q < row_stacking p"
proof -
  obtain i where i: "i < length ys" "a = ys ! i" using assms(5) by (metis in_set_conv_nth)
  then have "restack n (xs @ ys) T ((xs @ ys) ! (length xs + i)) =
      map_option (\<lambda>r. r\<lparr>row_stacking := n + int (length xs + i)\<rparr>) (T a)"
    using restack_nth[OF assms(2), of "length xs + i"] by (simp add: nth_append)
  then have p: "row_stacking p = n + int (length xs + i)" using assms(3) i by (auto simp: nth_append)
  show ?thesis
    using assms(2,4)
  proof (cases rule: restack_cases)
    case kept
    then have "row_stacking q < n" using assms(1) unfolding stacking_ok_def by blast
    then show ?thesis using p by simp
  next
    case (raised j q')
    then have "j < length xs" using assms(6) by (metis add_diff_inverse_nat length_append nat_add_left_cancel_less nth_append nth_mem)
    then show ?thesis using p raised by simp
  qed
qed

context entity_store
begin

lemma check_owner_exact:
  assumes ok: "world_ok ops W" and own: "placement_owner p = Some owner"
  shows "check_owner ops v ws p W =
    (case place_refusal (view_row_of ops W) v ws owner of None \<Rightarrow> (Done (), W) | Some err \<Rightarrow> (Failed err, W))"
proof (rule view_cases[OF world_okD(1)[OF ok], of owner])
  assume "map_of (cw_view_entities W) owner = None" "view_row_of ops W owner = None"
  then show ?thesis using own by (simp add: check_owner_def place_refusal_def)
next
  fix e q
  assume h: "map_of (cw_view_entities W) owner = Some e" "ecs_get ops (cw_world W) e = Some q" "view_row_of ops W owner = Some q"
  show ?thesis
    using own h attachment_would_cycle_spec[OF ok h(3), of v] by (simp add: check_owner_def place_refusal_def)
qed

lemma set_view_placement_exact:
  assumes ok: "world_ok ops W"
  shows "case view_row_of ops W v of
      None \<Rightarrow> set_view_placement ops v p W = (Failed (MissingViewId v), W)
    | Some r \<Rightarrow>
        if row_placement r = p then set_view_placement ops v p W = (Done False, W)
        else case Option.bind (placement_owner p) (place_refusal (view_row_of ops W) v (row_workspace r)) of
               Some err \<Rightarrow> set_view_placement ops v p W = (Failed err, W)
             | None \<Rightarrow> \<exists>W'. set_view_placement ops v p W = (Done True, W') \<and> world_ok ops W' \<and>
                 view_row_of ops W' = (view_row_of ops W)(v \<mapsto> r\<lparr>row_placement := p\<rparr>)"
proof (rule view_cases[OF world_okD(1)[OF ok], of v])
  assume "map_of (cw_view_entities W) v = None" "view_row_of ops W v = None"
  then show ?thesis by (simp add: set_view_placement_def)
next
  fix e r
  assume h: "map_of (cw_view_entities W) v = Some e" "ecs_get ops (cw_world W) e = Some r" "view_row_of ops W v = Some r"
  show ?thesis
  proof (cases "row_placement r = p")
    case True
    then show ?thesis using h by (simp add: set_view_placement_def)
  next
    case False
    show ?thesis
    proof (cases "Option.bind (placement_owner p) (place_refusal (view_row_of ops W) v (row_workspace r))")
      case None
      then have "\<forall>owner. placement_owner p = Some owner \<longrightarrow> may_own (view_row_of ops W) v (row_workspace r) owner"
        by (auto simp: place_refusal_None)
      from set_view_placement_Done[OF ok h(3) False this] show ?thesis using None False h(3) by simp
    next
      case (Some err)
      then obtain owner where o: "placement_owner p = Some owner"
        "place_refusal (view_row_of ops W) v (row_workspace r) owner = Some err" by (auto simp: bind_eq_Some_conv)
      show ?thesis
        using check_owner_exact[OF ok o(1), of v "row_workspace r"] o(2) Some False h
        by (simp add: set_view_placement_def)
    qed
  qed
qed

lemma focus_view_raised:
  assumes ok: "world_ok ops W" and room: "has_room W" and r: "view_row_of ops W v = Some r" "\<not> row_focused r"
  shows "\<exists>W' root. focus_view ops v W = (Done (), W') \<and> world_ok ops W' \<and>
    root \<in> dom (view_row_of ops W) - Range (owner_rel (view_row_of ops W)) \<and> v \<in> family_of (view_row_of ops W) root \<and>
    (\<forall>u q. view_row_of ops W' u = Some q \<and> row_workspace q = row_workspace r \<longrightarrow> row_focused q = (u = v)) \<and>
    (\<forall>F a b p q. F = family_of (view_row_of ops W) v \<or> F = family_of (view_row_of ops W) root \<longrightarrow>
      a \<in> F \<and> b \<notin> F \<and> view_row_of ops W' a = Some p \<and> view_row_of ops W' b = Some q \<longrightarrow>
      row_stacking q < row_stacking p)"
proof -
  let ?T = "view_row_of ops W"
  define F where "F = table_focus ?T v (row_workspace r)"
  obtain vs root others subtree W' where f: "focus_view ops v W = (Done (), W')" "world_ok ops W'"
    "root \<in> dom ?T - Range (owner_rel ?T)" "vs = others @ subtree" "distinct vs" "v \<in> family_of ?T root"
    "set vs = family_of ?T root" "set subtree = family_of ?T v" "view_row_of ops W' = restack (cw_next_stacking W) vs F"
    using focus_view_Done[OF ok r room] unfolding F_def by blast
  have "\<exists>q. ?T u = Some q \<and> row_stacking p = row_stacking q" if "F u = Some p" for u p
    using that by (auto simp: F_def table_focus_def split: if_splits)
  then have S: "stacking_ok F (cw_next_stacking W)" by (rule stacking_ok_from[OF world_okD(4)[OF ok]])
  have foc: "row_focused q = (u = v)"
    if h: "view_row_of ops W' u = Some q" "row_workspace q = row_workspace r" for u q
  proof -
    from f(5) h(1)[unfolded f(9)] obtain q0 where q0: "F u = Some q0" "row_focused q = row_focused q0" "row_workspace q = row_workspace q0"
      by (cases rule: restack_cases) auto
    show ?thesis
    proof (cases "u = v")
      case True
      then show ?thesis using q0(1,2) r(1) by (simp add: F_def table_focus_def) auto
    next
      case False
      then obtain z where "q0 = unfocus (row_workspace r) z" using q0(1) by (auto simp: F_def table_focus_def)
      then show ?thesis using q0(2,3) h(2) False by simp
    qed
  qed
  have low: "row_stacking q < row_stacking p"
    if h: "a \<in> family_of ?T v" "b \<notin> family_of ?T v" "view_row_of ops W' a = Some p" "view_row_of ops W' b = Some q" for a b p q
    using restack_order[OF S, of others subtree a p b q] f(4,5,8,9) h by simp
  have high: "row_stacking q < row_stacking p"
    if h: "a \<in> family_of ?T root" "b \<notin> family_of ?T root" "view_row_of ops W' a = Some p" "view_row_of ops W' b = Some q" for a b p q
    using restack_order[OF S, of "[]" vs a p b q] f(5,7,9) h by simp
  have ord: "row_stacking q < row_stacking p"
    if "G = family_of ?T v \<or> G = family_of ?T root"
      "a \<in> G \<and> b \<notin> G \<and> view_row_of ops W' a = Some p \<and> view_row_of ops W' b = Some q" for G a b p q
    using that low[of a b p q] high[of a b p q] by auto
  show ?thesis
  proof (intro exI[of _ W'] exI[of _ root] conjI)
    show "\<forall>u q. view_row_of ops W' u = Some q \<and> row_workspace q = row_workspace r \<longrightarrow> row_focused q = (u = v)"
      using foc by blast
    show "\<forall>F a b p q. F = family_of ?T v \<or> F = family_of ?T root \<longrightarrow>
      a \<in> F \<and> b \<notin> F \<and> view_row_of ops W' a = Some p \<and> view_row_of ops W' b = Some q \<longrightarrow> row_stacking q < row_stacking p"
      using ord by (intro allI impI)
  qed (fact f)+
qed

lemma move_view_exact:
  assumes ok: "world_ok ops W"
  shows "case view_row_of ops W v of
      None \<Rightarrow> move_view ops v ws W = (Failed (MissingViewId v), W)
    | Some r \<Rightarrow>
        if placement_owner (row_placement r) \<noteq> None then move_view ops v ws W = (Failed (AttachedViewCannotMove v), W)
        else if row_workspace r = ws then move_view ops v ws W = (Done (), W)
        else \<exists>W'. move_view ops v ws W = (Done (), W') \<and> world_ok ops W' \<and>
          view_row_of ops W' = table_move (view_row_of ops W) v ws"
  using move_view_refused[OF ok] move_view_Done[OF ok, of v _ ws] by (auto split: option.split)

lemma remove_view_exact:
  assumes ok: "world_ok ops W"
  shows "if \<exists>child. (v, child) \<in> owner_rel (view_row_of ops W)
    then \<exists>child. remove_view ops v W = (Failed (AttachedChild v child), W) \<and> (v, child) \<in> owner_rel (view_row_of ops W)
    else case view_row_of ops W v of
        None \<Rightarrow> remove_view ops v W = (Failed (MissingViewId v), W)
      | Some r \<Rightarrow> \<exists>W'. remove_view ops v W = (Done (), W') \<and> world_ok ops W' \<and>
          view_row_of ops W' = (view_row_of ops W)(v := None)"
proof (cases "owner_rel (view_row_of ops W) `` {v} = {}")
  case True
  then show ?thesis
    using remove_view_refused(2)[OF ok True] remove_view_Done[OF ok _ True] by (auto split: option.split)
next
  case False
  then show ?thesis using remove_view_refused(1)[OF ok False] by auto
qed

text \<open>Minimizing hides a whole family; restoring brings it back to where it was.\<close>

lemma minimize_restore:
  assumes ok: "world_ok ops W" and r: "view_row_of ops W v = Some r" "placement_owner (row_placement r) = None"
    and m: "row_minimized_from r = None" "row_workspace r \<noteq> hidden"
  shows "\<exists>W1 W2. minimize_view ops v hidden W = (Done True, W1) \<and> minimized_from ops W1 v = Some (row_workspace r) \<and>
    (\<forall>u \<in> family_of (view_row_of ops W) v. view_workspace ops W1 u = Some hidden) \<and>
    restore_minimized_view ops v W1 = (Done (Some (row_workspace r)), W2) \<and> world_ok ops W2 \<and>
    (\<forall>u. u \<in> family_of (view_row_of ops W) v \<longrightarrow> view_row_of ops W2 u = map_option (moved (row_workspace r)) (view_row_of ops W u)) \<and>
    (\<forall>u q. u \<notin> family_of (view_row_of ops W) v \<and> view_row_of ops W u = Some q \<and> row_workspace q \<noteq> hidden \<longrightarrow>
      view_row_of ops W2 u = Some q)"
proof -
  let ?T = "view_row_of ops W" and ?ws = "row_workspace r" and ?F = "family_of (view_row_of ops W) v"
  define M where "M = (table_move ?T v hidden)(v \<mapsto> (moved hidden r)\<lparr>row_minimized_from := Some ?ws\<rparr>)"
  obtain W1 where W1: "minimize_view ops v hidden W = (Done True, W1)" "world_ok ops W1" "view_row_of ops W1 = M"
    using minimize_view_Done[OF ok r m] unfolding M_def by blast
  have row1: "view_row_of ops W1 v = Some ((moved hidden r)\<lparr>row_minimized_from := Some ?ws\<rparr>)" by (simp add: W1(3) M_def)
  have rel: "owner_rel M = owner_rel ?T"
    by (rule owner_rel_map) (use r in \<open>auto simp: M_def table_move_def\<close>)
  have fam: "family_of M = family_of ?T" using rel by (simp add: family_of_def fun_eq_iff)
  obtain W2 where W2: "move_view ops v ?ws W1 = (Done (), W2)" "world_ok ops W2" "view_row_of ops W2 = table_move M v ?ws"
    using move_view_Done[OF W1(2) row1, of ?ws] r(2) m(2) W1(3) by auto
  have "restore_minimized_view ops v W1 = (Done (Some ?ws), W2)"
  proof (rule view_cases[OF world_okD(1)[OF W1(2)], of v])
    fix e q
    assume h: "map_of (cw_view_entities W1) v = Some e" "ecs_get ops (cw_world W1) e = Some q" "view_row_of ops W1 v = Some q"
    then have "row_minimized_from q = Some ?ws" using row1 by auto
    then show ?thesis using h W2(1) by (simp add: restore_minimized_view_def)
  qed (use row1 in simp)
  moreover have "view_workspace ops W1 u = Some hidden" if u: "u \<in> ?F" for u
    using u family_workspace[OF world_okD(2)[OF ok] r(1) u]
    by (auto simp: view_workspace_def W1(3) M_def table_move_def)
  moreover have "view_row_of ops W2 u = map_option (moved ?ws) (?T u)" if u: "u \<in> ?F" for u
    using u r(1) unfolding W2(3) table_move_def fam
    by (cases "?T u") (auto simp: M_def table_move_def moved_def)
  moreover have "view_row_of ops W2 u = Some q" if u: "u \<notin> ?F" "?T u = Some q" "row_workspace q \<noteq> hidden" for u q
  proof -
    have uv: "u \<noteq> v" using u(1) family_root[of v ?T] by metis
    have "M u = Some q" using u uv by (auto simp: M_def table_move_def unfocus_def)
    moreover have "\<not> row_focused q" if foc: "family_focused M v" "row_workspace q = ?ws"
    proof
      assume "row_focused q"
      obtain w p where w: "w \<in> ?F" "M w = Some p" "row_focused p" using foc(1) unfolding family_focused_def fam by blast
      obtain p0 where p0: "?T w = Some p0" "row_workspace p0 = ?ws"
        using family_workspace[OF world_okD(2)[OF ok] r(1) w(1)] by blast
      have "row_focused p0" using w p0 r(1) by (auto simp: M_def table_move_def split: if_splits)
      then have "w = u" using world_okD(3)[OF ok] p0 u(2) foc(2) \<open>row_focused q\<close> unfolding focus_ok_def by metis
      then show False using w(1) u(1) by blast
    qed
    ultimately show ?thesis using u(1) unfolding W2(3) table_move_def fam by (auto simp: unfocus_def)
  qed
  moreover have "minimized_from ops W1 v = Some ?ws" using row1 by (simp add: minimized_from_def)
  ultimately show ?thesis using W1(1) W2(2) by blast
qed

lemma topmost_spec:
  assumes ok: "world_ok ops W"
  shows "case topmost (filter (\<lambda>(e, q). P q) (query_rows ops W)) of
      None \<Rightarrow> \<forall>u q. view_row_of ops W u = Some q \<longrightarrow> \<not> P q
    | Some u \<Rightarrow> \<exists>q. view_row_of ops W u = Some q \<and> P q \<and>
        (\<forall>w p. view_row_of ops W w = Some p \<and> P p \<longrightarrow> row_stacking p \<le> row_stacking q)"
proof -
  let ?rows = "filter (\<lambda>(e, q). P q) (query_rows ops W)"
  have mem: "\<exists>e. (e, q) \<in> set ?rows" if "view_row_of ops W u = Some q" "P q" for u q
    using that query_rows_set[OF world_okD(1)[OF ok]] view_cases[OF world_okD(1)[OF ok], of u]
    by (metis (mono_tags, lifting) case_prod_conv mem_Collect_eq option.distinct(1) option.inject set_filter)
  show ?thesis
  proof (cases "max_by_key (\<lambda>(e, r). (row_stacking r, row_view r)) ?rows")
    case None
    then have "?rows = []" by simp
    then show ?thesis using mem None by (fastforce simp: topmost_def)
  next
    case (Some er)
    obtain e q where er: "er = (e, q)" by (cases er)
    from max_by_key_Some[OF Some] have q: "(e, q) \<in> set ?rows"
      and top: "\<forall>x \<in> set ?rows. (case x of (e, r) \<Rightarrow> (row_stacking r, row_view r)) \<le> (row_stacking q, row_view q)"
      unfolding er by auto
    have "view_row_of ops W (row_view q) = Some q" "P q"
      using q query_rows_set[OF world_okD(1)[OF ok]] by auto
    moreover have "row_stacking p \<le> row_stacking q" if h: "view_row_of ops W w = Some p" "P p" for w p
    proof -
      obtain e' where "(e', p) \<in> set ?rows" using mem[OF h] by blast
      then show ?thesis using top by fastforce
    qed
    ultimately show ?thesis using Some er by (simp add: topmost_def) blast
  qed
qed

lemma focus_replacement_spec:
  assumes ok: "world_ok ops W" and r: "view_row_of ops W v = Some r" "row_focused r"
  shows "\<exists>res. focus_replacement_after_removal ops v W = (Done res, W) \<and>
    (case res of
       None \<Rightarrow> \<forall>u q. view_row_of ops W u = Some q \<and> row_workspace q = row_workspace r \<longrightarrow> u = v
     | Some u \<Rightarrow> u \<noteq> v \<and> (\<exists>q. view_row_of ops W u = Some q \<and> row_workspace q = row_workspace r \<and>
         (placement_owner (row_placement r) = Some u \<or>
          (\<forall>w p. view_row_of ops W w = Some p \<and> w \<noteq> v \<and> row_workspace p = row_workspace r \<longrightarrow> row_stacking p \<le> row_stacking q))))"
proof -
  let ?T = "view_row_of ops W"
  obtain e where e: "map_of (cw_view_entities W) v = Some e" "ecs_get ops (cw_world W) e = Some r"
    using view_cases[OF world_okD(1)[OF ok], of v] r(1) by (metis option.distinct(1) option.inject)
  show ?thesis
  proof (cases "placement_owner (row_placement r)")
    case (Some owner)
    then have rel: "(owner, v) \<in> owner_rel ?T" using r(1) by (simp add: owner_rel_def)
    then have "owner \<noteq> v" using world_okD(2)[OF ok] by (auto simp: attachments_ok_def acyclic_def)
    moreover obtain q where "?T owner = Some q" "row_workspace q = row_workspace r"
      using world_okD(2)[OF ok] r(1) Some unfolding attachments_ok_def by metis
    ultimately show ?thesis using e r(2) Some by (simp add: focus_replacement_after_removal_def)
  next
    case None
    have run: "focus_replacement_after_removal ops v W = (Done (topmost (filter (\<lambda>(e, q). row_view q \<noteq> v \<and>
        row_workspace q = row_workspace r) (query_rows ops W))), W)"
      using e r(2) None by (simp add: focus_replacement_after_removal_def)
    have id: "row_view q = u" if "?T u = Some q" for u q by (rule world_okD(7)[OF ok that])
    note top = topmost_spec[OF ok, of "\<lambda>q. row_view q \<noteq> v \<and> row_workspace q = row_workspace r"]
    show ?thesis
    proof (cases "topmost (filter (\<lambda>(e, q). row_view q \<noteq> v \<and> row_workspace q = row_workspace r) (query_rows ops W))")
      case None
      then show ?thesis using run top id by force
    next
      case (Some u)
      then show ?thesis using run top id by (simp split: option.splits) metis
    qed
  qed
qed

lemma overview_rows:
  fixes ws W
  defines "L \<equiv> sort_key (\<lambda>r. (row_stacking r, row_view r))
    (map snd (filter (\<lambda>(e, r). row_workspace r = ws) (query_rows ops W)))"
  assumes ok: "world_ok ops W"
  shows "r \<in> set L \<longleftrightarrow> view_row_of ops W (row_view r) = Some r \<and> row_workspace r = ws"
    "distinct (map row_view L)" "sorted_wrt (\<lambda>a b. row_stacking a < row_stacking b) L"
proof -
  let ?T = "view_row_of ops W" and ?q = "filter (\<lambda>(e, r). row_workspace r = ws) (query_rows ops W)"
  show mem: "r \<in> set L \<longleftrightarrow> ?T (row_view r) = Some r \<and> row_workspace r = ws" for r
  proof -
    have "r \<in> set L \<longleftrightarrow> (\<exists>e. (e, r) \<in> set (query_rows ops W)) \<and> row_workspace r = ws" by (force simp: L_def)
    then show ?thesis
      using query_rows_set[OF world_okD(1)[OF ok]] view_cases[OF world_okD(1)[OF ok], of "row_view r"]
      by (metis option.distinct(1))
  qed
  have "mset (map row_view L) = mset (map row_view (map snd ?q))" by (simp only: L_def mset_map mset_sort)
  also have "map row_view (map snd ?q) = map (\<lambda>(e, r). row_view r) ?q" by auto
  also have "mset \<dots> = mset (workspace_ids ?T ws)" using extract_ids[OF ok, of ws] by (metis mset_sort)
  finally show d: "distinct (map row_view L)"
    using workspace_ids_props(3)[OF world_okD(6)[OF ok], of ws] by (metis mset_eq_imp_distinct_iff)
  have "sorted (map (\<lambda>r. (row_stacking r, row_view r)) L)" by (simp add: L_def)
  then have s: "sorted_wrt (\<lambda>a b. row_stacking a \<le> row_stacking b) L"
    by (simp add: sorted_wrt_map) (rule sorted_wrt_mono_rel[rotated], assumption, auto)
  show "sorted_wrt (\<lambda>a b. row_stacking a < row_stacking b) L"
    unfolding sorted_wrt_iff_nth_less
  proof (intro allI impI)
    fix i j assume ij: "i < j" "j < length L"
    then have "row_stacking (L ! i) \<le> row_stacking (L ! j)" using s by (simp add: sorted_wrt_iff_nth_less)
    moreover have "row_view (L ! i) \<noteq> row_view (L ! j)" using d ij by (simp add: distinct_conv_nth)
    moreover have "?T (row_view (L ! i)) = Some (L ! i)" "?T (row_view (L ! j)) = Some (L ! j)"
      using mem[of "L ! i"] mem[of "L ! j"] ij by auto
    then have "row_stacking (L ! i) \<noteq> row_stacking (L ! j)"
      using world_okD(4)[OF ok] calculation(2) unfolding stacking_ok_def by metis
    ultimately show "row_stacking (L ! i) < row_stacking (L ! j)" by simp
  qed
qed

lemma overview_views_eq:
  assumes ok: "world_ok ops W"
  shows "overview_views ops W ws = map (\<lambda>r. overview_of (the (tiled_ancestor ops W (row_view r))) r)
    (sort_key (\<lambda>r. (row_stacking r, row_view r)) (map snd (filter (\<lambda>(e, r). row_workspace r = ws) (query_rows ops W))))"
  unfolding overview_views_def
proof (rule map_filter_total)
  fix r
  assume "r \<in> set (sort_key (\<lambda>r. (row_stacking r, row_view r))
    (map snd (filter (\<lambda>(e, r). row_workspace r = ws) (query_rows ops W))))"
  then have "view_row_of ops W (row_view r) = Some r" unfolding overview_rows(1)[OF ok] by blast
  then obtain root where "tiled_ancestor ops W (row_view r) = Some root" using tiled_ancestor_spec[OF ok] by metis
  then show "map_option (\<lambda>root. \<lparr>ov_id = row_view r, ov_root = root,
      ov_geometry = or_else (or_else (row_geometry r) (row_last_geometry r)) (snd (overview_row r)),
      ov_focused = row_focused r, ov_kind = fst (overview_row r), ov_stacking = row_stacking r\<rparr>)
      (tiled_ancestor ops W (row_view r)) = Some (overview_of (the (tiled_ancestor ops W (row_view r))) r)"
    by (simp add: overview_of_def)
qed

lemma overview_views_exact:
  assumes ok: "world_ok ops W"
  shows "sorted_wrt (\<lambda>a b. ov_stacking a < ov_stacking b) (overview_views ops W ws) \<and>
    distinct (map ov_id (overview_views ops W ws)) \<and>
    ov_id ` set (overview_views ops W ws) = {v. \<exists>r. view_row_of ops W v = Some r \<and> row_workspace r = ws} \<and>
    set (overview_views ops W ws) = {overview_of root r |root r. view_row_of ops W (row_view r) = Some r \<and>
      row_workspace r = ws \<and> tiled_ancestor ops W (row_view r) = Some root}"
proof -
  define L where "L = sort_key (\<lambda>r. (row_stacking r, row_view r))
    (map snd (filter (\<lambda>(e, r). row_workspace r = ws) (query_rows ops W)))"
  note R = overview_rows[where ws = ws, OF ok, folded L_def]
  have eq: "overview_views ops W ws = map (\<lambda>r. overview_of (the (tiled_ancestor ops W (row_view r))) r) L"
    unfolding L_def by (rule overview_views_eq[OF ok])
  have ids: "map ov_id (overview_views ops W ws) = map row_view L" by (simp add: eq overview_of_def)
  have "v \<in> row_view ` set L \<longleftrightarrow> (\<exists>r. view_row_of ops W v = Some r \<and> row_workspace r = ws)" for v
  proof
    assume "v \<in> row_view ` set L"
    then show "\<exists>r. view_row_of ops W v = Some r \<and> row_workspace r = ws" using R(1) by blast
  next
    assume "\<exists>r. view_row_of ops W v = Some r \<and> row_workspace r = ws"
    then obtain r where r: "view_row_of ops W v = Some r" "row_workspace r = ws" by blast
    then have "row_view r = v" by (intro world_okD(7)[OF ok])
    then show "v \<in> row_view ` set L" using R(1)[of r] r by force
  qed
  then have "ov_id ` set (overview_views ops W ws) = {v. \<exists>r. view_row_of ops W v = Some r \<and> row_workspace r = ws}"
    using arg_cong[OF ids, of set] by auto
  moreover have "sorted_wrt (\<lambda>a b. ov_stacking a < ov_stacking b) (overview_views ops W ws)"
    using R(3) by (simp add: eq sorted_wrt_map overview_of_def)
  moreover have "set (overview_views ops W ws) = {overview_of root r |root r. view_row_of ops W (row_view r) = Some r \<and>
      row_workspace r = ws \<and> tiled_ancestor ops W (row_view r) = Some root}"
  proof (intro set_eqI iffI)
    fix x assume "x \<in> set (overview_views ops W ws)"
    then obtain r where r: "r \<in> set L" "x = overview_of (the (tiled_ancestor ops W (row_view r))) r" unfolding eq by auto
    have row: "view_row_of ops W (row_view r) = Some r" "row_workspace r = ws" using r(1) R(1) by blast+
    obtain root where "tiled_ancestor ops W (row_view r) = Some root" using tiled_ancestor_spec[OF ok row(1)] by metis
    then show "x \<in> {overview_of root r |root r. view_row_of ops W (row_view r) = Some r \<and>
      row_workspace r = ws \<and> tiled_ancestor ops W (row_view r) = Some root}" using r(2) row by auto
  next
    fix x assume "x \<in> {overview_of root r |root r. view_row_of ops W (row_view r) = Some r \<and>
      row_workspace r = ws \<and> tiled_ancestor ops W (row_view r) = Some root}"
    then obtain root r where r: "x = overview_of root r" "view_row_of ops W (row_view r) = Some r" "row_workspace r = ws"
      "tiled_ancestor ops W (row_view r) = Some root" by blast
    then have "r \<in> set L" using R(1) by blast
    then show "x \<in> set (overview_views ops W ws)" unfolding eq using r(1,4) by force
  qed
  ultimately show ?thesis using R(2) ids by simp
qed

lemma arrange_workspace_geometry:
  assumes ok: "world_ok ops W" and room: "has_room W"
  shows "\<exists>snap W'. arrange_workspace ops ws engine area W = (Done snap, W') \<and> world_ok ops W' \<and>
    snapshot_viewport snap = area \<and> cw_layout_snapshots W' = (cw_layout_snapshots W)(ws \<mapsto> snap) \<and>
    list_all2 (\<lambda>v p. view_geometry ops W' v = Some (placement_geometry p)) (tiled_views (view_row_of ops W) ws) (placements snap) \<and>
    (\<forall>v r. view_row_of ops W v = Some r \<longrightarrow>
       (if row_workspace r \<noteq> ws then view_row_of ops W' v = Some r
        else case row_placement r of
            Tiled \<Rightarrow> True
          | Floating geo \<Rightarrow> view_geometry ops W' v = Some geo
          | Attached owner sz \<Rightarrow> \<exists>og. view_geometry ops W' owner = Some og \<and>
              view_geometry ops W' v = Some (attached_geometry og (vl_constraints (row_layout r)) sz)))"
proof -
  let ?T = "view_row_of ops W"
  obtain snap g W' where a: "arrange_workspace ops ws engine area W = (Done snap, W')" "world_ok ops W'"
    "snapshot_viewport snap = area" "arranged ?T ws snap g" "view_row_of ops W' = table_arrange ?T ws g"
    "cw_layout_snapshots W' = (cw_layout_snapshots W)(ws \<mapsto> snap)"
    using arrange_workspace_viewport[OF ok room, of ws engine area] by blast
  have geo: "view_geometry ops W' v = g v" if "?T v = Some r" "row_workspace r = ws" for v r
    using that world_okD(7)[OF ok that(1)] by (simp add: view_geometry_def a(5) table_arrange_def)
  have fin: "finite {v. \<exists>r. ?T v = Some r \<and> row_workspace r = ws \<and> row_placement r = Tiled}"
    by (rule finite_subset[OF _ world_okD(6)[OF ok]]) auto
  have "list_all2 (\<lambda>v p. view_geometry ops W' v = Some (placement_geometry p)) (tiled_views ?T ws) (placements snap)"
  proof (rule list.rel_mono_strong)
    show "list_all2 (\<lambda>v p. g v = Some (placement_geometry p)) (tiled_views ?T ws) (placements snap)"
      using a(4) by (simp add: arranged_def)
    fix v p assume "v \<in> set (tiled_views ?T ws)" "g v = Some (placement_geometry p)"
    then show "view_geometry ops W' v = Some (placement_geometry p)" using fin geo by (auto simp: tiled_views_def)
  qed
  moreover have "if row_workspace r \<noteq> ws then view_row_of ops W' v = Some r
        else case row_placement r of
            Tiled \<Rightarrow> True
          | Floating geo \<Rightarrow> view_geometry ops W' v = Some geo
          | Attached owner sz \<Rightarrow> \<exists>og. view_geometry ops W' owner = Some og \<and>
              view_geometry ops W' v = Some (attached_geometry og (vl_constraints (row_layout r)) sz)"
    if r: "?T v = Some r" for v r
  proof (cases "row_workspace r = ws")
    case False
    then show ?thesis using r by (simp add: a(5) table_arrange_def)
  next
    case ws: True
    show ?thesis
    proof (cases "row_placement r")
      case (Floating f)
      then have "g v = Some f" using a(4) r ws unfolding arranged_def by blast
      then show ?thesis using Floating ws geo[OF r ws] by simp
    next
      case (Attached owner sz)
      then obtain og where og: "g owner = Some og" "g v = Some (attached_geometry og (vl_constraints (row_layout r)) sz)"
        using a(4) r ws unfolding arranged_def by blast
      obtain q where "?T owner = Some q" "row_workspace q = ws"
        using world_okD(2)[OF ok] r ws Attached unfolding attachments_ok_def by fastforce
      then show ?thesis using Attached ws geo[OF r ws] geo og by simp
    qed (use ws in simp)
  qed
  ultimately show ?thesis using a(1,2,3,6) by blast
qed

lemma extract_scene_exact:
  assumes ok: "world_ok ops W" and ty: "world_typed ops W" and room: "has_room W"
    and load: "int (content_load (view_row_of ops W)) \<le> U32_MAX"
  shows "case cw_layout_snapshots W ws of
      None \<Rightarrow> extract_scene ops W ws = Done None
    | Some snap \<Rightarrow> \<exists>scene. extract_scene ops W ws = Done (Some scene) \<and> scene_ok scene \<and>
        scene_workspace scene = ws \<and> scene_viewport scene = snapshot_viewport snap \<and>
        map node_view_id (scene_nodes scene) = workspace_ids (view_row_of ops W) ws \<and>
        mset (scene_draw_order scene) = mset (scene_nodes scene) \<and> sorted (map paint_key (scene_draw_order scene)) \<and>
        (\<forall>n \<in> set (scene_nodes scene). node_of_row (cw_appearance W) (snapshot_viewport snap) (scene_contents scene)
            (view_row_of ops W) (node_view_id n) n \<and>
          contents_for scene n = Inr (row_content (the (view_row_of ops W (node_view_id n)))))"
proof (cases "cw_layout_snapshots W ws")
  case (Some snap)
  then have "rect_ok (snapshot_viewport snap)" using ty by (simp add: world_typed_def)
  from extract_scene_Done[OF ok room typed_ranged[OF ty load] Some this] show ?thesis using Some by simp
qed (simp add: extract_scene_def)

end

section \<open>Properties\<close>

text \<open>C1. However the commands of a session are ordered, and whichever of them fail, the world stays
  well formed: the view index and the entity store agree, attachments form a forest inside one
  workspace, a workspace has at most one focused view, stacking orders are distinct and below the
  counter, and every view of a workspace with a cached layout has a geometry. While the stacking counter
  and the number of views leave room, no command panics or runs forever.\<close>

theorem world_reachable_sound:
  assumes "entity_store ops" "world_reachable ops W"
  shows "world_ok ops W \<and> (has_room W \<longrightarrow> fst (run_command ops c W) \<noteq> Panic \<and> fst (run_command ops c W) \<noteq> Hangs)"
  using entity_store.world_reachable_ok[OF assms] entity_store.run_command_safe[OF assms(1), of W c]
  by (auto simp: safe_result_def)

theorem world_reachable_sound_witness:
  "world_ok slot_ops small_desk \<and> fst (run_command slot_ops (CmdFocus 2) small_desk) \<noteq> Panic"
  using world_reachable_sound[OF slots.entity_store_axioms small_desk_reachable, of "CmdFocus 2"] small_desk_room by blast



text \<open>C11. Focusing a view that is not focused leaves it as the one focused view of its workspace and
  restacks: the view and all it owns, directly or not, end up above every other view, and the whole
  family of its root above every view outside that family.\<close>

theorem focus_view_raises_family:
  assumes "entity_store ops" "world_ok ops W" "has_room W" "view_row_of ops W v = Some r" "\<not> row_focused r"
  shows "\<exists>W' root. focus_view ops v W = (Done (), W') \<and> world_ok ops W' \<and>
    root \<in> dom (view_row_of ops W) - Range (owner_rel (view_row_of ops W)) \<and> v \<in> family_of (view_row_of ops W) root \<and>
    (\<forall>u q. view_row_of ops W' u = Some q \<and> row_workspace q = row_workspace r \<longrightarrow> row_focused q = (u = v)) \<and>
    (\<forall>F a b p q. F = family_of (view_row_of ops W) v \<or> F = family_of (view_row_of ops W) root \<longrightarrow>
      a \<in> F \<and> b \<notin> F \<and> view_row_of ops W' a = Some p \<and> view_row_of ops W' b = Some q \<longrightarrow>
      row_stacking q < row_stacking p)"
  by (rule entity_store.focus_view_raised[OF assms])

theorem focus_view_raises_family_witness:
  "\<exists>W'. focus_view slot_ops 2 small_desk = (Done (), W') \<and> world_ok slot_ops W'"
  using focus_view_raises_family[OF slots.entity_store_axioms small_desk_ok small_desk_room small_desk_rows(2)]
  by (simp add: spawn_row_def) blast

text \<open>C14. Moving a view to another workspace moves everything attached to it in one step, drops the
  geometries of what moved, and takes the focus marks of the target workspace away when the family
  brings its own; a missing or an attached view is refused and nothing changes.\<close>

theorem move_view_outcome:
  assumes "entity_store ops" "world_ok ops W"
  shows "case view_row_of ops W v of
      None \<Rightarrow> move_view ops v ws W = (Failed (MissingViewId v), W)
    | Some r \<Rightarrow>
        if placement_owner (row_placement r) \<noteq> None then move_view ops v ws W = (Failed (AttachedViewCannotMove v), W)
        else if row_workspace r = ws then move_view ops v ws W = (Done (), W)
        else \<exists>W'. move_view ops v ws W = (Done (), W') \<and> world_ok ops W' \<and>
          view_row_of ops W' = table_move (view_row_of ops W) v ws"
  by (rule entity_store.move_view_exact[OF assms])

theorem move_view_outcome_witness:
  "\<exists>W'. move_view slot_ops 1 7 small_desk = (Done (), W') \<and> world_ok slot_ops W' \<and>
    view_row_of slot_ops W' = table_move (view_row_of slot_ops small_desk) 1 7"
  using move_view_outcome[OF slots.entity_store_axioms small_desk_ok, of 1 7]
  by (simp add: small_desk_rows spawn_row_def)

text \<open>C15. A placement is accepted exactly when its owner, if it names one, is another view of the same
  workspace that is not itself owned by the view; a refused one reports which of these failed, in the
  order the code tests them, and changes nothing; an accepted one changes the placement only.\<close>

theorem set_view_placement_outcome:
  assumes "entity_store ops" "world_ok ops W"
  shows "case view_row_of ops W v of
      None \<Rightarrow> set_view_placement ops v p W = (Failed (MissingViewId v), W)
    | Some r \<Rightarrow>
        if row_placement r = p then set_view_placement ops v p W = (Done False, W)
        else case Option.bind (placement_owner p) (place_refusal (view_row_of ops W) v (row_workspace r)) of
               Some err \<Rightarrow> set_view_placement ops v p W = (Failed err, W)
             | None \<Rightarrow> \<exists>W'. set_view_placement ops v p W = (Done True, W') \<and> world_ok ops W' \<and>
                 view_row_of ops W' = (view_row_of ops W)(v \<mapsto> r\<lparr>row_placement := p\<rparr>)"
  by (rule entity_store.set_view_placement_exact[OF assms])

theorem set_view_placement_outcome_witness:
  "set_view_placement slot_ops 3 (Attached 9 (Size 4 3)) small_desk = (Failed (MissingViewId 9), small_desk)"
proof -
  have none: "view_row_of slot_ops small_desk 9 = None" by code_simp
  show ?thesis
    using set_view_placement_outcome[OF slots.entity_store_axioms small_desk_ok, of 3 "Attached 9 (Size 4 3)"]
    by (simp add: small_desk_rows spawn_row_def place_refusal_def none)
qed

text \<open>A view that owns others is never removed; any other view is, and no other view changes.\<close>

lemma remove_view_outcome:
  assumes "entity_store ops" "world_ok ops W"
  shows "if \<exists>child. (v, child) \<in> owner_rel (view_row_of ops W)
    then \<exists>child. remove_view ops v W = (Failed (AttachedChild v child), W) \<and> (v, child) \<in> owner_rel (view_row_of ops W)
    else case view_row_of ops W v of
        None \<Rightarrow> remove_view ops v W = (Failed (MissingViewId v), W)
      | Some r \<Rightarrow> \<exists>W'. remove_view ops v W = (Done (), W') \<and> world_ok ops W' \<and>
          view_row_of ops W' = (view_row_of ops W)(v := None)"
  by (rule entity_store.remove_view_exact[OF assms])

text \<open>C17. Minimizing a view hides it and all it owns in the hidden workspace, and restoring it brings the
  whole family back to the workspace it left, with no member's focus, stacking, placement or content
  changed, and every view outside the family and the hidden workspace as it was.\<close>

theorem minimize_restore_roundtrip:
  assumes "entity_store ops" "world_ok ops W" "view_row_of ops W v = Some r" "placement_owner (row_placement r) = None"
    and "row_minimized_from r = None" "row_workspace r \<noteq> hidden"
  shows "\<exists>W1 W2. minimize_view ops v hidden W = (Done True, W1) \<and> minimized_from ops W1 v = Some (row_workspace r) \<and>
    (\<forall>u \<in> family_of (view_row_of ops W) v. view_workspace ops W1 u = Some hidden) \<and>
    restore_minimized_view ops v W1 = (Done (Some (row_workspace r)), W2) \<and> world_ok ops W2 \<and>
    (\<forall>u. u \<in> family_of (view_row_of ops W) v \<longrightarrow> view_row_of ops W2 u = map_option (moved (row_workspace r)) (view_row_of ops W u)) \<and>
    (\<forall>u q. u \<notin> family_of (view_row_of ops W) v \<and> view_row_of ops W u = Some q \<and> row_workspace q \<noteq> hidden \<longrightarrow>
      view_row_of ops W2 u = Some q)"
  by (rule entity_store.minimize_restore[OF assms])

theorem minimize_restore_roundtrip_witness:
  "\<exists>W1 W2. minimize_view slot_ops 1 99 small_desk = (Done True, W1) \<and>
    restore_minimized_view slot_ops 1 W1 = (Done (Some 1), W2) \<and> world_ok slot_ops W2"
  using minimize_restore_roundtrip[OF slots.entity_store_axioms small_desk_ok small_desk_rows(1), of 99]
  by (simp add: spawn_row_def) blast

text \<open>When the focused view goes, the view that takes the focus is alive, on the same workspace and
  not the one that goes: its owner when it is attached, else the topmost of the others; only when the
  view is alone on its workspace is there none.\<close>

lemma focus_replacement_alive:
  assumes "entity_store ops" "world_ok ops W" "view_row_of ops W v = Some r" "row_focused r"
  shows "\<exists>res. focus_replacement_after_removal ops v W = (Done res, W) \<and>
    (case res of
       None \<Rightarrow> \<forall>u q. view_row_of ops W u = Some q \<and> row_workspace q = row_workspace r \<longrightarrow> u = v
     | Some u \<Rightarrow> u \<noteq> v \<and> (\<exists>q. view_row_of ops W u = Some q \<and> row_workspace q = row_workspace r \<and>
         (placement_owner (row_placement r) = Some u \<or>
          (\<forall>w p. view_row_of ops W w = Some p \<and> w \<noteq> v \<and> row_workspace p = row_workspace r \<longrightarrow> row_stacking p \<le> row_stacking q))))"
  by (rule entity_store.focus_replacement_spec[OF assms])

text \<open>C18. The overview inventory of a workspace has one entry per view of the workspace, back to front,
  each with its root, its current geometry or else its last one or else the one it asked for.\<close>

theorem overview_lists_workspace:
  assumes "entity_store ops" "world_ok ops W"
  shows "sorted_wrt (\<lambda>a b. ov_stacking a < ov_stacking b) (overview_views ops W ws) \<and>
    distinct (map ov_id (overview_views ops W ws)) \<and>
    ov_id ` set (overview_views ops W ws) = {v. \<exists>r. view_row_of ops W v = Some r \<and> row_workspace r = ws} \<and>
    set (overview_views ops W ws) = {overview_of root r |root r. view_row_of ops W (row_view r) = Some r \<and>
      row_workspace r = ws \<and> tiled_ancestor ops W (row_view r) = Some root}"
  by (rule entity_store.overview_views_exact[OF assms])

theorem overview_lists_workspace_witness:
  "distinct (map ov_id (overview_views slot_ops small_desk 1))"
  using overview_lists_workspace[OF slots.entity_store_axioms small_desk_ok, of 1] by blast





end
