(* ===== verification/Spec2Isabelle.thy ===== *)
theory Spec2Isabelle
  imports Overview Event_Queue Output_Plan Scanout_Format Ipc_Codec Dbus_Roundtrip Surface_Registry Scene_Damage Ecs_Session
begin

text \<open>
  A verification library for the window-management core of the TensorDE desktop.

  \<^bold>\<open>The program.\<close> TensorDE is a Wayland desktop in Rust. A compositor process (\<^verbatim>\<open>apps/tensor-wm\<close>)
  receives client surfaces and input, keeps the state of its windows in an entity store
  (\<^verbatim>\<open>src/ecs\<close>), lays windows out (\<^verbatim>\<open>src/layout\<close>), extracts an immutable scene per workspace
  (\<^verbatim>\<open>src/scene\<close>), repaints what changed (\<^verbatim>\<open>scene/damage.rs\<close>) and presents frames on outputs. The
  crates under \<^verbatim>\<open>crates\<close> hold the value logic it shares with its backends: geometry and scaling
  (\<^verbatim>\<open>tensor-util\<close>), the event bus (\<^verbatim>\<open>tensor-event\<close>), presentation slots (\<^verbatim>\<open>tensor-present\<close>,
  \<^verbatim>\<open>tensor-host\<close>), surfaces and buffers (\<^verbatim>\<open>tensor-protocol\<close>), output planning and DRM leases
  (\<^verbatim>\<open>tensor-drm\<close>), the frames of the control socket (\<^verbatim>\<open>tensor-ipc\<close>) and the message bus
  (\<^verbatim>\<open>tensor-dbus\<close>). The library covers these cores; applications, the handlers of the Wayland protocol
  and device access are outside it.

  \<^bold>\<open>The theories and the code they model.\<close>
  \<^item> \<open>Prelude\<close>: machine integers with saturation and casts, list operations of the standard library.
  \<^item> \<open>Geometry\<close>, \<open>Output_Scale\<close>: \<^verbatim>\<open>crates/tensor-util/src/geometry.rs\<close> and \<^verbatim>\<open>scale.rs\<close>. Rectangles
    denote sets of pixels; intersection and union are exact, scaling by 120ths keeps shared edges and
    covers.
  \<^item> \<open>Layout_Model\<close>, \<open>Layout_Scrolling\<close>, \<open>Layout_Policy\<close>: \<^verbatim>\<open>apps/tensor-wm/src/layout\<close>. The contract
    of a layout is the locale \<open>tiling_layout\<close>, interpreted on the three layouts and on the engine.
    Windows do not overlap, the focused column is revealed, arranging twice is arranging once.
  \<^item> \<open>Ecs_Model\<close>: \<^verbatim>\<open>ecs/components.rs\<close>, \<^verbatim>\<open>ecs/world.rs\<close> and \<^verbatim>\<open>ecs/world/minimize.rs\<close>, one
    definition per method, as operations that return an outcome and the world they leave.
    \<open>Ecs_World\<close> has the locale of the entity store and the invariant, \<open>Ecs_Operations\<close> the effect of
    every operation on the table of views, \<open>Ecs_Scene\<close> arranging, scene extraction and the overview
    inventory (\<^verbatim>\<open>world.rs\<close>, \<^verbatim>\<open>world/extract.rs\<close>, \<^verbatim>\<open>world/overview.rs\<close>), \<open>Ecs_Typed\<close> that every stored
    number stays in its machine range, \<open>Ecs_Session\<close> the sessions: all operations in any order.
  \<^item> \<open>Scene_Model\<close>, \<open>Scene_Damage\<close>: \<^verbatim>\<open>scene/model.rs\<close>, \<^verbatim>\<open>content.rs\<close>, \<^verbatim>\<open>appearance.rs\<close> and
    \<^verbatim>\<open>damage.rs\<close>. Snapshots never panic on well-formed nodes, the submission table is exact, damage
    covers every change, is bounded, closed under blur, and its propagation ends.
  \<^item> \<open>Overview\<close>: \<^verbatim>\<open>apps/tensor-wm/src/overview.rs\<close>. Cards are disjoint, windows appear, hit tests
    return the foremost window.
  \<^item> \<open>Ring_Buffer\<close>, \<open>Event_Queue\<close>, \<open>Present_Queue\<close>: \<^verbatim>\<open>crates/tensor-event/src\<close> and
    \<^verbatim>\<open>crates/tensor-present/src\<close>. Both queues satisfy the locale \<open>bounded_fifo\<close>; the event queue
    refines an abstract bus of one list per phase, and no two pending intents share a slot.
  \<^item> \<open>Surface_Content\<close>, \<open>Surface_Registry\<close>: \<^verbatim>\<open>crates/tensor-protocol/src\<close>. Buffers are released
    exactly once, an acquire point is imported at most once.
  \<^item> \<open>Drm_Lease\<close>: \<^verbatim>\<open>crates/tensor-drm/src/lease.rs\<close>. A connector is in at most one lease, a refused
    request changes nothing, a hotplug revokes exactly the leases it affects.
  \<^item> \<open>Output_Plan\<close>: \<^verbatim>\<open>crates/tensor-drm/src/plan.rs\<close>, \<^verbatim>\<open>policy.rs\<close>, \<^verbatim>\<open>snapshot.rs\<close> and the modes of
    \<^verbatim>\<open>crates/tensor-host/src/mode.rs\<close>. The plan holds exactly the connectors ready for scanout, in order; the
    mode is the best one a rule allows; replaying the difference of two plans on the first gives the second.
    Ordered maps satisfy the locale \<open>ordered_map\<close>.
  \<^item> \<open>Scanout_Format\<close>: \<^verbatim>\<open>crates/tensor-host/src/format.rs\<close>. The negotiated formats are exactly those all
    parties support, best first and without duplicates.
  \<^item> \<open>Byte_Order\<close>, \<open>Ipc_Codec\<close>: \<^verbatim>\<open>crates/tensor-ipc/src/land/codec.rs\<close>. Frames are reassembled from reads of
    any size, and the decoder buffers less than one maximal frame.
  \<^item> \<open>Dbus_Name\<close>, \<open>Dbus_Wire\<close>: \<^verbatim>\<open>crates/tensor-dbus/src/name.rs\<close>, \<^verbatim>\<open>flags.rs\<close>, \<^verbatim>\<open>wire.rs\<close> and
    \<^verbatim>\<open>wire/message.rs\<close>. \<open>Dbus_Message\<close> shows that decoding never panics and accepts only messages that obey
    the protocol, \<open>Dbus_Roundtrip\<close> that an encoded message is decoded to what was sent.
  \<^item> This theory: the path that crosses the components, from a window-management command through
    layout and extraction to the damage of the next frame.

  \<^bold>\<open>How state, errors and loops are modelled.\<close> Structs are records, enums datatypes, and methods that
  take \<open>&mut self\<close> return the updated record. Machine integers are \<open>int\<close> with every saturation, cast
  and wrap written out; predicates such as \<open>rect_ok\<close> say that a value is one of its type. \<open>Err\<close> and a
  failed \<open>expect\<close>, index or slice are values of a sum type, and so is a failed \<open>debug_assert\<close>, which
  only stops a debug build: the theorems show that none of them is reached. Loops are recursion with a
  measure; the two loops whose end is a theorem (the walk over a window family, the propagation of blur
  damage) are partial functions into \<open>option\<close>, where \<open>None\<close> is not returning. Loops the sources bound
  themselves (the ancestor walk, the cycle test, the rounds that place attached views) take that bound
  as fuel, and it is proved to be enough on every well-formed world: attachments form a forest, so the
  depth of a view is below the number of views. Hash maps are functions, or association lists where
  the iteration order could matter. \<open>sort_unstable\<close> is the stable sort; its keys are distinct.

  \<^bold>\<open>Assumptions.\<close> The entity store is the third-party crate \<^verbatim>\<open>bevy_ecs\<close>: the record \<open>ecs_ops\<close> is a
  parameter and the locale \<open>entity_store\<close> its documented behaviour (a spawned entity is fresh, an
  inserted component is read back, a query visits every live entity once). \<open>has_room\<close> bounds a session:
  fewer than \<open>u32::MAX\<close> views, and a stacking counter that is not within one operation of \<open>u64::MAX\<close>,
  where the sources panic. The payload format of the control socket (\<^verbatim>\<open>serde_json\<close>) and the bodies, signatures
  and object paths of the message bus (\<^verbatim>\<open>zvariant\<close>) are parameters as well: \<open>serde_roundtrip\<close> says that a
  written value is read back, \<open>body_law\<close> that a body has a valid signature, empty exactly when the body is.
  \<open>blur_bounded\<close> keeps blur radii away from the \<open>i32\<close> range. Floating-point
  values that the code only copies are type parameters.

  \<^bold>\<open>Not modelled.\<close> Conversions through \<open>f64\<close> in \<^verbatim>\<open>scale.rs\<close>, the guess of a monitor scale in \<^verbatim>\<open>policy.rs\<close>
  (a parameter of the plan) and the \<open>f32\<close> sample transform in \<^verbatim>\<open>tensor-protocol/src/content.rs\<close> (floating
  point); the protocol handlers, the seat, Xwayland and the compositor root (glue over third-party protocol
  objects); the tty, KMS and Vulkan backends (device access); configuration, the sockets of IPC and D-Bus,
  the asynchronous runtime and the KDL library; and the applications beside the compositor.
\<close>

section \<open>From window management to repaint\<close>

text \<open>The blur radius of a view fits the output, so the region a blur reads is representable.\<close>

definition blur_fits :: "rect \<Rightarrow> 'm view_row \<Rightarrow> bool" where
  "blur_fits area r \<longleftrightarrow>
     (case effect_backdrop_blur (row_effects r) of
        None \<Rightarrow> True
      | Some b \<Rightarrow> 2 * blur_radius b + rect_width area \<le> I32_MAX \<and> 2 * blur_radius b + rect_height area \<le> I32_MAX)"

lemma extract_node_blur:
  "node_blur (extract_node a vp v r g sp) = Some radius \<Longrightarrow>
   \<exists>b. effect_backdrop_blur (row_effects r) = Some b \<and> blur_radius b = radius"
  by (auto simp: node_blur_def extract_node_def node_with_content_def node_with_presentation_hint_def
      node_with_focus_outline_def node_with_backdrop_region_def scene_node_new_def resolved_for_def extract_effects_def
      Let_def split: option.splits if_splits)

lemma scene_blur_bounded:
  assumes "\<forall>n \<in> set (scene_nodes scene). node_of_row a vp (scene_contents scene) T (node_view_id n) n"
    and "scene_viewport scene = area" "\<And>v r. T v = Some r \<Longrightarrow> blur_fits area r"
  shows "blur_bounded scene"
  unfolding blur_bounded_def
proof (intro ballI allI impI)
  fix n radius
  assume n: "n \<in> set (scene_nodes scene)" "node_blur n = Some radius"
  obtain r g start where r: "T (node_view_id n) = Some r"
    "n = extract_node a vp (node_view_id n) r g \<lparr>span_start = start, span_len = length (row_content r)\<rparr>"
    using assms(1) n(1) unfolding node_of_row_def by blast
  obtain b where b: "effect_backdrop_blur (row_effects r) = Some b" "blur_radius b = radius"
    using extract_node_blur n(2) r(2) by metis
  show "2 * radius + rect_width (scene_viewport scene) \<le> I32_MAX \<and> 2 * radius + rect_height (scene_viewport scene) \<le> I32_MAX"
    using assms(3)[OF r(1)] b assms(2) by (simp add: blur_fits_def)
qed

lemma node_of_row_geometry:
  "node_of_row a vp contents (view_row_of ops W) v n \<Longrightarrow> view_geometry ops W v = Some (node_geometry n)"
  by (auto simp: node_of_row_def view_geometry_def)

lemma table_arrange_row:
  assumes "table_arrange T ws g v = Some r"
  shows "\<exists>q. T v = Some q \<and> row_content r = row_content q \<and> row_effects r = row_effects q"
  using assms by (auto simp: table_arrange_def geo_row_def split: option.splits)

lemma table_arrange_load: "content_load (table_arrange T ws g) = content_load T"
proof -
  have "dom (table_arrange T ws g) = dom T" by (auto simp: table_arrange_def)
  moreover have "row_content (the (table_arrange T ws g v)) = row_content (the (T v))" if "v \<in> dom T" for v
    using that by (auto simp: table_arrange_def geo_row_def split: option.splits)
  ultimately show ?thesis unfolding content_load_def by (intro sum.cong) auto
qed

text \<open>C2. The path from window management to the screen is sound. Take the world behind the previous
  frame of a workspace, and the world after any further session commands; arranging the latter on the
  same output succeeds, both scenes can be extracted, and the damage between them is computed, has at
  most 64 rectangles, and contains the old visual bounds of every view that moved, resized or left the
  workspace and the new visual bounds of every view that moved, resized or came.\<close>

theorem frame_repaints_changes:
  assumes es: "entity_store ops" and W0: "world_reachable ops W0" "has_room W0" "int (content_load (view_row_of ops W0)) \<le> U32_MAX"
    and cached: "cw_layout_snapshots W0 ws = Some s0" "snapshot_viewport s0 = area"
    and W1: "world_reachable ops W1" "has_room W1" "int (content_load (view_row_of ops W1)) \<le> U32_MAX"
    and blur: "\<forall>v r. view_row_of ops W1 v = Some r \<longrightarrow> blur_fits area r" and area: "rect_ok area"
  shows "\<exists>snap A1 p c d. arrange_workspace ops ws engine area W1 = (Done snap, A1) \<and>
    extract_scene ops W0 ws = Done (Some p) \<and> extract_scene ops A1 ws = Done (Some c) \<and>
    damage_since c (Some p) = Some (Inr d) \<and> length d \<le> 64 \<and>
    (\<forall>old \<in> set (scene_nodes p). \<forall>b. view_geometry ops A1 (node_view_id old) \<noteq> view_geometry ops W0 (node_view_id old) \<or>
        node_view_id old \<notin> set (workspace_ids (view_row_of ops A1) ws) \<longrightarrow>
      scene_visual_bounds p old = Inr (Some b) \<longrightarrow> pixel_set b \<subseteq> damaged_pixels d) \<and>
    (\<forall>new \<in> set (scene_nodes c). \<forall>b. view_geometry ops W0 (node_view_id new) \<noteq> view_geometry ops A1 (node_view_id new) \<or>
        node_view_id new \<notin> set (workspace_ids (view_row_of ops W0) ws) \<longrightarrow>
      scene_visual_bounds c new = Inr (Some b) \<longrightarrow> pixel_set b \<subseteq> damaged_pixels d)"
proof -
  note ok0 = entity_store.world_reachable_ok[OF es W0(1)] and ty0 = entity_store.world_reachable_typed[OF es W0(1)]
  note ok1 = entity_store.world_reachable_ok[OF es W1(1)]
  obtain snap g A1 where a: "arrange_workspace ops ws engine area W1 = (Done snap, A1)" "world_ok ops A1"
    "snapshot_viewport snap = area" "view_row_of ops A1 = table_arrange (view_row_of ops W1) ws g"
    "cw_layout_snapshots A1 = (cw_layout_snapshots W1)(ws \<mapsto> snap)" "cw_view_entities A1 = cw_view_entities W1"
    "cw_next_stacking A1 = cw_next_stacking W1"
    using entity_store.arrange_workspace_viewport[OF es ok1 W1(2)] by metis
  have ty1: "world_typed ops A1"
    using keeps_typedD[OF entity_store.keeps_arrange[OF es area] entity_store.world_reachable_typed[OF es W1(1)], of ws engine] a(1)
    by simp
  have room1: "has_room A1" using W1(2) a(6,7) by (simp add: has_room_def)
  have load1: "int (content_load (view_row_of ops A1)) \<le> U32_MAX" using W1(3) by (simp add: a(4) table_arrange_load)
  obtain p where p: "extract_scene ops W0 ws = Done (Some p)" "scene_ok p" "scene_workspace p = ws" "scene_viewport p = area"
    "map node_view_id (scene_nodes p) = workspace_ids (view_row_of ops W0) ws"
    "\<forall>n \<in> set (scene_nodes p). node_of_row (cw_appearance W0) area (scene_contents p) (view_row_of ops W0) (node_view_id n) n"
    using entity_store.extract_scene_exact[OF es ok0 ty0 W0(2,3), of ws] cached by (auto simp: ball_conj_distrib)
  obtain c where c: "extract_scene ops A1 ws = Done (Some c)" "scene_ok c" "scene_workspace c = ws" "scene_viewport c = area"
    "map node_view_id (scene_nodes c) = workspace_ids (view_row_of ops A1) ws"
    "\<forall>n \<in> set (scene_nodes c). node_of_row (cw_appearance A1) area (scene_contents c) (view_row_of ops A1) (node_view_id n) n"
    using entity_store.extract_scene_exact[OF es a(2) ty1 room1 load1, of ws] a(3,5) by (auto simp: ball_conj_distrib)
  have "blur_fits area r" if "view_row_of ops A1 v = Some r" for v r
    using table_arrange_row[OF that[unfolded a(4)]] blur by (auto simp: blur_fits_def)
  then have bb: "blur_bounded c" by (rule scene_blur_bounded[OF c(6,4)])
  obtain d where d: "damage_since c (Some p) = Some (Inr d)" "damage_ok area d" "diff_result p c (scene_nodes p) (scene_nodes c) [] d"
    using damage_between_ok[OF p(2) c(2) bb] p(3,4) c(3,4) by (auto simp: damage_since_def)
  have "length d \<le> 64" using d(2) by (simp add: damage_ok_def MAX_DAMAGE_REGIONS_def)
  moreover have "pixel_set b \<subseteq> damaged_pixels d"
    if h: "old \<in> set (scene_nodes p)" "view_geometry ops A1 (node_view_id old) \<noteq> view_geometry ops W0 (node_view_id old) \<or>
        node_view_id old \<notin> set (workspace_ids (view_row_of ops A1) ws)" "scene_visual_bounds p old = Inr (Some b)" for old b
  proof -
    have "\<not> same_node p c old new" if new: "new \<in> set (scene_nodes c)" for new
      using h(1,2) new c(5,6) p(6) node_of_row_geometry unfolding same_node_def by (metis image_eqI list.set_map)
    then show ?thesis using d(3) h(1,3) region_covered_pixels unfolding diff_result_def node_covered_def by blast
  qed
  moreover have "pixel_set b \<subseteq> damaged_pixels d"
    if h: "new \<in> set (scene_nodes c)" "view_geometry ops W0 (node_view_id new) \<noteq> view_geometry ops A1 (node_view_id new) \<or>
        node_view_id new \<notin> set (workspace_ids (view_row_of ops W0) ws)" "scene_visual_bounds c new = Inr (Some b)" for new b
  proof -
    have "\<not> same_node p c old new" if old: "old \<in> set (scene_nodes p)" for old
      using h(1,2) old p(5,6) c(6) node_of_row_geometry unfolding same_node_def by (metis image_eqI list.set_map)
    then show ?thesis using d(3) h(1,3) region_covered_pixels unfolding diff_result_def node_covered_def by blast
  qed
  ultimately show ?thesis using a(1) p(1) c(1) d(1) by blast
qed

theorem frame_repaints_changes_witness:
  "\<exists>A1 p c d. extract_scene slot_ops arranged_desk 1 = Done (Some p) \<and> extract_scene slot_ops A1 1 = Done (Some c) \<and>
    damage_since c (Some p) = Some (Inr d) \<and> length d \<le> 64"
proof -
  obtain s0 where s0: "cw_layout_snapshots arranged_desk 1 = Some s0" "snapshot_viewport s0 = Rect 0 0 300 200"
    using arranged_desk_cached by blast
  have blur: "\<forall>v r. view_row_of slot_ops small_desk v = Some r \<longrightarrow> blur_fits (Rect 0 0 300 200) r"
    using plain_world_rows[OF desks_plain(1)] by (auto simp: blur_fits_def)
  have area: "rect_ok (Rect 0 0 300 200)" by (simp add: rect_ok_def machine_defs)
  show ?thesis
    using frame_repaints_changes[OF slots.entity_store_axioms arranged_desk_reachable arranged_desk_room
        plain_world_load[OF desks_plain(2)] s0 small_desk_reachable small_desk_room plain_world_load[OF desks_plain(1)] blur area,
        of "engine_new Spatial2D"] by blast
qed

end
